(* ===== verification/Prelude.thy ===== *)
theory Prelude imports Main "HOL-Library.Word" "HOL-Library.Monad_Syntax" begin

text \<open>
  Shared ground of the development: bytes, memory objects and pointers into them, the checked
  reads and writes every C access goes through, and the hint collections of the component
  proofs.

  A C object (a message, a builder's buffer, a C string argument) is the list of its bytes; a
  pointer into it is an offset.  An access outside the object is undefined behaviour in C, so
  the checked accesses return \<open>None\<close> there, and every definition built on them is \<open>None\<close>
  exactly when the code would leave the object.
\<close>

unbundle bit_operations_syntax

type_synonym byte = "8 word"
type_synonym mem = "byte list"
type_synonym ptr = nat
type_synonym uint16 = "16 word"
type_synonym uint32 = "32 word"
type_synonym uint64 = "64 word"
type_synonym int64 = "64 word"

named_theorems mem_simps \<open>checked reads and writes of a memory object\<close>
named_theorems wire_simps \<open>the C readers on the bytes of an encoded value\<close>

section \<open>Checked accesses\<close>

definition rd :: "mem \<Rightarrow> ptr \<Rightarrow> byte option" where
  "rd m p = (if p < length m then Some (m ! p) else None)"

definition rd_range :: "mem \<Rightarrow> ptr \<Rightarrow> nat \<Rightarrow> byte list option" where
  "rd_range m p n = (if p + n \<le> length m then Some (take n (drop p m)) else None)"

text \<open>A sequence of stores \<open>*w++ = b\<close>: the new memory and the pointer after the last one.\<close>

definition put :: "mem \<Rightarrow> ptr \<Rightarrow> byte list \<Rightarrow> (mem \<times> ptr) option" where
  "put m w bs =
     (if w + length bs \<le> length m
      then Some (take w m @ bs @ drop (w + length bs) m, w + length bs) else None)"

text \<open>The bytes \<open>bs\<close> lie in \<open>m\<close> from offset \<open>p\<close> on.\<close>

definition bytes_at :: "mem \<Rightarrow> ptr \<Rightarrow> byte list \<Rightarrow> bool" where
  "bytes_at m p bs \<longleftrightarrow> take (length bs) (drop p m) = bs"

lemma bytes_at_Nil [simp]: "bytes_at m p []"
  by (simp add: bytes_at_def)

lemma bytes_at_Cons [simp]:
  "bytes_at m p (b # bs) \<longleftrightarrow> rd m p = Some b \<and> bytes_at m (Suc p) bs"
proof (cases "p < length m")
  case True
  then have "drop p m = m ! p # drop (Suc p) m" by (rule Cons_nth_drop_Suc [symmetric])
  with True show ?thesis by (simp add: bytes_at_def rd_def)
qed (simp add: bytes_at_def rd_def)

lemma bytes_at_append [simp]:
  "bytes_at m p (xs @ ys) \<longleftrightarrow> bytes_at m p xs \<and> bytes_at m (p + length xs) ys"
proof (induction xs arbitrary: p)
  case (Cons x xs)
  then show ?case by simp
qed simp

lemma bytes_at_middle: "bytes_at (pre @ bs @ post) (length pre) bs"
  by (simp add: bytes_at_def)

lemma bytes_at_start: "bytes_at (bs @ post) 0 bs"
  by (simp add: bytes_at_def)

lemma bytes_at_whole: "bytes_at bs 0 bs"
  by (simp add: bytes_at_def)

lemma bytes_at_bound:
  assumes "bytes_at m p bs" and "bs \<noteq> []"
  shows "p + length bs \<le> length m"
proof -
  from assms(1) have "length (take (length bs) (drop p m)) = length bs"
    by (simp add: bytes_at_def)
  with assms(2) show ?thesis by (cases "p \<le> length m") auto
qed

lemma bytes_at_rd_range: "bytes_at m p bs \<Longrightarrow> p + length bs \<le> length m \<Longrightarrow>
    rd_range m p (length bs) = Some bs"
  by (simp add: bytes_at_def rd_range_def)

lemma rd_range_bytes_at: "rd_range m p n = Some bs \<Longrightarrow> bytes_at m p bs \<and> length bs = n"
  by (auto simp: bytes_at_def rd_range_def split: if_splits)

lemma rd_append1: "p < length xs \<Longrightarrow> rd (xs @ ys) p = rd xs p"
  by (simp add: rd_def nth_append)

lemma rd_append2 [simp]: "rd (xs @ ys) (length xs + p) = rd ys p"
  by (simp add: rd_def)

lemma rd_length [simp]: "rd (xs @ b # ys) (length xs) = Some b"
  by (simp add: rd_def)

lemma rd_Some_less: "rd m p = Some b \<Longrightarrow> p < length m"
  by (simp add: rd_def split: if_splits)

section \<open>Writing\<close>

lemma put_Nil [simp]: "w \<le> length m \<Longrightarrow> put m w [] = Some (m, w)"
  by (simp add: put_def)

lemma put_None: "put m w bs = None \<longleftrightarrow> length m < w + length bs"
  by (simp add: put_def)

lemma put_put:
  "Option.bind (put m w xs) (\<lambda>(m, w). put m w ys) = put m w (xs @ ys)"
proof (cases "w + length xs + length ys \<le> length m")
  case True
  then have "drop (length ys + (w + length xs)) m = drop (w + (length xs + length ys)) m"
    by (simp add: ac_simps)
  with True show ?thesis by (simp add: put_def)
qed (simp add: put_def)

lemma put_length: "put m w bs = Some (m', w') \<Longrightarrow> length m' = length m \<and> w' = w + length bs"
  by (auto simp: put_def split: if_splits)

lemma put_bytes_at: "put m w bs = Some (m', w') \<Longrightarrow> bytes_at m' w bs"
  by (auto simp: put_def bytes_at_def min_absorb2 split: if_splits)

lemma put_take: "put m w bs = Some (m', w') \<Longrightarrow> take w' m' = take w m @ bs"
  by (auto simp: put_def min_absorb2 split: if_splits)

text \<open>A store followed by what is a store wherever the first one can have stopped.\<close>

lemma put_then:
  assumes f: "\<And>m' w'. w' \<le> length m' \<Longrightarrow> f m' w' = put m' w' ys"
  shows "Option.bind (put m w xs) (\<lambda>(m, w). f m w) = put m w (xs @ ys)"
proof (cases "put m w xs")
  case None
  then show ?thesis by (simp add: put_None) (simp add: put_def)
next
  case (Some mw)
  then obtain m' w' where mw: "put m w xs = Some (m', w')" by (cases mw) auto
  then have "w' \<le> length m'" by (auto simp: put_def split: if_splits)
  with f mw put_put [of m w xs ys] show ?thesis by simp
qed

section \<open>Bounded loops\<close>

text \<open>
  A loop that a corrupt message can keep from ending takes fuel.  Its outcome tells the three
  ways it can end apart: it returns, it leaves the object, or it is still running when the fuel
  is spent.
\<close>

datatype 'a outcome = Return 'a | Fault | Out_Of_Fuel

fun outcome_of :: "'a option \<Rightarrow> 'a outcome" where
  "outcome_of None = Fault"
| "outcome_of (Some x) = Return x"


text \<open>One statement after another; whatever does not return ends the sequence.\<close>

primrec obind :: "'a outcome \<Rightarrow> ('a \<Rightarrow> 'b outcome) \<Rightarrow> 'b outcome" where
  "obind (Return x) f = f x"
| "obind Fault f = Fault"
| "obind Out_Of_Fuel f = Out_Of_Fuel"

lemma obind_cong [fundef_cong]:
  "x = y \<Longrightarrow> (\<And>a. y = Return a \<Longrightarrow> f a = g a) \<Longrightarrow> obind x f = obind y g"
  by (cases y) simp_all

lemma obind_Return: "obind x f = Return b \<longleftrightarrow> (\<exists>a. x = Return a \<and> f a = Return b)"
  by (cases x) simp_all

lemma outcome_of_Return [simp]: "outcome_of x = Return y \<longleftrightarrow> x = Some y"
  by (cases x) simp_all

lemma outcome_of_fuel [simp]: "outcome_of x \<noteq> Out_Of_Fuel"
  by (cases x) simp_all


section \<open>Values laid end to end\<close>

text \<open>
  A reader that tells the size of the item at a pointer lets its client step from item to item:
  the interface behind \<open>opo_val_next\<close> over the members of a container and behind the splitting
  of the received bytes into messages.  \<open>item\<close> says which byte strings are items.
\<close>

primrec walk :: "(mem \<Rightarrow> ptr \<Rightarrow> nat option) \<Rightarrow> mem \<Rightarrow> nat \<Rightarrow> ptr \<Rightarrow> ptr option" where
  "walk sz m 0 p = Some p"
| "walk sz m (Suc n) p = do { k \<leftarrow> sz m p; walk sz m n (p + k) }"

locale sized_items =
  fixes sz :: "mem \<Rightarrow> ptr \<Rightarrow> nat option"
    and item :: "byte list \<Rightarrow> bool"
  assumes size_item: "item x \<Longrightarrow> bytes_at m p x \<Longrightarrow> sz m p = Some (length x)"
    and item_not_Nil: "item x \<Longrightarrow> x \<noteq> []"
begin

lemma walk_items:
  "\<forall>x \<in> set xs. item x \<Longrightarrow> bytes_at m p (concat xs) \<Longrightarrow> n \<le> length xs \<Longrightarrow>
   walk sz m n p = Some (p + length (concat (take n xs)))"
proof (induction n arbitrary: xs p)
  case (Suc n)
  then obtain x ys where xs: "xs = x # ys" by (cases xs) auto
  with Suc.prems have "sz m p = Some (length x)" by (simp add: size_item)
  moreover have "walk sz m n (p + length x) =
      Some (p + length x + length (concat (take n ys)))"
    using Suc.prems by (intro Suc.IH) (simp_all add: xs)
  ultimately show ?case by (simp add: xs add.assoc)
qed simp

lemma item_at:
  assumes "bytes_at m p (concat xs)" and "n < length xs"
  shows "bytes_at m (p + length (concat (take n xs))) (xs ! n)"
proof -
  have "xs = take n xs @ xs ! n # drop (Suc n) xs"
    using assms(2) by (rule id_take_nth_drop)
  then have "concat xs = concat (take n xs) @ xs ! n @ concat (drop (Suc n) xs)"
    by (metis concat.simps(2) concat_append)
  with assms(1) show ?thesis by (metis bytes_at_append)
qed

text \<open>Items have one reading: two that start at the same place are equal.\<close>

lemma item_prefix_free:
  assumes "item x" and "item y" and "bytes_at m p x" and "bytes_at m p y"
  shows "x = y"
proof -
  have "length x = length y"
    using size_item [OF assms(1,3)] size_item [OF assms(2,4)] by simp
  with assms(3,4) show ?thesis by (simp add: bytes_at_def)
qed

end

end
