(* ===== verification/Bytes.thy ===== *)
theory Bytes imports Prelude begin

text \<open>
  The big-endian integer codec shared by \<^verbatim>\<open>val.c\<close>, \<^verbatim>\<open>builder.c\<close> and \<^verbatim>\<open>opo.c\<close>: the
  \<open>read_uint\<close> functions and the \<open>fill_uint\<close> functions, the interface they form together
  (locale \<open>big_endian\<close>) and its three interpretations.
\<close>

section \<open>Reading (val.c)\<close>

definition read_uint16 :: "mem \<Rightarrow> ptr \<Rightarrow> (ptr \<times> uint16) option" where
  "read_uint16 m b = do {
     x \<leftarrow> rd m b;
     let num = (ucast x :: uint16);
     y \<leftarrow> rd m (b + 1);
     let num = push_bit 8 num OR ucast y;
     Some (b + 2, num)
   }"

text \<open>The loop \<open>for (; b < end; b++) num = (num << 8) | *b\<close>, with \<open>end - b\<close> bytes to go.\<close>

fun read_loop :: "mem \<Rightarrow> ptr \<Rightarrow> nat \<Rightarrow> 'a::len word \<Rightarrow> (ptr \<times> 'a word) option" where
  "read_loop m b 0 num = Some (b, num)"
| "read_loop m b (Suc n) num = do {
     x \<leftarrow> rd m b;
     read_loop m (b + 1) n (push_bit 8 num OR ucast x)
   }"

definition read_uint32 :: "mem \<Rightarrow> ptr \<Rightarrow> (ptr \<times> uint32) option" where
  "read_uint32 m b = read_loop m b 4 0"

definition read_uint64 :: "mem \<Rightarrow> ptr \<Rightarrow> (ptr \<times> uint64) option" where
  "read_uint64 m b = read_loop m b 8 0"

section \<open>Writing (builder.c)\<close>

definition fill_uint16 :: "mem \<Rightarrow> ptr \<Rightarrow> uint16 \<Rightarrow> (mem \<times> ptr) option" where
  "fill_uint16 m b n = put m b [ucast (drop_bit 8 n), ucast (0x00ff AND n)]"

definition fill_uint32 :: "mem \<Rightarrow> ptr \<Rightarrow> uint32 \<Rightarrow> (mem \<times> ptr) option" where
  "fill_uint32 m b n = put m b
     [ucast (drop_bit 24 n),
      ucast (0x000000ff AND drop_bit 16 n),
      ucast (0x000000ff AND drop_bit 8 n),
      ucast (0x000000ff AND n)]"

definition fill_uint64 :: "mem \<Rightarrow> ptr \<Rightarrow> uint64 \<Rightarrow> (mem \<times> ptr) option" where
  "fill_uint64 m b n = put m b
     [ucast (drop_bit 56 n),
      ucast (0x00000000000000ff AND drop_bit 48 n),
      ucast (0x00000000000000ff AND drop_bit 40 n),
      ucast (0x00000000000000ff AND drop_bit 32 n),
      ucast (0x00000000000000ff AND drop_bit 24 n),
      ucast (0x00000000000000ff AND drop_bit 16 n),
      ucast (0x00000000000000ff AND drop_bit 8 n),
      ucast (0x00000000000000ff AND n)]"

section \<open>The big-endian image of an integer\<close>

text \<open>The \<open>k\<close> low bytes of \<open>n\<close>, most significant first.\<close>

primrec be_bytes :: "nat \<Rightarrow> 'a::len word \<Rightarrow> byte list" where
  "be_bytes 0 n = []"
| "be_bytes (Suc k) n = ucast (drop_bit (8 * k) n) # be_bytes k n"

lemma length_be_bytes [simp]: "length (be_bytes k n) = k"
  by (induction k) simp_all

lemma ucast_mask_byte: "(ucast (0xff AND n) :: byte) = ucast (n :: 'a::len word)"
proof -
  have "0xff AND n = take_bit 8 n"
    by (simp add: take_bit_eq_mask mask_eq_exp_minus_1 and.commute)
  then show ?thesis by (simp add: unsigned_take_bit_eq) (rule bit_eqI, auto simp: bit_simps)
qed

lemma push_take_drop:
  "push_bit k (take_bit j (drop_bit k n)) OR take_bit k n = take_bit (k + j) (n :: 'a::len word)"
  by (rule bit_eqI) (auto simp: bit_simps not_less dest: bit_imp_le_length)

lemma ucast_ucast_byte:
  "(ucast (ucast n :: byte) :: 'a::len word) = take_bit 8 (n :: 'a word)"
  by (rule bit_eqI) (auto simp: bit_simps dest: bit_imp_le_length)

lemma read_loop_be:
  "bytes_at m p (be_bytes k n) \<Longrightarrow>
   read_loop m p k acc = Some (p + k, push_bit (8 * k) acc OR take_bit (8 * k) n)"
proof (induction k arbitrary: p acc)
  case (Suc k)
  let ?acc = "push_bit 8 acc OR take_bit 8 (drop_bit (8 * k) n)"
  have "push_bit (8 * k) ?acc OR take_bit (8 * k) n =
      push_bit (8 * k + 8) acc OR
        (push_bit (8 * k) (take_bit 8 (drop_bit (8 * k) n)) OR take_bit (8 * k) n)"
    by (simp add: push_bit_or or.assoc)
  also have "\<dots> = push_bit (8 * Suc k) acc OR take_bit (8 * Suc k) n"
    by (simp only: push_take_drop) (simp add: add.commute)
  finally have *: "push_bit (8 * k) ?acc OR take_bit (8 * k) n =
      push_bit (8 * Suc k) acc OR take_bit (8 * Suc k) n" .
  from Suc have "read_loop m (Suc p) k ?acc =
      Some (Suc p + k, push_bit (8 * k) ?acc OR take_bit (8 * k) n)" by simp
  with * Suc.prems show ?case by (simp add: ucast_ucast_byte)
qed simp

lemma read_loop_None: "read_loop m p k acc = None \<longleftrightarrow> k \<noteq> 0 \<and> length m < p + k"
  by (induction m p k acc rule: read_loop.induct) (auto simp: rd_def split: if_splits)

text \<open>Whatever the loop reads is the integer whose image lies there.\<close>

lemma read_loop_Some:
  assumes "read_loop m p k acc = Some (q, n)" and "8 * k \<le> LENGTH('a)"
  shows "bytes_at m p (be_bytes k (n :: 'a::len word)) \<and>
    drop_bit (8 * k) n = take_bit (LENGTH('a) - 8 * k) acc"
  using assms
proof (induction k arbitrary: p acc)
  case (Suc k)
  from Suc.prems(1) obtain x where x: "rd m p = Some x"
    and r: "read_loop m (p + 1) k (push_bit 8 acc OR ucast x) = Some (q, n)"
    by (auto simp: bind_eq_Some_conv)
  let ?j = "LENGTH('a) - 8 * k"
  have IH: "bytes_at m (p + 1) (be_bytes k n)"
    "drop_bit (8 * k) n = take_bit ?j (push_bit 8 acc OR ucast x)"
    using Suc.IH [OF r] Suc.prems(2) by simp_all
  have "(ucast (drop_bit (8 * k) n) :: byte) = x" unfolding IH(2)
    by (rule bit_eqI) (use Suc.prems(2) in \<open>auto simp: bit_simps dest: bit_imp_le_length\<close>)
  moreover have "drop_bit (8 * Suc k) n = drop_bit 8 (drop_bit (8 * k) n)"
    by (simp add: add.commute)
  then have "drop_bit (8 * Suc k) n = take_bit (LENGTH('a) - 8 * Suc k) acc" unfolding IH(2)
    by (simp only:) (rule bit_eqI, use Suc.prems(2) in \<open>auto simp: bit_simps dest: bit_imp_le_length\<close>)
  ultimately show ?case using x IH(1) by simp
qed simp

section \<open>The interface of one integer width\<close>

text \<open>
  What the rest of the program relies on: \<open>fill\<close> stores the image of the integer, and \<open>read\<close>
  returns an integer exactly where its image lies, moving the pointer past it.
\<close>

locale big_endian =
  fixes fill :: "mem \<Rightarrow> ptr \<Rightarrow> 'a::len word \<Rightarrow> (mem \<times> ptr) option"
    and read :: "mem \<Rightarrow> ptr \<Rightarrow> (ptr \<times> 'a word) option"
    and k :: nat
  assumes fill_put: "fill m w n = put m w (be_bytes k n)"
    and read_iff: "read m p = Some (q, n) \<longleftrightarrow> q = p + k \<and> bytes_at m p (be_bytes k n)"
    and read_None: "read m p = None \<longleftrightarrow> length m < p + k"
begin

lemma read_at [simp]: "bytes_at m p (be_bytes k n) \<Longrightarrow> read m p = Some (p + k, n)"
  by (simp add: read_iff)

lemma read_fill: "fill m w n = Some (m', w') \<Longrightarrow> read m' w = Some (w', n)"
  by (auto simp: fill_put read_iff dest: put_bytes_at put_length)

lemma be_inj:
  fixes n n' :: "'a word"
  assumes eq: "be_bytes k n = be_bytes k n'"
  shows "n = n'"
proof -
  have "read (be_bytes k n) 0 = Some (0 + k, n)" by (rule read_at [OF bytes_at_whole])
  moreover have "read (be_bytes k n) 0 = Some (0 + k, n')"
    unfolding eq by (rule read_at [OF bytes_at_whole])
  ultimately show ?thesis by simp
qed

lemma read_ex: "p + k \<le> length m \<Longrightarrow> \<exists>n. read m p = Some (p + k, n)"
  using read_None [of m p] by (cases "read m p") (auto simp: read_iff)

end

lemma read_uint16_loop: "read_uint16 m b = read_loop m b 2 0"
  by (simp add: read_uint16_def numeral_2_eq_2 Let_def)

lemma fill_uint16_put: "fill_uint16 m b n = put m b (be_bytes 2 n)"
  unfolding fill_uint16_def ucast_mask_byte by (simp add: numeral_2_eq_2)

lemma fill_uint32_put: "fill_uint32 m b n = put m b (be_bytes 4 n)"
  unfolding fill_uint32_def ucast_mask_byte by (simp add: eval_nat_numeral)

lemma fill_uint64_put: "fill_uint64 m b n = put m b (be_bytes 8 n)"
  unfolding fill_uint64_def ucast_mask_byte by (simp add: eval_nat_numeral)

lemma read_loop_iff:
  assumes "LENGTH('a) = 8 * k"
  shows "read_loop m p k 0 = Some (q, n :: 'a::len word) \<longleftrightarrow>
    q = p + k \<and> bytes_at m p (be_bytes k n)"
proof
  assume r: "read_loop m p k 0 = Some (q, n)"
  have b: "bytes_at m p (be_bytes k n)" using read_loop_Some [OF r] assms by simp
  from read_loop_be [OF b, of 0] r b show "q = p + k \<and> bytes_at m p (be_bytes k n)" by simp
next
  assume "q = p + k \<and> bytes_at m p (be_bytes k n)"
  then show "read_loop m p k 0 = Some (q, n)"
    using read_loop_be [of m p k n 0] assms by (simp add: take_bit_word_eq_self)
qed

interpretation u16: big_endian fill_uint16 read_uint16 2
  by unfold_locales (simp_all add: fill_uint16_put read_uint16_loop read_loop_iff read_loop_None)

interpretation u32: big_endian fill_uint32 read_uint32 4
  by unfold_locales (simp_all add: fill_uint32_put read_uint32_def read_loop_iff read_loop_None)

interpretation u64: big_endian fill_uint64 read_uint64 8
  by unfold_locales (simp_all add: fill_uint64_put read_uint64_def read_loop_iff read_loop_None)

text \<open>The image of a small number determines it.\<close>

lemma unat_of_nat_len: "n < 2 ^ LENGTH('a) \<Longrightarrow> unat (of_nat n :: 'a::len word) = n"
  by (simp add: unat_of_nat take_bit_nat_eq_self)

end
