(* ===== verification/Wire.thy ===== *)
theory Wire imports Bytes begin

text \<open>
  The wire format: the tag bytes of \<^verbatim>\<open>internal.h\<close>, the public value types of \<^verbatim>\<open>val.h\<close>, and the
  abstract values the byte layout stands for.  \<open>enc\<close> is the specification the reader
  (\<^verbatim>\<open>val.c\<close>), the builder (\<^verbatim>\<open>builder.c\<close>) and the encoder (\<^verbatim>\<open>opo.c\<close>) are proved against; it
  is not code of the repository.
\<close>

section \<open>Tags (internal.h)\<close>

datatype ValType =
    VAL_NULL | VAL_TRUE | VAL_FALSE
  | VAL_INT1 | VAL_INT2 | VAL_INT4 | VAL_INT8
  | VAL_STR1 | VAL_STR2 | VAL_STR4
  | VAL_KEY1 | VAL_KEY2
  | VAL_DEC | VAL_UUID | VAL_TIME | VAL_OBJ | VAL_ARRAY

primrec tag :: "ValType \<Rightarrow> byte" where
  "tag VAL_NULL = 0x5A"
| "tag VAL_TRUE = 0x74"
| "tag VAL_FALSE = 0x66"
| "tag VAL_INT1 = 0x69"
| "tag VAL_INT2 = 0x32"
| "tag VAL_INT4 = 0x34"
| "tag VAL_INT8 = 0x38"
| "tag VAL_STR1 = 0x73"
| "tag VAL_STR2 = 0x53"
| "tag VAL_STR4 = 0x42"
| "tag VAL_KEY1 = 0x6B"
| "tag VAL_KEY2 = 0x4B"
| "tag VAL_DEC = 0x64"
| "tag VAL_UUID = 0x75"
| "tag VAL_TIME = 0x54"
| "tag VAL_OBJ = 0x7B"
| "tag VAL_ARRAY = 0x5B"

text \<open>The tags as a finite type: a statement about every tag is checked by enumeration.\<close>

instantiation ValType :: enum
begin

definition enum_ValType :: "ValType list" where
  "enum_ValType = [VAL_NULL, VAL_TRUE, VAL_FALSE, VAL_INT1, VAL_INT2, VAL_INT4, VAL_INT8,
     VAL_STR1, VAL_STR2, VAL_STR4, VAL_KEY1, VAL_KEY2, VAL_DEC, VAL_UUID, VAL_TIME,
     VAL_OBJ, VAL_ARRAY]"

definition enum_all_ValType :: "(ValType \<Rightarrow> bool) \<Rightarrow> bool" where
  "enum_all_ValType P \<longleftrightarrow> list_all P enum_class.enum"

definition enum_ex_ValType :: "(ValType \<Rightarrow> bool) \<Rightarrow> bool" where
  "enum_ex_ValType P \<longleftrightarrow> list_ex P enum_class.enum"

instance
proof
  show u: "UNIV = set (enum_class.enum :: ValType list)"
    by (auto simp: enum_ValType_def intro: ValType.exhaust)
  show "distinct (enum_class.enum :: ValType list)" by (simp add: enum_ValType_def)
  show "enum_class.enum_all P \<longleftrightarrow> Ball UNIV P" for P :: "ValType \<Rightarrow> bool"
    unfolding u by (simp add: enum_all_ValType_def list_all_iff)
  show "enum_class.enum_ex P \<longleftrightarrow> Bex UNIV P" for P :: "ValType \<Rightarrow> bool"
    unfolding u by (simp add: enum_ex_ValType_def list_ex_iff)
qed

end

text \<open>The tag a \<open>switch (*val)\<close> selects; \<open>None\<close> is its \<open>default\<close> branch.\<close>

definition switch_tag :: "byte \<Rightarrow> ValType option" where
  "switch_tag b = List.find (\<lambda>t. tag t = b) enum_class.enum"

lemma switch_tag [simp]: "switch_tag (tag t) = Some t"
  by (cases t) (simp_all add: switch_tag_def enum_ValType_def)

lemma switch_tagD: "switch_tag b = Some t \<Longrightarrow> tag t = b"
  unfolding switch_tag_def find_Some_iff by blast

lemma switch_tag_Some: "switch_tag b = Some t \<longleftrightarrow> b = tag t"
  using switch_tagD switch_tag by metis

lemma tag_inj [simp]: "tag s = tag t \<longleftrightarrow> s = t"
  by (metis option.inject switch_tag)

declare tag.simps [simp del]

section \<open>Public value types (val.h)\<close>

datatype opoValType =
    OPO_VAL_NONE | OPO_VAL_NULL | OPO_VAL_BOOL | OPO_VAL_INT | OPO_VAL_STR
  | OPO_VAL_DEC | OPO_VAL_UUID | OPO_VAL_TIME | OPO_VAL_OBJ | OPO_VAL_ARRAY

section \<open>Abstract values\<close>

text \<open>
  One constructor per tag: the width an integer or a string was written with is part of the
  value on the wire.
\<close>

datatype wkey = WKey1 "byte list" | WKey2 "byte list"

datatype wire =
    WNull | WBool bool
  | WInt1 byte | WInt2 uint16 | WInt4 uint32 | WInt8 uint64
  | WStr1 "byte list" | WStr2 "byte list" | WStr4 "byte list"
  | WDec "byte list" | WUuid uint64 uint64 | WTime uint64
  | WObj "(wkey \<times> wire) list" | WArr "wire list"

fun key_bytes :: "wkey \<Rightarrow> byte list" where
  "key_bytes (WKey1 bs) = bs"
| "key_bytes (WKey2 bs) = bs"

fun enc_key :: "wkey \<Rightarrow> byte list" where
  "enc_key (WKey1 bs) = tag VAL_KEY1 # of_nat (length bs) # bs @ [0]"
| "enc_key (WKey2 bs) = tag VAL_KEY2 # be_bytes 2 (of_nat (length bs) :: uint16) @ bs @ [0]"

fun enc :: "wire \<Rightarrow> byte list"
  and enc_members :: "(wkey \<times> wire) list \<Rightarrow> byte list"
  and enc_elements :: "wire list \<Rightarrow> byte list" where
  "enc WNull = [tag VAL_NULL]"
| "enc (WBool b) = [tag (if b then VAL_TRUE else VAL_FALSE)]"
| "enc (WInt1 n) = [tag VAL_INT1, n]"
| "enc (WInt2 n) = tag VAL_INT2 # be_bytes 2 n"
| "enc (WInt4 n) = tag VAL_INT4 # be_bytes 4 n"
| "enc (WInt8 n) = tag VAL_INT8 # be_bytes 8 n"
| "enc (WStr1 bs) = tag VAL_STR1 # of_nat (length bs) # bs @ [0]"
| "enc (WStr2 bs) = tag VAL_STR2 # be_bytes 2 (of_nat (length bs) :: uint16) @ bs @ [0]"
| "enc (WStr4 bs) = tag VAL_STR4 # be_bytes 4 (of_nat (length bs) :: uint32) @ bs @ [0]"
| "enc (WDec bs) = tag VAL_DEC # of_nat (length bs) # bs"
| "enc (WUuid hi lo) = tag VAL_UUID # be_bytes 8 hi @ be_bytes 8 lo"
| "enc (WTime t) = tag VAL_TIME # be_bytes 8 t"
| "enc (WObj kvs) = tag VAL_OBJ # be_bytes 4 (of_nat (length (enc_members kvs)) :: uint32) @
     enc_members kvs"
| "enc (WArr ws) = tag VAL_ARRAY # be_bytes 4 (of_nat (length (enc_elements ws)) :: uint32) @
     enc_elements ws"
| "enc_members [] = []"
| "enc_members ((k, w) # kvs) = enc_key k @ enc w @ enc_members kvs"
| "enc_elements [] = []"
| "enc_elements (w # ws) = enc w @ enc_elements ws"

text \<open>A value whose lengths fit the width of their length fields.\<close>

fun wf_key :: "wkey \<Rightarrow> bool" where
  "wf_key (WKey1 bs) \<longleftrightarrow> length bs < 2 ^ 8"
| "wf_key (WKey2 bs) \<longleftrightarrow> length bs < 2 ^ 16"

fun wf_wire :: "wire \<Rightarrow> bool" where
  "wf_wire (WStr1 bs) \<longleftrightarrow> length bs < 2 ^ 8"
| "wf_wire (WStr2 bs) \<longleftrightarrow> length bs < 2 ^ 16"
| "wf_wire (WStr4 bs) \<longleftrightarrow> length bs < 2 ^ 32"
| "wf_wire (WDec bs) \<longleftrightarrow> length bs < 2 ^ 8"
| "wf_wire (WObj kvs) \<longleftrightarrow> length (enc_members kvs) < 2 ^ 32 \<and>
     (\<forall>(k, w) \<in> set kvs. wf_key k \<and> wf_wire w)"
| "wf_wire (WArr ws) \<longleftrightarrow> length (enc_elements ws) < 2 ^ 32 \<and> (\<forall>w \<in> set ws. wf_wire w)"
| "wf_wire _ \<longleftrightarrow> True"

text \<open>The public type of a value, and the size of its payload.\<close>

fun wire_type :: "wire \<Rightarrow> opoValType" where
  "wire_type WNull = OPO_VAL_NULL"
| "wire_type (WBool b) = OPO_VAL_BOOL"
| "wire_type (WInt1 n) = OPO_VAL_INT"
| "wire_type (WInt2 n) = OPO_VAL_INT"
| "wire_type (WInt4 n) = OPO_VAL_INT"
| "wire_type (WInt8 n) = OPO_VAL_INT"
| "wire_type (WStr1 bs) = OPO_VAL_STR"
| "wire_type (WStr2 bs) = OPO_VAL_STR"
| "wire_type (WStr4 bs) = OPO_VAL_STR"
| "wire_type (WDec bs) = OPO_VAL_DEC"
| "wire_type (WUuid hi lo) = OPO_VAL_UUID"
| "wire_type (WTime t) = OPO_VAL_TIME"
| "wire_type (WObj kvs) = OPO_VAL_OBJ"
| "wire_type (WArr ws) = OPO_VAL_ARRAY"

text \<open>The number an integer value stands for, whatever width it was written with.\<close>

fun wire_int :: "wire \<Rightarrow> int option" where
  "wire_int (WInt1 n) = Some (sint n)"
| "wire_int (WInt2 n) = Some (sint n)"
| "wire_int (WInt4 n) = Some (sint n)"
| "wire_int (WInt8 n) = Some (sint n)"
| "wire_int _ = None"

fun wire_bool :: "wire \<Rightarrow> bool option" where
  "wire_bool (WBool b) = Some b"
| "wire_bool _ = None"

fun wire_str :: "wire \<Rightarrow> byte list option" where
  "wire_str (WStr1 bs) = Some bs"
| "wire_str (WStr2 bs) = Some bs"
| "wire_str (WStr4 bs) = Some bs"
| "wire_str _ = None"

text \<open>How many containers are open around the deepest value\<close>

fun wire_depth :: "wire \<Rightarrow> nat"
  and members_depth :: "(wkey \<times> wire) list \<Rightarrow> nat"
  and elements_depth :: "wire list \<Rightarrow> nat" where
  "wire_depth (WObj kvs) = Suc (members_depth kvs)"
| "wire_depth (WArr ws) = Suc (elements_depth ws)"
| "wire_depth w = 0"
| "members_depth [] = 0"
| "members_depth ((k, w) # kvs) = max (wire_depth w) (members_depth kvs)"
| "elements_depth [] = 0"
| "elements_depth (w # ws) = max (wire_depth w) (elements_depth ws)"

section \<open>Lemmas\<close>

lemma enc_members_append: "enc_members (xs @ ys) = enc_members xs @ enc_members ys"
  by (induction xs) auto

lemma enc_elements_append: "enc_elements (xs @ ys) = enc_elements xs @ enc_elements ys"
  by (induction xs) auto

lemma enc_not_Nil [simp]: "enc w \<noteq> []"
  by (cases w) auto

lemma enc_key_not_Nil [simp]: "enc_key k \<noteq> []"
  by (cases k) auto

lemmas enc_not_Nil' [simp] = enc_not_Nil [symmetric] enc_key_not_Nil [symmetric]

lemma length_enc_pos: "1 \<le> length (enc w)"
  by (simp add: Suc_le_eq)

lemma length_enc_key_pos: "1 \<le> length (enc_key k)"
  by (simp add: Suc_le_eq)

lemma length_enc_key: "length (enc_key k) \<ge> 3 + length (key_bytes k)"
  by (cases k) auto

lemma length_enc_members: "length kvs \<le> length (enc_members kvs)"
proof (induction kvs)
  case (Cons kv kvs)
  obtain k w where "kv = (k, w)" by fastforce
  then show ?case using Cons length_enc_pos [of w] by simp
qed simp

lemma length_enc_elements: "length ws \<le> length (enc_elements ws)"
proof (induction ws)
  case (Cons w ws)
  then show ?case using length_enc_pos [of w] by simp
qed simp

lemma unat_u8_len [simp]: "n < 2 ^ 8 \<Longrightarrow> unat (of_nat n :: byte) = n"
  and unat_u16_len [simp]: "n < 2 ^ 16 \<Longrightarrow> unat (of_nat n :: uint16) = n"
  and unat_u32_len [simp]: "n < 2 ^ 32 \<Longrightarrow> unat (of_nat n :: uint32) = n"
  by (simp_all add: unat_of_nat_len)

text \<open>The case analysis the proofs about the readers use.\<close>

lemmas wf_wire_iffs [simp] = wf_wire.simps

end
