(* ===== verification/Err.thy ===== *)
theory Err imports Prelude begin

text \<open>
  The error component, \<^verbatim>\<open>err.h\<close> and \<^verbatim>\<open>err.c\<close>: the error codes, the \<open>opoErr\<close> struct and its
  operations.  The 256 bytes of \<open>msg\<close> (field \<open>emsg\<close>, beside \<open>ecode\<close>) are kept as an array, so that a store past its end is
  visible (\<open>None\<close>).  A variadic call passes the text its format expands to.
\<close>

section \<open>Error codes (err.h)\<close>

text \<open>
  The codes are C integers.  \<open>ENOMEM\<close>, \<open>EACCES\<close> and \<open>ENOSYS\<close> have their Linux values, and
  \<open>ELAST\<close> is not defined there, so \<^verbatim>\<open>err.h\<close> sets it to 160.
\<close>

definition ELAST :: int where "ELAST = 160"

definition OPO_ERR_OK :: int where "OPO_ERR_OK = 0"
definition OPO_ERR_MEMORY :: int where "OPO_ERR_MEMORY = 12"
definition OPO_ERR_DENIED :: int where "OPO_ERR_DENIED = 13"
definition OPO_ERR_IMPL :: int where "OPO_ERR_IMPL = 38"
definition OPO_ERR_PARSE :: int where "OPO_ERR_PARSE = ELAST + 1"
definition OPO_ERR_READ :: int where "OPO_ERR_READ = ELAST + 2"
definition OPO_ERR_WRITE :: int where "OPO_ERR_WRITE = ELAST + 3"
definition OPO_ERR_OVERFLOW :: int where "OPO_ERR_OVERFLOW = ELAST + 4"
definition OPO_ERR_ARG :: int where "OPO_ERR_ARG = ELAST + 5"
definition OPO_ERR_NOT_FOUND :: int where "OPO_ERR_NOT_FOUND = ELAST + 6"
definition OPO_ERR_THREAD :: int where "OPO_ERR_THREAD = ELAST + 7"
definition OPO_ERR_NETWORK :: int where "OPO_ERR_NETWORK = ELAST + 8"
definition OPO_ERR_LOCK :: int where "OPO_ERR_LOCK = ELAST + 9"
definition OPO_ERR_FREE :: int where "OPO_ERR_FREE = ELAST + 10"
definition OPO_ERR_IN_USE :: int where "OPO_ERR_IN_USE = ELAST + 11"
definition OPO_ERR_TOO_MANY :: int where "OPO_ERR_TOO_MANY = ELAST + 12"
definition OPO_ERR_TYPE :: int where "OPO_ERR_TYPE = ELAST + 13"
definition OPO_ERR_LOST :: int where "OPO_ERR_LOST = ELAST + 14"

lemmas opo_err_codes =
  ELAST_def OPO_ERR_OK_def OPO_ERR_MEMORY_def OPO_ERR_DENIED_def OPO_ERR_IMPL_def
  OPO_ERR_PARSE_def OPO_ERR_READ_def OPO_ERR_WRITE_def OPO_ERR_OVERFLOW_def OPO_ERR_ARG_def
  OPO_ERR_NOT_FOUND_def OPO_ERR_THREAD_def OPO_ERR_NETWORK_def OPO_ERR_LOCK_def
  OPO_ERR_FREE_def OPO_ERR_IN_USE_def OPO_ERR_TOO_MANY_def OPO_ERR_TYPE_def OPO_ERR_LOST_def

section \<open>The error struct\<close>

definition MSG_SIZE :: nat where "MSG_SIZE = 256"

record opoErr =
  ecode :: int
  emsg :: string

definition wf_err :: "opoErr \<Rightarrow> bool" where
  "wf_err err \<longleftrightarrow> length (emsg err) = MSG_SIZE"

definition OPO_ERR_INIT :: opoErr where
  "OPO_ERR_INIT = \<lparr>ecode = 0, emsg = replicate MSG_SIZE (CHR 0x00)\<rparr>"

text \<open>
  The C string at the start of an array: what precedes the first null.
\<close>

definition c_string :: "string \<Rightarrow> string" where
  "c_string s = takeWhile (\<lambda>c. c \<noteq> CHR 0x00) s"

text \<open>
  \<open>vsnprintf(buf, size, ...)\<close> with the text \<open>s\<close>: at most \<open>size - 1\<close> characters and a null,
  the rest of the array as it was.  It returns the length of the whole text, or -1 when that is
  no \<open>int\<close>.
\<close>

definition vsnprintf :: "string \<Rightarrow> string \<Rightarrow> string \<times> int" where
  "vsnprintf buf s =
     (let t = take (length buf - 1) s @ [CHR 0x00]
      in (t @ drop (length t) buf, if length s < 2 ^ 31 then int (length s) else - 1))"

section \<open>Operations (err.c)\<close>

definition opo_err_set :: "opoErr \<Rightarrow> int \<Rightarrow> string \<Rightarrow> opoErr \<times> int" where
  "opo_err_set err c s =
     (let err = err\<lparr>emsg := fst (vsnprintf (emsg err) s)\<rparr>;
          err = err\<lparr>ecode := c\<rparr>
      in (err, ecode err))"

text \<open>
  The error state after \<open>opo_err_set\<close>, for the callers that ignore its result.
\<close>

definition err_set :: "opoErr \<Rightarrow> int \<Rightarrow> string \<Rightarrow> opoErr" where
  "err_set err c s = fst (opo_err_set err c s)"

text \<open>
  \<open>strncpy(dst, src, n)\<close> into the array at offset \<open>d\<close>: the source up to its null, padded with
  nulls to \<open>n\<close> characters.
\<close>

definition strncpy :: "string \<Rightarrow> nat \<Rightarrow> string \<Rightarrow> nat \<Rightarrow> string option" where
  "strncpy buf d s n =
     (if d + n \<le> length buf
      then Some (take d buf @ take n (s @ replicate n (CHR 0x00)) @ drop (d + n) buf) else None)"

definition set_char :: "string \<Rightarrow> nat \<Rightarrow> char \<Rightarrow> string option" where
  "set_char buf i c = (if i < length buf then Some (buf[i := c]) else None)"

text \<open>
  \<open>opo_err_no\<close>: \<open>fmt\<close> is \<open>None\<close> for a NULL format and the expanded text otherwise,
  \<open>strerror\<close> the libc table and \<open>errno\<close> the thread's error number.  The guard compares the
  int \<open>cnt\<close> with the unsigned \<open>sizeof(err->msg) + 2\<close>, and \<open>sizeof(err->msg) - cnt\<close> is an
  unsigned 64-bit difference.
\<close>

definition opo_err_no ::
    "(int \<Rightarrow> string) \<Rightarrow> int \<Rightarrow> opoErr \<Rightarrow> string option \<Rightarrow> (opoErr \<times> int) option" where
  "opo_err_no strerror errno err fmt = do {
     let (buf, cnt) = (case fmt of None \<Rightarrow> (emsg err, 0) | Some s \<Rightarrow> vsnprintf (emsg err) s);
     buf \<leftarrow> (if uint (word_of_int cnt :: uint64) < int MSG_SIZE + 2 \<and> 0 \<le> cnt
            then do {
              buf \<leftarrow> set_char buf (nat cnt) (CHR '' '');
              let cnt = cnt + 1;
              buf \<leftarrow> strncpy buf (nat cnt) (strerror errno)
                      (unat (of_nat MSG_SIZE - word_of_int cnt :: uint64));
              set_char buf (MSG_SIZE - 1) (CHR 0x00)
            }
            else Some buf);
     let err = err\<lparr>emsg := buf, ecode := errno\<rparr>;
     Some (err, ecode err)
   }"

definition opo_err_clear :: "opoErr \<Rightarrow> opoErr" where
  "opo_err_clear err = (let err = err\<lparr>ecode := OPO_ERR_OK\<rparr> in err\<lparr>emsg := (emsg err)[0 := CHR 0x00]\<rparr>)"

text \<open>The table of \<open>opo_err_str\<close>; \<open>strerror\<close> returns no NULL for any code on Linux.\<close>

definition opo_err_str :: "(int \<Rightarrow> string option) \<Rightarrow> int \<Rightarrow> string" where
  "opo_err_str strerror c =
     (let str = (if c \<le> ELAST then strerror c else None)
      in case str of Some s \<Rightarrow> s
         | None \<Rightarrow>
             if c = OPO_ERR_PARSE then ''parse error''
             else if c = OPO_ERR_READ then ''read failed''
             else if c = OPO_ERR_WRITE then ''write failed''
             else if c = OPO_ERR_ARG then ''invalid argument''
             else if c = OPO_ERR_NOT_FOUND then ''not found''
             else if c = OPO_ERR_THREAD then ''thread error''
             else if c = OPO_ERR_NETWORK then ''network error''
             else if c = OPO_ERR_LOCK then ''lock error''
             else if c = OPO_ERR_FREE then ''already freed''
             else if c = OPO_ERR_IN_USE then ''in use''
             else if c = OPO_ERR_TOO_MANY then ''too many''
             else if c = OPO_ERR_TYPE then ''type error''
             else ''unknown error'')"

section \<open>Lemmas\<close>

lemma length_vsnprintf: "length buf \<noteq> 0 \<Longrightarrow> length (fst (vsnprintf buf s)) = length buf"
  by (cases buf) (auto simp: vsnprintf_def Let_def)

lemma snd_vsnprintf [simp]:
  "length s < 2 ^ 31 \<Longrightarrow> snd (vsnprintf buf s) = int (length s)"
  by (simp add: vsnprintf_def Let_def)

lemma opo_err_set_err_set: "opo_err_set err c s = (err_set err c s, c)"
  by (simp add: err_set_def opo_err_set_def Let_def)

lemma code_err_set [simp]: "ecode (err_set err c s) = c"
  by (simp add: err_set_def opo_err_set_def Let_def)

lemma wf_err_set [simp]: "wf_err err \<Longrightarrow> wf_err (err_set err c s)"
  by (simp add: wf_err_def err_set_def opo_err_set_def Let_def MSG_SIZE_def length_vsnprintf)

lemma wf_err_init [simp]: "wf_err OPO_ERR_INIT"
  by (simp add: wf_err_def OPO_ERR_INIT_def)

lemma code_err_init [simp]: "ecode OPO_ERR_INIT = OPO_ERR_OK"
  by (simp add: OPO_ERR_INIT_def OPO_ERR_OK_def)

lemma c_string_take:
  "CHR 0x00 \<notin> set s \<Longrightarrow> c_string (s @ CHR 0x00 # t) = s"
  by (simp add: c_string_def takeWhile_append)

lemma vsnprintf_exact:
  assumes "length buf = MSG_SIZE"
  shows "fst (vsnprintf buf s) =
    take 255 s @ CHR 0x00 # drop (Suc (min 255 (length s))) buf"
  using assms by (simp add: vsnprintf_def Let_def MSG_SIZE_def min.commute)

text \<open>The last character is a null, so the message ends at the first null of what precedes.\<close>

lemma c_string_padded:
  assumes "CHR 0x00 \<notin> set s"
  shows "c_string (take n (s @ replicate k (CHR 0x00)) @ CHR 0x00 # t) = take n s"
proof -
  have s: "CHR 0x00 \<notin> set (take n s)" using assms by (auto dest: in_set_takeD)
  have "take n (s @ replicate k (CHR 0x00)) = take n s @ replicate (min (n - length s) k) (CHR 0x00)"
    by simp
  then show ?thesis using c_string_take [OF s]
    by (cases "min (n - length s) k") simp_all
qed

lemma take_Cons_take: "take n (x # take n xs) = take n (x # xs)"
  by (cases n) simp_all

lemma set_last_char:
  "length xs = 256 \<Longrightarrow> set_char xs 255 c = Some (take 255 xs @ [c])"
  by (simp add: set_char_def list_update_append upd_conv_take_nth_drop)

lemma guard_len:
  "n < 2 ^ 31 \<Longrightarrow> uint (word_of_int (int n) :: uint64) < 258 \<and> 0 \<le> int n \<longleftrightarrow> n < 258"
  by (simp add: unsigned_of_nat take_bit_nat_eq_self)

lemma sub_len:
  assumes "n \<le> 255"
  shows "unat (256 - word_of_int (int n + 1) :: uint64) = 255 - n"
proof -
  have "word_of_int (int n + 1) = (of_nat (Suc n) :: uint64)" by simp
  moreover have "(256 :: uint64) = of_nat 256" by simp
  ultimately have "256 - word_of_int (int n + 1) = (of_nat (256 - Suc n) :: uint64)"
    using assms by (simp only: of_nat_diff [symmetric] Suc_le_eq)
  then show ?thesis using assms
    by (simp only:) (simp add: unsigned_of_nat take_bit_nat_eq_self del: of_nat_diff)
qed

section \<open>Properties\<close>

text \<open>
  C30: \<open>opo_err_set\<close> stores the code, returns it, and leaves the text, cut to 255 characters and
  terminated, in the message array, which keeps its size.
\<close>

theorem err_set_correct:
  assumes "wf_err err" and "CHR 0x00 \<notin> set s"
  shows "opo_err_set err c s = (err_set err c s, c) \<and> ecode (err_set err c s) = c \<and>
    c_string (emsg (err_set err c s)) = take 255 s \<and> wf_err (err_set err c s)"
proof -
  have "emsg (err_set err c s) = fst (vsnprintf (emsg err) s)"
    by (simp add: err_set_def opo_err_set_def Let_def)
  also have "\<dots> = take 255 s @ CHR 0x00 # drop (Suc (min 255 (length s))) (emsg err)"
    using assms(1) by (simp add: wf_err_def vsnprintf_exact)
  finally show ?thesis
    using assms c_string_take [of "take 255 s"] by (auto simp: opo_err_set_err_set dest: in_set_takeD)
qed

theorem err_set_correct_witness:
  "c_string (emsg (err_set OPO_ERR_INIT OPO_ERR_ARG ''no'')) = ''no''"
  using err_set_correct [of OPO_ERR_INIT "''no''" OPO_ERR_ARG] by simp

text \<open>What \<open>vsnprintf\<close> leaves in the message array.\<close>

definition printed :: "opoErr \<Rightarrow> string \<Rightarrow> string" where
  "printed err s = take 255 s @ CHR 0x00 # drop (Suc (min 255 (length s))) (emsg err)"

lemma printed:
  assumes "wf_err err" and "length s < 2 ^ 31"
  shows "vsnprintf (emsg err) s = (printed err s, int (length s)) \<and> length (printed err s) = 256"
  using assms(1) vsnprintf_exact [of "emsg err" s] snd_vsnprintf [OF assms(2), of "emsg err"]
  by (simp add: wf_err_def printed_def MSG_SIZE_def prod_eq_iff)

lemma err_no_printed:
  assumes "wf_err err" and "length s < 2 ^ 31"
  shows "opo_err_no strerror errno err (Some s) =
      (if length s < 258 then do {
         buf \<leftarrow> set_char (printed err s) (length s) (CHR '' '');
         buf \<leftarrow> strncpy buf (length s + 1) (strerror errno)
           (unat (of_nat MSG_SIZE - word_of_int (int (length s) + 1) :: uint64));
         buf \<leftarrow> set_char buf 255 (CHR 0x00);
         Some (err\<lparr>emsg := buf, ecode := errno\<rparr>, errno) }
       else Some (err\<lparr>emsg := printed err s, ecode := errno\<rparr>, errno))"
  using guard_len [OF assms(2)] printed [OF assms]
  by (simp add: opo_err_no_def MSG_SIZE_def nat_add_distrib)

text \<open>A formatted text that fits, and the system's text behind it.\<close>

lemma err_no_short:
  fixes strerror :: "int \<Rightarrow> string" and errno :: int
  assumes e: "wf_err err" and l: "length s \<le> 255"
  defines "xs \<equiv> take 255 ((s @ '' '' @ strerror errno) @ replicate (255 - length s) (CHR 0x00))"
  shows "opo_err_no strerror errno err (Some s) = Some (err\<lparr>emsg := xs @ [CHR 0x00], ecode := errno\<rparr>, errno) \<and>
    length xs = 255"
proof -
  define n where "n = 255 - length s"
  have sub: "unat (of_nat MSG_SIZE - word_of_int (int (length s) + 1) :: uint64) = n"
    using sub_len [OF l] by (simp add: n_def MSG_SIZE_def)
  define ys where "ys = s @ '' '' @ take n (strerror errno @ replicate n (CHR 0x00))"
  have len: "length (emsg err) = 256" using e by (simp add: wf_err_def MSG_SIZE_def)
  have ys: "length ys = 256" using l by (simp add: ys_def n_def)
  have "(printed err s)[length s := CHR '' ''] = s @ CHR '' '' # drop (Suc (length s)) (emsg err)"
    using l by (simp add: printed_def min_def list_update_append)
  then have st: "set_char (printed err s) (length s) (CHR '' '') =
      Some (s @ CHR '' '' # drop (Suc (length s)) (emsg err))"
    using l printed [OF e, of s] by (simp add: set_char_def)
  have cp: "strncpy (s @ CHR '' '' # drop (Suc (length s)) (emsg err)) (length s + 1) (strerror errno) n = Some ys"
    using l len by (simp add: strncpy_def ys_def n_def)
  have "length s < 2 ^ 31" using l by simp
  from err_no_printed [OF e this] have "opo_err_no strerror errno err (Some s) =
      Some (err\<lparr>emsg := take 255 ys @ [CHR 0x00], ecode := errno\<rparr>, errno)"
    using l unfolding sub st by (simp add: cp [simplified] set_last_char [OF ys])
  moreover have x: "take 255 ys = xs"
    using l take_Cons_take [of n "CHR '' ''" "strerror errno @ replicate n (CHR 0x00)"]
    by (simp add: xs_def ys_def n_def take_append [of 255 s] del: take_append)
  moreover have "length xs = 255" unfolding x [symmetric] using ys by simp
  ultimately show ?thesis by (simp only: simp_thms)
qed

text \<open>
  C31: \<open>opo_err_no\<close> appends a blank and the system's text to the formatted text, cut to 255
  characters, and stores and returns the error number; but a formatted text of 256 or 257
  characters passes its guard and is stored past the end of the message array.
\<close>

theorem err_no_correct:
  assumes "wf_err err" and "CHR 0x00 \<notin> set s" and "CHR 0x00 \<notin> set (strerror errno)"
    and "length s < 2 ^ 31"
  shows "case opo_err_no strerror errno err (Some s) of
      None \<Rightarrow> length s = 256 \<or> length s = 257
    | Some (err', c) \<Rightarrow> length s \<noteq> 256 \<and> length s \<noteq> 257 \<and> c = errno \<and> ecode err' = errno \<and>
        wf_err err' \<and> c_string (emsg err') = take 255 (s @ '' '' @ strerror errno)"
proof -
  note no = err_no_printed [OF assms(1,4)]
  consider "length s \<le> 255" | "length s = 256 \<or> length s = 257" | "258 \<le> length s"
    by linarith
  then show ?thesis
  proof cases
    case 1
    from err_no_short [OF assms(1) 1, of strerror errno] show ?thesis
      using 1 c_string_padded [of "s @ '' '' @ strerror errno" 255 "255 - length s" "[]"] assms(2,3)
      by (simp add: wf_err_def MSG_SIZE_def)
  next
    case 2
    then show ?thesis using no printed [OF assms(1,4)] by (auto simp: set_char_def)
  next
    case 3
    then have "take 255 (s @ '' '' @ strerror errno) = take 255 s" by simp
    with 3 no assms printed [OF assms(1,4)] show ?thesis
      using c_string_take [of "take 255 s"]
      by (auto simp: wf_err_def MSG_SIZE_def printed_def dest: in_set_takeD)
  qed
qed

theorem err_no_correct_witness:
  "opo_err_no (\<lambda>_. ''Bad'') 9 OPO_ERR_INIT (Some (replicate 256 (CHR ''x''))) = None"
  using err_no_correct [of OPO_ERR_INIT "replicate 256 (CHR ''x'')" "\<lambda>_. ''Bad''" 9]
  by (simp split: option.splits)

text \<open>
  \<open>opo_err_str\<close> has a text for every code of its own but \<open>OPO_ERR_OVERFLOW\<close> and
  \<open>OPO_ERR_LOST\<close>, which it reports as unknown like the numbers past the last code.
\<close>

theorem err_str_unknown:
  "ELAST < c \<Longrightarrow> opo_err_str strerror c = ''unknown error'' \<longleftrightarrow>
     c = OPO_ERR_OVERFLOW \<or> c = OPO_ERR_LOST \<or> OPO_ERR_LOST < c"
  by (simp add: opo_err_str_def opo_err_codes) presburger

theorem err_str_unknown_witness:
  "opo_err_str (\<lambda>_. None) OPO_ERR_LOST = ''unknown error''"
  using err_str_unknown [of OPO_ERR_LOST "\<lambda>_. None"] by (simp add: opo_err_codes)

end
