(* ===== verification/LibC.thy ===== *)
theory LibC imports Prelude begin

text \<open>
  The C library functions the sources call, on null-terminated byte strings: \<open>strlen\<close>,
  \<open>strncmp\<close>, \<open>strtol\<close> in base ten and the integer conversions of \<open>sprintf\<close>.  A string argument
  is the object its pointer points into, from the pointer on; running off its end is \<open>None\<close>.
\<close>

type_synonym cstr = "byte list"

section \<open>strlen, strncmp\<close>

fun strlen :: "cstr \<Rightarrow> nat option" where
  "strlen [] = None"
| "strlen (c # cs) = (if c = 0 then Some 0 else map_option Suc (strlen cs))"

text \<open>\<open>0 == strncmp(s, t, n)\<close>\<close>

fun strncmp_eq :: "cstr \<Rightarrow> cstr \<Rightarrow> nat \<Rightarrow> bool option" where
  "strncmp_eq s t 0 = Some True"
| "strncmp_eq (x # xs) (y # ys) (Suc n) =
     (if x \<noteq> y then Some False else if x = 0 then Some True else strncmp_eq xs ys n)"
| "strncmp_eq s t (Suc n) = None"

lemma strlen_append: "0 \<notin> set s \<Longrightarrow> strlen (s @ 0 # t) = Some (length s)"
  by (induction s) auto

lemma strncmp_eq_take:
  "0 \<notin> set ys \<Longrightarrow> length xs = length ys \<Longrightarrow>
   strncmp_eq (xs @ s) (ys @ t) (length ys) = Some (xs = ys)"
  by (induction xs ys rule: list_induct2') auto

section \<open>strtol\<close>

definition is_digit :: "byte \<Rightarrow> bool" where
  "is_digit c \<longleftrightarrow> 0x30 \<le> c \<and> c \<le> 0x39"

definition is_space :: "byte \<Rightarrow> bool" where
  "is_space c \<longleftrightarrow> c = 0x20 \<or> (0x09 \<le> c \<and> c \<le> 0x0D)"

fun skip_space :: "cstr \<Rightarrow> nat option" where
  "skip_space [] = None"
| "skip_space (c # cs) = (if is_space c then map_option Suc (skip_space cs) else Some 0)"

fun strtol_digits :: "cstr \<Rightarrow> int \<Rightarrow> nat \<Rightarrow> (int \<times> nat) option" where
  "strtol_digits [] v n = None"
| "strtol_digits (c # cs) v n =
     (if is_digit c then strtol_digits cs (v * 10 + (uint c - 0x30)) (Suc n) else Some (v, n))"

definition clamp_long :: "int \<Rightarrow> int" where
  "clamp_long i = max (- (2 ^ 63)) (min (2 ^ 63 - 1) i)"

text \<open>\<open>strtol(s, &iend, 10)\<close>: the value and the offset \<open>iend - s\<close>.\<close>

definition strtol10 :: "cstr \<Rightarrow> (int \<times> nat) option" where
  "strtol10 s = do {
     w \<leftarrow> skip_space s;
     c \<leftarrow> rd s w;
     let sg = (if c = 0x2D \<or> c = 0x2B then 1 else 0);
     (v, n) \<leftarrow> strtol_digits (drop (w + sg) s) 0 0;
     if n = 0 then Some (0, 0)
     else Some (clamp_long (if c = 0x2D then - v else v), w + sg + n)
   }"

text \<open>Only what precedes the first character that ends a number matters.\<close>

definition ends_number :: "byte \<Rightarrow> bool" where
  "ends_number d \<longleftrightarrow> \<not> is_digit d \<and> \<not> is_space d \<and> d \<noteq> 0x2D \<and> d \<noteq> 0x2B"

lemma skip_space_end:
  "ends_number d \<Longrightarrow> ends_number e \<Longrightarrow> skip_space (c @ d # s) = skip_space (c @ e # t)"
  by (induction c) (auto simp: ends_number_def)

lemma skip_space_le: "skip_space (c @ d # t) = Some w \<Longrightarrow> ends_number d \<Longrightarrow> w \<le> length c"
  by (induction c arbitrary: w) (auto simp: ends_number_def split: if_splits)

lemma strtol_digits_end:
  "ends_number d \<Longrightarrow> ends_number e \<Longrightarrow>
   strtol_digits (c @ d # s) v n = strtol_digits (c @ e # t) v n"
  by (induction c arbitrary: v n) (auto simp: ends_number_def)

lemma strtol10_end:
  assumes d: "ends_number d" and e: "ends_number e"
  shows "strtol10 (c @ d # s) = strtol10 (c @ e # t)"
proof (cases "skip_space (c @ d # s)")
  case None
  moreover from None have "skip_space (c @ e # t) = None"
    using skip_space_end [OF d e, of c s t] by simp
  ultimately show ?thesis by (simp add: strtol10_def)
next
  case (Some w)
  then have w: "w \<le> length c" using d by (rule skip_space_le)
  from Some have Some': "skip_space (c @ e # t) = Some w"
    using skip_space_end [OF d e, of c s t] by simp
  show ?thesis
  proof (cases "w < length c")
    case True
    define sg where "sg = (if c ! w = 0x2D \<or> c ! w = 0x2B then 1 else 0 :: nat)"
    have le: "w + sg \<le> length c" using True by (simp add: sg_def)
    have "strtol_digits (drop (w + sg) (c @ d # s)) 0 0 =
        strtol_digits (drop (w + sg) (c @ e # t)) 0 0"
      using True strtol_digits_end [OF d e, of "drop (w + sg) c" s 0 0 t]
      by (simp add: le)
    then show ?thesis
      using Some Some' True le by (simp add: strtol10_def rd_def nth_append flip: sg_def)
  next
    case False
    with w have "w = length c" by simp
    with Some Some' d e show ?thesis by (simp add: strtol10_def rd_def ends_number_def)
  qed
qed

lemma skip_space_Some: "ends_number d \<Longrightarrow> skip_space (c @ d # t) \<noteq> None"
  by (induction c) (auto simp: ends_number_def)

lemma strtol_digits_Some: "ends_number d \<Longrightarrow> strtol_digits (c @ d # t) v n \<noteq> None"
  by (induction c arbitrary: v n) (auto simp: ends_number_def)

text \<open>On a terminated string \<open>strtol\<close> stays inside it.\<close>

lemma strtol10_Some:
  assumes d: "ends_number d"
  shows "\<exists>i n. strtol10 (c @ d # t) = Some (i, n)"
proof -
  obtain w where w: "skip_space (c @ d # t) = Some w"
    using skip_space_Some [OF d, of c t] by auto
  then have "w \<le> length c" using d by (rule skip_space_le)
  define x where "x = (c @ d # t) ! w"
  define sg where "sg = (if x = 0x2D \<or> x = 0x2B then 1 else 0 :: nat)"
  have rd: "rd (c @ d # t) w = Some x" using \<open>w \<le> length c\<close> by (simp add: rd_def x_def)
  have "w + sg \<le> length c"
    using \<open>w \<le> length c\<close> d by (cases "w = length c") (auto simp: sg_def x_def ends_number_def)
  then have "strtol_digits (drop (w + sg) (c @ d # t)) 0 0 \<noteq> None"
    using strtol_digits_Some [OF d, of "drop (w + sg) c" t 0 0] by simp
  then obtain v n where "strtol_digits (drop (w + sg) (c @ d # t)) 0 0 = Some (v, n)"
    by auto
  with w rd show ?thesis by (simp add: strtol10_def flip: sg_def)
qed

section \<open>sprintf\<close>

definition digit_char :: "nat \<Rightarrow> byte" where
  "digit_char d = (if d < 10 then 0x30 + of_nat d else 0x61 + of_nat (d - 10))"

fun text_base :: "nat \<Rightarrow> nat \<Rightarrow> cstr" where
  "text_base b n =
     (if b < 2 \<or> n < b then [digit_char n] else text_base b (n div b) @ [digit_char (n mod b)])"

declare text_base.simps [simp del]

text \<open>The conversions \<open>%0<w>lx\<close> (base 16) and \<open>%0<w>d\<close> (base 10) of a number that is not negative.\<close>

definition fmt_pad :: "nat \<Rightarrow> nat \<Rightarrow> nat \<Rightarrow> cstr" where
  "fmt_pad b w n = (let s = text_base b n in replicate (w - length s) 0x30 @ s)"

text \<open>Exactly \<open>w\<close> digits: what the conversion prints when the number fits the width.\<close>

primrec digits_exact :: "nat \<Rightarrow> nat \<Rightarrow> nat \<Rightarrow> cstr" where
  "digits_exact b 0 n = []"
| "digits_exact b (Suc w) n = digit_char (n div b ^ w mod b) # digits_exact b w n"

lemma length_digits_exact [simp]: "length (digits_exact b w n) = w"
  by (induction w) simp_all

lemma digits_exact_snoc:
  "digits_exact b (Suc w) n = digits_exact b w (n div b) @ [digit_char (n mod b)]"
  by (induction w) (simp_all add: div_mult2_eq)

lemma digits_exact_zero: "digits_exact b w 0 = replicate w 0x30"
  by (induction w) (simp_all add: digit_char_def)

lemma fmt_pad_exact: "2 \<le> b \<Longrightarrow> 0 < w \<Longrightarrow> n < b ^ w \<Longrightarrow> fmt_pad b w n = digits_exact b w n"
proof (induction w arbitrary: n)
  case (Suc w)
  show ?case
  proof (cases "n < b")
    case True
    then have "text_base b n = [digit_char n]" by (simp add: text_base.simps)
    moreover have "digits_exact b (Suc w) n = replicate w 0x30 @ [digit_char n]"
      using True by (simp only: digits_exact_snoc) (simp add: digits_exact_zero)
    ultimately show ?thesis by (simp add: fmt_pad_def)
  next
    case False
    with Suc.prems have w: "0 < w" by (cases w) auto
    from Suc.prems have "n div b < b ^ w" by (simp add: less_mult_imp_div_less mult.commute)
    with Suc w have "fmt_pad b w (n div b) = digits_exact b w (n div b)" by simp
    moreover have "text_base b n = text_base b (n div b) @ [digit_char (n mod b)]"
      using False Suc.prems(1) by (subst text_base.simps) simp
    ultimately show ?thesis
      by (simp only: digits_exact_snoc) (simp add: fmt_pad_def Let_def)
  qed
qed simp

end
