(* ===== verification/Val.thy ===== *)
theory Val imports Wire Err LibC begin

text \<open>
  The reader of encoded values, \<^verbatim>\<open>val.c\<close>: sizes, types and the scalar accessors.  A value is a
  pointer into the message \<open>m\<close> (\<open>None\<close> for NULL).  \<^verbatim>\<open>Members\<close> holds the traversal of objects
  and arrays, \<^verbatim>\<open>Iterate\<close> the callback iteration.
\<close>

type_synonym double = "64 word"

section \<open>Sizes and types\<close>

definition opo_val_bsize :: "mem \<Rightarrow> ptr option \<Rightarrow> nat option" where
  "opo_val_bsize m val =
     (case val of None \<Rightarrow> Some 0
      | Some v \<Rightarrow> do {
          t \<leftarrow> rd m v;
          case switch_tag t of
            Some VAL_NULL \<Rightarrow> Some 1
          | Some VAL_TRUE \<Rightarrow> Some 1
          | Some VAL_FALSE \<Rightarrow> Some 1
          | Some VAL_INT1 \<Rightarrow> Some 2
          | Some VAL_INT2 \<Rightarrow> Some 3
          | Some VAL_INT4 \<Rightarrow> Some 5
          | Some VAL_INT8 \<Rightarrow> Some 9
          | Some VAL_STR1 \<Rightarrow> do { len \<leftarrow> rd m (v + 1); Some (3 + unat len) }
          | Some VAL_STR2 \<Rightarrow> do { (_, num) \<leftarrow> read_uint16 m (v + 1); Some (4 + unat num) }
          | Some VAL_STR4 \<Rightarrow> do { (_, num) \<leftarrow> read_uint32 m (v + 1); Some (6 + unat num) }
          | Some VAL_KEY1 \<Rightarrow> do { len \<leftarrow> rd m (v + 1); Some (3 + unat len) }
          | Some VAL_KEY2 \<Rightarrow> do { (_, num) \<leftarrow> read_uint16 m (v + 1); Some (4 + unat num) }
          | Some VAL_DEC \<Rightarrow> do { len \<leftarrow> rd m (v + 1); Some (2 + unat len) }
          | Some VAL_UUID \<Rightarrow> Some 17
          | Some VAL_TIME \<Rightarrow> Some 9
          | Some VAL_OBJ \<Rightarrow> do { (_, num) \<leftarrow> read_uint32 m (v + 1); Some (unat num + 5) }
          | Some VAL_ARRAY \<Rightarrow> do { (_, num) \<leftarrow> read_uint32 m (v + 1); Some (unat num + 5) }
          | None \<Rightarrow> Some 0
        })"

definition opo_val_size :: "mem \<Rightarrow> ptr option \<Rightarrow> nat option" where
  "opo_val_size m val =
     (case val of None \<Rightarrow> Some 0
      | Some v \<Rightarrow> do {
          t \<leftarrow> rd m v;
          case switch_tag t of
            Some VAL_INT1 \<Rightarrow> Some 1
          | Some VAL_INT2 \<Rightarrow> Some 2
          | Some VAL_INT4 \<Rightarrow> Some 4
          | Some VAL_INT8 \<Rightarrow> Some 8
          | Some VAL_STR1 \<Rightarrow> do { len \<leftarrow> rd m (v + 1); Some (unat len) }
          | Some VAL_STR2 \<Rightarrow> do { (_, num) \<leftarrow> read_uint16 m (v + 1); Some (unat num) }
          | Some VAL_STR4 \<Rightarrow> do { (_, num) \<leftarrow> read_uint32 m (v + 1); Some (unat num) }
          | Some VAL_KEY1 \<Rightarrow> do { len \<leftarrow> rd m (v + 1); Some (unat len) }
          | Some VAL_KEY2 \<Rightarrow> do { (_, num) \<leftarrow> read_uint16 m (v + 1); Some (unat num) }
          | Some VAL_DEC \<Rightarrow> do { len \<leftarrow> rd m (v + 1); Some (unat len) }
          | Some VAL_UUID \<Rightarrow> Some 16
          | Some VAL_TIME \<Rightarrow> Some 8
          | _ \<Rightarrow> Some 0
        })"

definition opo_val_type :: "mem \<Rightarrow> ptr option \<Rightarrow> opoValType option" where
  "opo_val_type m val =
     (case val of None \<Rightarrow> Some OPO_VAL_NONE
      | Some v \<Rightarrow> do {
          t \<leftarrow> rd m v;
          Some (case switch_tag t of
            Some VAL_NULL \<Rightarrow> OPO_VAL_NULL
          | Some VAL_TRUE \<Rightarrow> OPO_VAL_BOOL
          | Some VAL_FALSE \<Rightarrow> OPO_VAL_BOOL
          | Some VAL_INT1 \<Rightarrow> OPO_VAL_INT
          | Some VAL_INT2 \<Rightarrow> OPO_VAL_INT
          | Some VAL_INT4 \<Rightarrow> OPO_VAL_INT
          | Some VAL_INT8 \<Rightarrow> OPO_VAL_INT
          | Some VAL_STR1 \<Rightarrow> OPO_VAL_STR
          | Some VAL_STR2 \<Rightarrow> OPO_VAL_STR
          | Some VAL_STR4 \<Rightarrow> OPO_VAL_STR
          | Some VAL_DEC \<Rightarrow> OPO_VAL_DEC
          | Some VAL_UUID \<Rightarrow> OPO_VAL_UUID
          | Some VAL_TIME \<Rightarrow> OPO_VAL_TIME
          | Some VAL_OBJ \<Rightarrow> OPO_VAL_OBJ
          | Some VAL_ARRAY \<Rightarrow> OPO_VAL_ARRAY
          | _ \<Rightarrow> OPO_VAL_NONE)
        })"

section \<open>Scalar accessors\<close>

definition opo_val_bool :: "opoErr \<Rightarrow> mem \<Rightarrow> ptr option \<Rightarrow> (opoErr \<times> bool) option" where
  "opo_val_bool err m val =
     (case val of
        None \<Rightarrow> Some (err_set err OPO_ERR_TYPE ''NULL is not an boolean value'', False)
      | Some v \<Rightarrow> do {
          t \<leftarrow> rd m v;
          case switch_tag t of
            Some VAL_TRUE \<Rightarrow> Some (err, True)
          | Some VAL_FALSE \<Rightarrow> Some (err, False)
          | _ \<Rightarrow> Some (err_set err OPO_ERR_TYPE ''not a boolean value'', False)
        })"

definition opo_val_int :: "opoErr \<Rightarrow> mem \<Rightarrow> ptr option \<Rightarrow> (opoErr \<times> int64) option" where
  "opo_val_int err m val =
     (case val of
        None \<Rightarrow> Some (err_set err OPO_ERR_TYPE ''NULL is not an integer value'', 0)
      | Some v \<Rightarrow> do {
          t \<leftarrow> rd m v;
          case switch_tag t of
            Some VAL_INT1 \<Rightarrow> do { b \<leftarrow> rd m (v + 1); Some (err, scast b) }
          | Some VAL_INT2 \<Rightarrow> do { (_, num) \<leftarrow> read_uint16 m (v + 1); Some (err, scast num) }
          | Some VAL_INT4 \<Rightarrow> do { (_, num) \<leftarrow> read_uint32 m (v + 1); Some (err, scast num) }
          | Some VAL_INT8 \<Rightarrow> do { (_, num) \<leftarrow> read_uint64 m (v + 1); Some (err, num) }
          | _ \<Rightarrow> Some (err_set err OPO_ERR_TYPE ''not an integer value'', 0)
        })"

text \<open>\<open>strtod\<close> is libc's conversion of a null-terminated string; a double is its bit pattern.\<close>

definition opo_val_double ::
    "(cstr \<Rightarrow> double) \<Rightarrow> opoErr \<Rightarrow> mem \<Rightarrow> ptr option \<Rightarrow> (opoErr \<times> double) option" where
  "opo_val_double strtod err m val =
     (case val of
        None \<Rightarrow> Some (err_set err OPO_ERR_TYPE ''NULL is not an double value'', 0)
      | Some v \<Rightarrow> do {
          t \<leftarrow> rd m v;
          if tag VAL_DEC \<noteq> t then Some (err_set err OPO_ERR_TYPE ''not a double value'', 0)
          else do {
            len \<leftarrow> rd m (v + 1);
            buf \<leftarrow> rd_range m (v + 2) (unat len);
            Some (err, strtod (buf @ [0]))
          }
        })"

text \<open>
  \<open>lenp\<close> is an optional out-parameter: \<open>None\<close> when the caller passes NULL, else what it holds.
\<close>

definition set_len :: "int option \<Rightarrow> int \<Rightarrow> int option" where
  "set_len lenp n = (case lenp of None \<Rightarrow> None | Some _ \<Rightarrow> Some n)"

definition opo_val_string ::
    "opoErr \<Rightarrow> mem \<Rightarrow> ptr option \<Rightarrow> int option \<Rightarrow> (opoErr \<times> ptr option \<times> int option) option" where
  "opo_val_string err m val lenp =
     (case val of
        None \<Rightarrow> Some (err_set err OPO_ERR_TYPE ''NULL is not an string value'', None, lenp)
      | Some v \<Rightarrow> do {
          t \<leftarrow> rd m v;
          case switch_tag t of
            Some VAL_STR1 \<Rightarrow> do {
              len \<leftarrow> rd m (v + 1);
              Some (err, Some (v + 2), set_len lenp (uint len))
            }
          | Some VAL_STR2 \<Rightarrow> do {
              (v, len) \<leftarrow> read_uint16 m (v + 1);
              Some (err, Some v, set_len lenp (uint len))
            }
          | Some VAL_STR4 \<Rightarrow> do {
              (v, len) \<leftarrow> read_uint32 m (v + 1);
              Some (err, Some v, set_len lenp (sint len))
            }
          | _ \<Rightarrow> Some (err_set err OPO_ERR_TYPE ''not a string value'', None, lenp)
        })"

text \<open>The source tests for \<open>VAL_STR2\<close> here, not for \<open>VAL_KEY2\<close>.\<close>

definition opo_val_key ::
    "opoErr \<Rightarrow> mem \<Rightarrow> ptr option \<Rightarrow> int option \<Rightarrow> (opoErr \<times> ptr option \<times> int option) option" where
  "opo_val_key err m val lenp =
     (case val of
        None \<Rightarrow> Some (err_set err OPO_ERR_TYPE ''NULL is not an string value'', None, lenp)
      | Some v \<Rightarrow> do {
          t \<leftarrow> rd m v;
          case switch_tag t of
            Some VAL_KEY1 \<Rightarrow> (case lenp of
                None \<Rightarrow> Some (err, Some (v + 2), lenp)
              | Some _ \<Rightarrow> do { len \<leftarrow> rd m (v + 1); Some (err, Some (v + 2), Some (uint len)) })
          | Some VAL_STR2 \<Rightarrow> do {
              (v, len) \<leftarrow> read_uint16 m (v + 1);
              Some (err, Some v, set_len lenp (uint len))
            }
          | _ \<Rightarrow> Some (err, None, lenp)
        })"

text \<open>The conversion \<open>"%08lx-%04lx-%04lx-%04lx-%012lx"\<close> of the two halves of a UUID.\<close>

definition uuid_text :: "uint64 \<Rightarrow> uint64 \<Rightarrow> cstr" where
  "uuid_text hi lo =
     fmt_pad 16 8 (unat (drop_bit 32 hi)) @ [0x2D] @
     fmt_pad 16 4 (unat (drop_bit 16 hi AND 0x000000000000FFFF)) @ [0x2D] @
     fmt_pad 16 4 (unat (hi AND 0x000000000000FFFF)) @ [0x2D] @
     fmt_pad 16 4 (unat (drop_bit 48 lo)) @ [0x2D] @
     fmt_pad 16 12 (unat (lo AND 0x0000FFFFFFFFFFFF))"

text \<open>\<open>str\<close> is the caller's buffer; \<open>sprintf\<close> stores the text and its null at its start.\<close>

definition opo_val_uuid_str ::
    "opoErr \<Rightarrow> mem \<Rightarrow> ptr option \<Rightarrow> mem \<Rightarrow> (opoErr \<times> mem) option" where
  "opo_val_uuid_str err m val str =
     (case val of
        None \<Rightarrow> Some (err_set err OPO_ERR_TYPE ''NULL is not a UUID value'', str)
      | Some v \<Rightarrow> do {
          t \<leftarrow> rd m v;
          if tag VAL_UUID \<noteq> t then Some (err_set err OPO_ERR_TYPE ''not a UUID value'', str)
          else do {
            (v, hi) \<leftarrow> read_uint64 m (v + 1);
            (v, lo) \<leftarrow> read_uint64 m v;
            (str, _) \<leftarrow> put str 0 (uuid_text hi lo @ [0]);
            Some (err, str)
          }
        })"

text \<open>The out-parameters keep what they held when an error is set.\<close>

definition opo_val_uuid ::
    "opoErr \<Rightarrow> mem \<Rightarrow> ptr option \<Rightarrow> uint64 \<Rightarrow> uint64 \<Rightarrow> (opoErr \<times> uint64 \<times> uint64) option" where
  "opo_val_uuid err m val hip lop =
     (case val of
        None \<Rightarrow> Some (err_set err OPO_ERR_TYPE ''NULL is not a UUID value'', hip, lop)
      | Some v \<Rightarrow> do {
          t \<leftarrow> rd m v;
          if tag VAL_UUID \<noteq> t then Some (err_set err OPO_ERR_TYPE ''not a UUID value'', hip, lop)
          else do {
            (v, hip) \<leftarrow> read_uint64 m (v + 1);
            (v, lop) \<leftarrow> read_uint64 m v;
            Some (err, hip, lop)
          }
        })"

definition opo_val_time :: "opoErr \<Rightarrow> mem \<Rightarrow> ptr option \<Rightarrow> (opoErr \<times> int64) option" where
  "opo_val_time err m val =
     (case val of
        None \<Rightarrow> Some (err_set err OPO_ERR_TYPE ''NULL is not a time value'', 0)
      | Some v \<Rightarrow> do {
          t \<leftarrow> rd m v;
          if tag VAL_TIME \<noteq> t then Some (err_set err OPO_ERR_TYPE ''not a time value'', 0)
          else do { (_, t) \<leftarrow> read_uint64 m (v + 1); Some (err, t) }
        })"

section \<open>Messages\<close>

definition opo_msg_val :: "ptr \<Rightarrow> ptr" where
  "opo_msg_val msg = msg + 8"

definition opo_msg_bsize :: "mem \<Rightarrow> ptr \<Rightarrow> nat option" where
  "opo_msg_bsize m msg = do { n \<leftarrow> opo_val_bsize m (Some (msg + 8)); Some (n + 8) }"

definition opo_msg_id :: "mem \<Rightarrow> ptr \<Rightarrow> uint64 option" where
  "opo_msg_id m msg = do { (_, mid) \<leftarrow> read_uint64 m msg; Some mid }"

definition opo_msg_set_id :: "mem \<Rightarrow> ptr \<Rightarrow> uint64 \<Rightarrow> mem option" where
  "opo_msg_set_id m msg mid = do {
     (m, _) \<leftarrow> put m msg
       [ucast (drop_bit 56 mid),
        ucast (0x00000000000000ff AND drop_bit 48 mid),
        ucast (0x00000000000000ff AND drop_bit 40 mid),
        ucast (0x00000000000000ff AND drop_bit 32 mid),
        ucast (0x00000000000000ff AND drop_bit 24 mid),
        ucast (0x00000000000000ff AND drop_bit 16 mid),
        ucast (0x00000000000000ff AND drop_bit 8 mid),
        ucast (0x00000000000000ff AND mid)];
     Some m
   }"

section \<open>The readers on encoded values\<close>

lemma bsize_enc [wire_simps]:
  "wf_wire w \<Longrightarrow> bytes_at m p (enc w) \<Longrightarrow> opo_val_bsize m (Some p) = Some (length (enc w))"
  by (cases w) (auto simp: opo_val_bsize_def)

lemma bsize_enc_key [wire_simps]:
  "wf_key k \<Longrightarrow> bytes_at m p (enc_key k) \<Longrightarrow> opo_val_bsize m (Some p) = Some (length (enc_key k))"
  by (cases k) (auto simp: opo_val_bsize_def)

lemma type_enc [wire_simps]:
  "bytes_at m p (enc w) \<Longrightarrow> opo_val_type m (Some p) = Some (wire_type w)"
  by (cases w) (auto simp: opo_val_type_def)

lemma int_enc [wire_simps]:
  "bytes_at m p (enc w) \<Longrightarrow> opo_val_int err m (Some p) =
     Some (case wire_int w of
         Some i \<Rightarrow> (err, word_of_int i)
       | None \<Rightarrow> (err_set err OPO_ERR_TYPE ''not an integer value'', 0))"
  by (cases w) (auto simp: opo_val_int_def)

lemma bool_enc [wire_simps]:
  "bytes_at m p (enc w) \<Longrightarrow> opo_val_bool err m (Some p) =
     Some (case wire_bool w of
         Some b \<Rightarrow> (err, b)
       | None \<Rightarrow> (err_set err OPO_ERR_TYPE ''not a boolean value'', False))"
  by (cases w) (auto simp: opo_val_bool_def)

lemma uint_len:
  "n < 2 ^ 8 \<Longrightarrow> uint (of_nat n :: byte) = int n"
  "n < 2 ^ 16 \<Longrightarrow> uint (of_nat n :: uint16) = int n"
  by (simp_all add: unsigned_of_nat take_bit_nat_eq_self)

lemma sint_u32_len:
  assumes "n < 2 ^ 31"
  shows "sint (of_nat n :: uint32) = int n"
proof -
  have "sint (of_nat n :: uint32) = signed_take_bit 31 (int n)"
    by (simp add: signed_of_nat)
  then show ?thesis using assms by (simp add: signed_take_bit_int_eq_self)
qed

lemma string_enc:
  assumes "wf_wire w" and "bytes_at m p (enc w)" and "wire_str w = Some bs"
    and "length bs < 2 ^ 31"
  shows "\<exists>q. opo_val_string err m (Some p) lenp = Some (err, Some q, set_len lenp (int (length bs))) \<and>
    bytes_at m q (bs @ [0])"
  using assms
  by (cases w) (auto simp: opo_val_string_def sint_u32_len uint_len)

text \<open>The values and the keys of the format are the items \<open>opo_val_bsize\<close> measures.\<close>

definition wire_item :: "byte list \<Rightarrow> bool" where
  "wire_item x \<longleftrightarrow> (\<exists>w. wf_wire w \<and> x = enc w) \<or> (\<exists>k. wf_key k \<and> x = enc_key k)"

interpretation val_items: sized_items "\<lambda>m p. opo_val_bsize m (Some p)" wire_item
  by unfold_locales (auto simp: wire_item_def bsize_enc bsize_enc_key)

lemma msg_bsize_enc:
  "wf_wire w \<Longrightarrow> length i = 8 \<Longrightarrow> bytes_at m p (i @ enc w) \<Longrightarrow>
   opo_msg_bsize m p = Some (8 + length (enc w))"
  by (simp add: opo_msg_bsize_def bsize_enc)

text \<open>A message: eight bytes of id, then a value.\<close>

definition wire_msg :: "byte list \<Rightarrow> bool" where
  "wire_msg x \<longleftrightarrow> (\<exists>i w. length i = 8 \<and> wf_wire w \<and> x = i @ enc w)"

interpretation msg_items: sized_items opo_msg_bsize wire_msg
  by unfold_locales (auto simp: wire_msg_def msg_bsize_enc)

text \<open>The storing half of the message id is the 64-bit codec.\<close>

lemma opo_msg_set_id_fill: "opo_msg_set_id m p i = map_option fst (fill_uint64 m p i)"
  by (cases "fill_uint64 m p i") (auto simp: opo_msg_set_id_def fill_uint64_def)

text \<open>Every group of the UUID text fits its width, so the text has 36 characters.\<close>

lemma unat_drop_bit: "unat (drop_bit n (x :: uint64)) = unat x div 2 ^ n"
proof -
  have "unat x < 2 ^ LENGTH(64)" by (rule unsigned_less)
  then show ?thesis
    unfolding unsigned_drop_bit_eq by (simp only: drop_bit_eq_div take_bit_nat_eq_self)
qed

lemma unat_drop_bit_less: "unat (drop_bit n (x :: uint64)) < 2 ^ (64 - n)"
proof (cases "n < 64")
  case True
  have "unat x < 2 ^ n * 2 ^ (64 - n)"
    using unsigned_less [of x] True by (simp flip: power_add)
  then show ?thesis by (simp add: unat_drop_bit less_mult_imp_div_less mult.commute)
next
  case False
  then have "drop_bit n x = 0" by (intro bit_eqI) (auto simp: bit_simps dest: bit_imp_le_length)
  then show ?thesis by simp
qed

lemma unat_mask_less:
  "unat ((x :: uint64) AND 0xFFFF) < 2 ^ 16" "unat (x AND 0x0000FFFFFFFFFFFF) < 2 ^ 48"
proof -
  have "x AND 0xFFFF = take_bit 16 x" "x AND 0x0000FFFFFFFFFFFF = take_bit 48 x"
    by (simp_all add: take_bit_eq_mask mask_eq_exp_minus_1)
  then show "unat (x AND 0xFFFF) < 2 ^ 16" "unat (x AND 0x0000FFFFFFFFFFFF) < 2 ^ 48"
    by (simp_all only: unsigned_take_bit_eq take_bit_nat_less_exp)
qed

lemma uuid_text_exact: "uuid_text hi lo =
     digits_exact 16 8 (unat (drop_bit 32 hi)) @ [0x2D] @
     digits_exact 16 4 (unat (drop_bit 16 hi AND 0xFFFF)) @ [0x2D] @
     digits_exact 16 4 (unat (hi AND 0xFFFF)) @ [0x2D] @
     digits_exact 16 4 (unat (drop_bit 48 lo)) @ [0x2D] @
     digits_exact 16 12 (unat (lo AND 0x0000FFFFFFFFFFFF))"
  using unat_drop_bit_less [of 32 hi] unat_drop_bit_less [of 48 lo]
    unat_mask_less(1) [of "drop_bit 16 hi"] unat_mask_less(1) [of hi] unat_mask_less(2) [of lo]
  by (simp add: uuid_text_def fmt_pad_exact)

lemma length_uuid_text [simp]: "length (uuid_text hi lo) = 36"
  by (simp add: uuid_text_exact)

section \<open>Properties\<close>

text \<open>
  C1: \<open>opo_val_bsize\<close> returns exactly the number of bytes of every well-formed value, wherever
  in the message it lies, without reading outside the message.
\<close>

theorem val_bsize_correct:
  assumes "wf_wire w" and "bytes_at m p (enc w)"
  shows "opo_val_bsize m (Some p) = Some (length (enc w))"
  using assms by (rule bsize_enc)

theorem val_bsize_correct_witness:
  "opo_val_bsize (0 # enc (WArr [WInt1 7, WStr1 [0x61]])) (Some 1) = Some 11"
proof -
  have "bytes_at (0 # enc (WArr [WInt1 7, WStr1 [0x61]])) 1 (enc (WArr [WInt1 7, WStr1 [0x61]]))"
    by (simp add: bytes_at_def)
  then show ?thesis
    using val_bsize_correct [of "WArr [WInt1 7, WStr1 [0x61]]"
        "0 # enc (WArr [WInt1 7, WStr1 [0x61]])" 1] by simp
qed

text \<open>
  C21: \<open>opo_val_int\<close> returns the signed number of an integer value of any of the four widths,
  and on a value of any other type sets \<open>OPO_ERR_TYPE\<close> and returns 0.
\<close>

theorem val_int_correct:
  assumes "bytes_at m p (enc w)"
  shows "opo_val_int err m (Some p) =
     Some (case wire_int w of
         Some i \<Rightarrow> (err, word_of_int i)
       | None \<Rightarrow> (err_set err OPO_ERR_TYPE ''not an integer value'', 0))"
  using assms by (rule int_enc)

theorem val_int_correct_witness:
  "opo_val_int OPO_ERR_INIT (enc (WInt2 0xFFFE)) (Some 0) = Some (OPO_ERR_INIT, - 2)"
  using val_int_correct [OF bytes_at_whole, of OPO_ERR_INIT "WInt2 0xFFFE"] by simp

text \<open>
  C22: storing a message id and reading it back gives the id, and the store touches nothing but
  the first eight bytes of the message.
\<close>

theorem msg_id_roundtrip:
  assumes "p + 8 \<le> length m"
  shows "\<exists>m'. opo_msg_set_id m p i = Some m' \<and> opo_msg_id m' p = Some i \<and>
    take p m' = take p m \<and> drop (p + 8) m' = drop (p + 8) m \<and> length m' = length m"
proof -
  obtain m' where m': "fill_uint64 m p i = Some (m', p + 8)"
    using assms by (simp add: fill_uint64_put put_def)
  then have "opo_msg_id m' p = Some i" by (simp add: opo_msg_id_def u64.read_fill)
  with m' assms show ?thesis
    by (auto simp: opo_msg_set_id_fill fill_uint64_put put_def)
qed

theorem msg_id_roundtrip_witness:
  "\<exists>m'. opo_msg_set_id (replicate 9 0) 1 42 = Some m' \<and> opo_msg_id m' 1 = Some 42"
  using msg_id_roundtrip [of 1 "replicate 9 0" 42] by auto

end
