(* ===== verification/Members.thy ===== *)
theory Members imports Val begin

text \<open>
  The traversal of objects and arrays in \<^verbatim>\<open>val.c\<close>: \<open>opo_val_members\<close>, \<open>opo_val_next\<close>,
  \<open>opo_val_member_count\<close> and the path lookup \<open>opo_val_get\<close>.

  A member whose tag is unknown has size 0, and the loops of \<open>opo_val_member_count\<close> and
  \<open>opo_val_get\<close> then never move on.  They take fuel, one unit an iteration, so that not ending
  is a result (\<open>Out_Of_Fuel\<close>) and ending is proved: more fuel than the value has bytes is
  enough for every well-formed value.
\<close>

section \<open>Members and next\<close>

definition opo_val_members :: "opoErr \<Rightarrow> mem \<Rightarrow> ptr option \<Rightarrow> (opoErr \<times> ptr option) option" where
  "opo_val_members err m val =
     (case val of
        None \<Rightarrow> Some (err_set err OPO_ERR_TYPE ''NULL is not a object or array value'', None)
      | Some v \<Rightarrow> do {
          t \<leftarrow> rd m v;
          if tag VAL_OBJ \<noteq> t \<and> tag VAL_ARRAY \<noteq> t
          then Some (err_set err OPO_ERR_TYPE ''not an object or array value'', None)
          else Some (err, Some (v + 5))
        })"

definition opo_val_next :: "mem \<Rightarrow> ptr \<Rightarrow> ptr option" where
  "opo_val_next m val = do { n \<leftarrow> opo_val_bsize m (Some val); Some (val + n) }"

section \<open>Counting\<close>

text \<open>\<open>++\<close> of an \<open>int\<close> and \<open>--\<close> of a \<open>long\<close>; to leave the type is undefined behaviour.\<close>

definition int_inc :: "int \<Rightarrow> int outcome" where
  "int_inc i = (if i < 2 ^ 31 - 1 then Return (i + 1) else Fault)"

definition long_dec :: "int \<Rightarrow> int outcome" where
  "long_dec i = (if - (2 ^ 63) < i then Return (i - 1) else Fault)"

fun count_object :: "nat \<Rightarrow> mem \<Rightarrow> ptr \<Rightarrow> ptr \<Rightarrow> int \<Rightarrow> int outcome" where
  "count_object 0 m val endp cnt = Out_Of_Fuel"
| "count_object (Suc fuel) m val endp cnt =
     (if val < endp
      then obind (int_inc cnt) (\<lambda>cnt.
           obind (outcome_of (opo_val_bsize m (Some val))) (\<lambda>n.
           let val = val + n in
           obind (outcome_of (opo_val_bsize m (Some val))) (\<lambda>n.
           let val = val + n in count_object fuel m val endp cnt)))
      else Return cnt)"

fun count_array :: "nat \<Rightarrow> mem \<Rightarrow> ptr \<Rightarrow> ptr \<Rightarrow> int \<Rightarrow> int outcome" where
  "count_array 0 m val endp cnt = Out_Of_Fuel"
| "count_array (Suc fuel) m val endp cnt =
     (if val < endp
      then obind (int_inc cnt) (\<lambda>cnt.
           obind (outcome_of (opo_val_bsize m (Some val))) (\<lambda>n.
           let val = val + n in count_array fuel m val endp cnt))
      else Return cnt)"

definition opo_val_member_count ::
    "nat \<Rightarrow> opoErr \<Rightarrow> mem \<Rightarrow> ptr option \<Rightarrow> (opoErr \<times> int) outcome" where
  "opo_val_member_count fuel err m val =
     (case val of
        None \<Rightarrow> Return (err_set err OPO_ERR_TYPE ''NULL is not a object or array value'', 0)
      | Some v \<Rightarrow>
          obind (outcome_of (rd m v)) (\<lambda>t.
          case switch_tag t of
            Some VAL_OBJ \<Rightarrow>
              obind (outcome_of (read_uint32 m (v + 1))) (\<lambda>(val, size).
              obind (count_object fuel m val (val + unat size) 0) (\<lambda>cnt. Return (err, cnt)))
          | Some VAL_ARRAY \<Rightarrow>
              obind (outcome_of (read_uint32 m (v + 1))) (\<lambda>(val, size).
              obind (count_array fuel m val (val + unat size) 0) (\<lambda>cnt. Return (err, cnt)))
          | _ \<Rightarrow> Return (err_set err OPO_ERR_TYPE ''not an object or array value'', 0)))"

section \<open>Lookup by path\<close>

text \<open>The key at \<open>val\<close>, NULL and length 0 when there is none.\<close>

definition val_key :: "mem \<Rightarrow> ptr \<Rightarrow> (ptr option \<times> int) option" where
  "val_key m val = do {
     t \<leftarrow> rd m val;
     case switch_tag t of
       Some VAL_KEY1 \<Rightarrow> do { len \<leftarrow> rd m (val + 1); Some (Some (val + 2), uint len) }
     | Some VAL_KEY2 \<Rightarrow> do { (val, len) \<leftarrow> read_uint16 m (val + 1); Some (Some val, uint len) }
     | _ \<Rightarrow> Some (None, 0)
   }"

text \<open>\<open>for (; '.' != *dot && '\0' != *dot; dot++)\<close>: the offset \<open>dot - path\<close>.\<close>

fun scan_dot :: "cstr \<Rightarrow> nat option" where
  "scan_dot [] = None"
| "scan_dot (c # cs) = (if c \<noteq> 0x2E \<and> c \<noteq> 0 then map_option Suc (scan_dot cs) else Some 0)"

text \<open>
  The two loops of \<open>opo_val_get\<close>, up to the member they stop at: its value, or NULL.  Passing
  a NULL key to \<open>strncmp\<close> is undefined behaviour.
\<close>

fun find_member :: "nat \<Rightarrow> mem \<Rightarrow> ptr \<Rightarrow> ptr \<Rightarrow> cstr \<Rightarrow> int \<Rightarrow> ptr option outcome" where
  "find_member 0 m val endp path len = Out_Of_Fuel"
| "find_member (Suc fuel) m val endp path len =
     (if val < endp
      then obind (outcome_of (val_key m val)) (\<lambda>(key, klen).
           obind (outcome_of (opo_val_bsize m (Some val))) (\<lambda>n.
           let val = val + n in
           obind (if len = klen
                  then outcome_of (Option.bind key (\<lambda>key.
                         strncmp_eq (drop key m) path (unat (word_of_int len :: uint64))))
                  else Return False) (\<lambda>same.
           if same then Return (Some val)
           else obind (outcome_of (opo_val_bsize m (Some val))) (\<lambda>n.
                let val = val + n in find_member fuel m val endp path len))))
      else Return None)"

fun find_element :: "nat \<Rightarrow> mem \<Rightarrow> ptr \<Rightarrow> ptr \<Rightarrow> int \<Rightarrow> ptr option outcome" where
  "find_element 0 m val endp i = Out_Of_Fuel"
| "find_element (Suc fuel) m val endp i =
     (if val < endp
      then if 0 = i then Return (Some val)
           else obind (outcome_of (opo_val_bsize m (Some val))) (\<lambda>n.
                let val = val + n in
                obind (long_dec i) (\<lambda>i. find_element fuel m val endp i))
      else Return None)"

text \<open>
  One call of \<open>opo_val_get\<close> on a path that is not NULL: \<open>Inl\<close> is its result, \<open>Inr\<close> the value
  and the rest of the path it calls itself with.  \<open>len\<close> is \<open>dot - path\<close>, which the branch of an
  object converts to an \<open>int\<close>.
\<close>

definition get_step ::
    "nat \<Rightarrow> mem \<Rightarrow> ptr option \<Rightarrow> cstr \<Rightarrow> nat \<Rightarrow> (ptr option + ptr) outcome" where
  "get_step fuel m val path len =
     obind (case val of None \<Rightarrow> Fault | Some v \<Rightarrow> Return v) (\<lambda>v.
     obind (outcome_of (rd m v)) (\<lambda>t.
     obind (case switch_tag t of
         Some VAL_OBJ \<Rightarrow>
           obind (outcome_of (read_uint32 m (v + 1))) (\<lambda>(val, size).
           find_member fuel m val (val + unat size) path (sint (of_nat len :: uint32)))
       | Some VAL_ARRAY \<Rightarrow>
           obind (outcome_of (strtol10 path)) (\<lambda>(i, iend).
           if iend \<noteq> len then Return None
           else obind (outcome_of (read_uint32 m (v + 1))) (\<lambda>(val, size).
                find_element fuel m val (val + unat size) i))
       | _ \<Rightarrow> Return None) (\<lambda>found.
     case found of
       None \<Rightarrow> Return (Inl None)
     | Some q \<Rightarrow>
         obind (outcome_of (rd path len)) (\<lambda>dot.
         if dot = 0 then Return (Inl (Some q)) else Return (Inr q)))))"

function get_path :: "nat \<Rightarrow> mem \<Rightarrow> ptr option \<Rightarrow> cstr \<Rightarrow> ptr option outcome" where
  "get_path fuel m val path =
     obind (outcome_of (rd path 0)) (\<lambda>c.
     if c = 0 then Return val
     else obind (outcome_of (scan_dot path)) (\<lambda>len.
          obind (get_step fuel m val path len) (\<lambda>r.
          case r of Inl res \<Rightarrow> Return res
          | Inr q \<Rightarrow> get_path fuel m (Some q) (drop (len + 1) path))))"
  by pat_completeness auto
termination
  by (relation "measure (\<lambda>(fuel, m, val, path). length path)") (auto simp: rd_def split: if_splits)

declare get_path.simps [simp del]

definition opo_val_get ::
    "nat \<Rightarrow> mem \<Rightarrow> ptr option \<Rightarrow> cstr option \<Rightarrow> ptr option outcome" where
  "opo_val_get fuel m val path =
     (case path of None \<Rightarrow> Return val | Some path \<Rightarrow> get_path fuel m val path)"

section \<open>Abstract lookup\<close>

text \<open>The index a component denotes: \<open>strtol\<close> has to consume it whole.\<close>

definition component_index :: "cstr \<Rightarrow> int option" where
  "component_index c =
     (case strtol10 (c @ [0]) of
        Some (i, n) \<Rightarrow> if n = length c then Some i else None
      | None \<Rightarrow> None)"

text \<open>
  A path is its components joined by dots; none is empty, holds a dot or a null, is longer than an
  \<open>int\<close> can tell, or is an index so low that counting it down could leave a \<open>long\<close>.
\<close>

definition ok_component :: "cstr \<Rightarrow> bool" where
  "ok_component c \<longleftrightarrow> c \<noteq> [] \<and> 0x2E \<notin> set c \<and> 0 \<notin> set c \<and> length c < 2 ^ 31 \<and>
     (case component_index c of None \<Rightarrow> True | Some i \<Rightarrow> - (2 ^ 62) \<le> i)"

fun join_path :: "cstr list \<Rightarrow> cstr" where
  "join_path [] = [0]"
| "join_path [c] = c @ [0]"
| "join_path (c # cs) = c @ 0x2E # join_path cs"

text \<open>The first member with the key, where its value starts, and the value.\<close>

fun member_pos :: "cstr \<Rightarrow> (wkey \<times> wire) list \<Rightarrow> ptr \<Rightarrow> (ptr \<times> wire) option" where
  "member_pos c [] p = None"
| "member_pos c ((k, w) # kvs) p =
     (if key_bytes k = c then Some (p + length (enc_key k), w)
      else member_pos c kvs (p + length (enc_key k) + length (enc w)))"

definition element_pos :: "int \<Rightarrow> wire list \<Rightarrow> ptr \<Rightarrow> (ptr \<times> wire) option" where
  "element_pos i ws p =
     (if 0 \<le> i \<and> i < int (length ws)
      then Some (p + length (enc_elements (take (nat i) ws)), ws ! nat i) else None)"

text \<open>The child a component selects in the value encoded at \<open>p\<close>.\<close>

fun child_pos :: "cstr \<Rightarrow> wire \<Rightarrow> ptr \<Rightarrow> (ptr \<times> wire) option" where
  "child_pos c (WObj kvs) p = member_pos c kvs (p + 5)"
| "child_pos c (WArr ws) p =
     Option.bind (component_index c) (\<lambda>i. element_pos i ws (p + 5))"
| "child_pos c w p = None"

fun wire_get :: "wire \<Rightarrow> ptr \<Rightarrow> cstr list \<Rightarrow> (ptr \<times> wire) option" where
  "wire_get w p [] = Some (p, w)"
| "wire_get w p (c # cs) = Option.bind (child_pos c w p) (\<lambda>(q, w'). wire_get w' q cs)"

section \<open>Lemmas about the loops\<close>

lemma val_key_enc:
  "wf_key k \<Longrightarrow> bytes_at m p (enc_key k) \<Longrightarrow>
   \<exists>q. val_key m p = Some (Some q, int (length (key_bytes k))) \<and> bytes_at m q (key_bytes k)"
  by (cases k) (auto simp: val_key_def uint_len)

lemma bytes_at_drop: "bytes_at m p bs \<Longrightarrow> drop p m = bs @ drop (p + length bs) m"
  by (metis append_take_drop_id bytes_at_def drop_drop add.commute)

lemma strncmp_key:
  assumes "bytes_at m q ks" and "length ks = length c" and "0 \<notin> set c"
  shows "strncmp_eq (drop q m) (c @ t) (length c) = Some (ks = c)"
  using strncmp_eq_take [OF assms(3,2)] bytes_at_drop [OF assms(1)] by simp

lemma count_array_enc:
  "\<forall>w \<in> set ws. wf_wire w \<Longrightarrow> bytes_at m p (enc_elements ws) \<Longrightarrow> length ws < fuel \<Longrightarrow>
   cnt + int (length ws) < 2 ^ 31 \<Longrightarrow>
   count_array fuel m p (p + length (enc_elements ws)) cnt = Return (cnt + int (length ws))"
proof (induction ws arbitrary: p fuel cnt)
  case Nil
  then show ?case by (cases fuel) simp_all
next
  case (Cons w ws)
  then obtain f where f: "fuel = Suc f" by (cases fuel) auto
  from Cons.prems have "opo_val_bsize m (Some p) = Some (length (enc w))"
    by (simp add: bsize_enc)
  moreover from Cons.prems have "count_array f m (p + length (enc w))
      ((p + length (enc w)) + length (enc_elements ws)) (cnt + 1) =
      Return (cnt + 1 + int (length ws))"
    by (intro Cons.IH) (simp_all add: f)
  ultimately show ?case using Cons.prems(4) by (simp add: f add.assoc int_inc_def)
qed

lemma length_enc_members4: "4 * length kvs \<le> length (enc_members kvs)"
proof (induction kvs)
  case (Cons kv kvs)
  obtain k w where kv: "kv = (k, w)" by fastforce
  have "3 \<le> length (enc_key k)" by (cases k) simp_all
  with Cons length_enc_pos [of w] show ?case by (simp add: kv)
qed simp

lemma count_object_enc:
  "\<forall>(k, w) \<in> set kvs. wf_key k \<and> wf_wire w \<Longrightarrow> bytes_at m p (enc_members kvs) \<Longrightarrow>
   length kvs < fuel \<Longrightarrow> cnt + int (length kvs) < 2 ^ 31 \<Longrightarrow>
   count_object fuel m p (p + length (enc_members kvs)) cnt = Return (cnt + int (length kvs))"
proof (induction kvs arbitrary: p fuel cnt)
  case Nil
  then show ?case by (cases fuel) simp_all
next
  case (Cons kv kvs)
  obtain k w where kv: "kv = (k, w)" by fastforce
  from Cons.prems obtain f where f: "fuel = Suc f" by (cases fuel) auto
  let ?p = "p + length (enc_key k)"
  from Cons.prems have "opo_val_bsize m (Some p) = Some (length (enc_key k))"
    and "opo_val_bsize m (Some ?p) = Some (length (enc w))"
    by (simp_all add: kv bsize_enc bsize_enc_key)
  moreover from Cons.prems have "count_object f m (?p + length (enc w))
      ((?p + length (enc w)) + length (enc_members kvs)) (cnt + 1) =
      Return (cnt + 1 + int (length kvs))"
    by (intro Cons.IH) (simp_all add: f kv add.assoc)
  ultimately show ?case using Cons.prems(4) by (simp add: f kv add.assoc int_inc_def)
qed

lemma find_element_enc:
  "\<forall>w \<in> set ws. wf_wire w \<Longrightarrow> bytes_at m p (enc_elements ws) \<Longrightarrow> length ws < fuel \<Longrightarrow>
   int (length ws) - 2 ^ 63 \<le> i \<Longrightarrow>
   find_element fuel m p (p + length (enc_elements ws)) i =
     Return (map_option fst (element_pos i ws p))"
proof (induction ws arbitrary: p fuel i)
  case Nil
  then show ?case by (cases fuel) (simp_all add: element_pos_def)
next
  case (Cons w ws)
  then obtain f where f: "fuel = Suc f" by (cases fuel) auto
  let ?p = "p + length (enc w)"
  from Cons.prems have b: "opo_val_bsize m (Some p) = Some (length (enc w))"
    by (simp add: bsize_enc)
  from Cons.prems have r: "find_element f m ?p (?p + length (enc_elements ws)) (i - 1) =
      Return (map_option fst (element_pos (i - 1) ws ?p))"
    by (intro Cons.IH) (simp_all add: f)
  have "map_option fst (element_pos i (w # ws) p) =
      map_option fst (element_pos (i - 1) ws ?p)" if "i \<noteq> 0"
    using that by (cases "nat i") (auto simp: element_pos_def nat_diff_distrib' simp flip: nat_0_iff)
  moreover have "long_dec i = Return (i - 1)" using Cons.prems(4) by (simp add: long_dec_def)
  ultimately show ?case using b r
    by (cases "i = 0") (simp_all add: f add.assoc element_pos_def)
qed

lemma find_member_enc:
  "\<forall>(k, w) \<in> set kvs. wf_key k \<and> wf_wire w \<Longrightarrow> bytes_at m p (enc_members kvs) \<Longrightarrow>
   length kvs < fuel \<Longrightarrow> 0 \<notin> set c \<Longrightarrow> length c < 2 ^ 31 \<Longrightarrow>
   find_member fuel m p (p + length (enc_members kvs)) (c @ t) (int (length c)) =
     Return (map_option fst (member_pos c kvs p))"
proof (induction kvs arbitrary: p fuel)
  case Nil
  then show ?case by (cases fuel) simp_all
next
  case (Cons kv kvs)
  obtain k w where kv: "kv = (k, w)" by fastforce
  from Cons.prems obtain f where f: "fuel = Suc f" by (cases fuel) auto
  let ?p = "p + length (enc_key k)"
  from Cons.prems have b: "opo_val_bsize m (Some p) = Some (length (enc_key k))"
    "opo_val_bsize m (Some ?p) = Some (length (enc w))"
    by (simp_all add: kv bsize_enc bsize_enc_key)
  from Cons.prems obtain q where
    q: "val_key m p = Some (Some q, int (length (key_bytes k)))" "bytes_at m q (key_bytes k)"
    using val_key_enc [of k m p] by (auto simp: kv)
  have s: "strncmp_eq (drop q m) (c @ t) (length c) = Some (key_bytes k = c)"
    if "length (key_bytes k) = length c"
    using strncmp_key [OF q(2) that Cons.prems(4)] .
  have u: "unat (word_of_int (int (length c)) :: uint64) = length c"
    using Cons.prems(5) by (simp add: unat_of_nat_len)
  from Cons.prems have r: "find_member f m (?p + length (enc w))
      ((?p + length (enc w)) + length (enc_members kvs)) (c @ t) (int (length c)) =
      Return (map_option fst (member_pos c kvs (?p + length (enc w))))"
    by (intro Cons.IH) (simp_all add: f kv add.assoc)
  show ?case
  proof (cases "length (key_bytes k) = length c")
    case True
    with b q(1) s [OF True] r u show ?thesis by (simp add: f kv add.assoc)
  next
    case False
    then have "key_bytes k \<noteq> c" by auto
    with False b q(1) r show ?thesis by (simp add: f kv add.assoc)
  qed
qed

lemma scan_dot_append:
  "0x2E \<notin> set c \<Longrightarrow> 0 \<notin> set c \<Longrightarrow> d = 0x2E \<or> d = 0 \<Longrightarrow> scan_dot (c @ d # t) = Some (length c)"
  by (induction c) auto

section \<open>Lookup on an encoded value\<close>

lemma member_pos_Some:
  "member_pos c kvs p = Some (q, w') \<Longrightarrow> bytes_at m p (enc_members kvs) \<Longrightarrow>
   bytes_at m q (enc w') \<and> p \<le> q \<and> q + length (enc w') \<le> p + length (enc_members kvs) \<and>
   (\<exists>k. (k, w') \<in> set kvs)"
proof (induction kvs arbitrary: p)
  case (Cons kv kvs)
  obtain k w where kv: "kv = (k, w)" by fastforce
  show ?case
  proof (cases "key_bytes k = c")
    case False
    with Cons.prems show ?thesis
      using Cons.IH [of "p + length (enc_key k) + length (enc w)"]
      by (auto simp: kv add.assoc)
  qed (use Cons.prems in \<open>auto simp: kv\<close>)
qed simp

lemma element_pos_Some:
  assumes "element_pos i ws p = Some (q, w')" and "bytes_at m p (enc_elements ws)"
  shows "bytes_at m q (enc w') \<and> p \<le> q \<and> q + length (enc w') \<le> p + length (enc_elements ws) \<and>
    w' \<in> set ws"
proof -
  from assms(1) have i: "nat i < length ws" and q: "q = p + length (enc_elements (take (nat i) ws))"
    and w': "w' = ws ! nat i"
    by (auto simp: element_pos_def split: if_splits)
  have "ws = take (nat i) ws @ ws ! nat i # drop (Suc (nat i)) ws"
    using i by (rule id_take_nth_drop)
  then have e: "enc_elements ws =
      enc_elements (take (nat i) ws) @ enc w' @ enc_elements (drop (Suc (nat i)) ws)"
    unfolding w' by (metis enc_elements_append enc_elements.simps(2))
  show ?thesis using assms(2) i unfolding e q by (simp add: w')
qed

lemma child_pos_Some:
  assumes "child_pos c w p = Some (q, w')" and "wf_wire w" and "bytes_at m p (enc w)"
  shows "bytes_at m q (enc w') \<and> wf_wire w' \<and> p < q \<and> q + length (enc w') \<le> p + length (enc w)"
proof (cases w)
  case (WObj kvs)
  with assms member_pos_Some [of c kvs "p + 5" q w' m] show ?thesis
    by (auto simp: add.commute [of 5])
next
  case (WArr ws)
  with assms obtain i where "element_pos i ws (p + 5) = Some (q, w')"
    by (auto simp: bind_eq_Some_conv)
  with WArr assms element_pos_Some [of i ws "p + 5" q w' m] show ?thesis
    by (auto simp: add.commute [of 5])
qed (use assms in simp_all)

lemma get_step_enc:
  assumes wf: "wf_wire w" and at: "bytes_at m p (enc w)" and fuel: "length (enc w) \<le> fuel"
    and c: "ok_component c" and d: "d = 0x2E \<or> d = 0"
  shows "get_step fuel m (Some p) (c @ d # t) (length c) =
    Return (case child_pos c w p of None \<Rightarrow> Inl None
            | Some (q, w') \<Rightarrow> if d = 0 then Inl (Some q) else Inr q)"
proof (cases w)
  case (WObj kvs)
  from fuel have "length kvs < fuel" using length_enc_members [of kvs] by (simp add: WObj)
  then have "find_member fuel m (p + 5) (p + 5 + length (enc_members kvs)) (c @ d # t) (int (length c)) =
      Return (map_option fst (member_pos c kvs (p + 5)))"
    using wf at c by (intro find_member_enc) (auto simp: WObj ok_component_def add.commute [of 5])
  moreover have "sint (of_nat (length c) :: uint32) = int (length c)"
    using c by (intro sint_u32_len) (simp add: ok_component_def)
  ultimately show ?thesis
    using wf at by (auto simp: WObj get_step_def add.commute [of 5] split: option.splits)
next
  case (WArr ws)
  have ends: "ends_number d" "ends_number 0"
    using d by (auto simp: ends_number_def is_digit_def is_space_def)
  obtain i n where s: "strtol10 (c @ d # t) = Some (i, n)" "strtol10 (c @ [0]) = Some (i, n)"
    using strtol10_Some [OF ends(1)] strtol10_end [OF ends] by metis
  from fuel have "length ws < fuel" using length_enc_elements [of ws] by (simp add: WArr)
  then have "find_element fuel m (p + 5) (p + 5 + length (enc_elements ws)) i =
      Return (map_option fst (element_pos i ws (p + 5)))" if "n = length c"
    using wf at c that s length_enc_elements [of ws]
    by (intro find_element_enc) (auto simp: WArr add.commute [of 5] ok_component_def component_index_def)
  then show ?thesis
    using wf at s by (auto simp: WArr get_step_def component_index_def add.commute [of 5] split: option.splits)
qed (use at in \<open>simp_all add: get_step_def split: if_splits\<close>)

lemma get_path_enc:
  "wf_wire w \<Longrightarrow> bytes_at m p (enc w) \<Longrightarrow> length (enc w) \<le> fuel \<Longrightarrow>
   \<forall>c \<in> set cs. ok_component c \<Longrightarrow>
   get_path fuel m (Some p) (join_path cs) = Return (map_option fst (wire_get w p cs))"
proof (induction cs arbitrary: w p)
  case Nil
  then show ?case by (subst get_path.simps) (simp add: rd_def)
next
  case (Cons c cs)
  define d where "d = (if cs = [] then 0 else 0x2E :: byte)"
  define t where "t = (if cs = [] then [] else join_path cs)"
  have path: "join_path (c # cs) = c @ d # t" by (cases cs) (simp_all add: d_def t_def)
  from Cons.prems have c: "ok_component c" by simp
  have d: "d = 0x2E \<or> d = 0" by (simp add: d_def)
  have step: "get_step fuel m (Some p) (c @ d # t) (length c) =
    Return (case child_pos c w p of None \<Rightarrow> Inl None
            | Some (q, w') \<Rightarrow> if d = 0 then Inl (Some q) else Inr q)"
    using Cons.prems c d by (intro get_step_enc) auto
  have rd0: "rd (c @ d # t) 0 = Some (hd c)" "hd c \<noteq> 0"
    using c by (cases c; simp add: rd_def ok_component_def)+
  have scan: "scan_dot (c @ d # t) = Some (length c)"
    using c d by (intro scan_dot_append) (auto simp: ok_component_def)
  show ?case
  proof (cases "child_pos c w p")
    case None
    then show ?thesis unfolding path using step rd0 scan by (subst get_path.simps) simp
  next
    case (Some qw)
    then obtain q w' where qw: "child_pos c w p = Some (q, w')" by (cases qw) auto
    from child_pos_Some [OF qw Cons.prems(1,2)] Cons.prems(3)
    have w': "bytes_at m q (enc w')" "wf_wire w'" "length (enc w') \<le> fuel" by simp_all
    show ?thesis
    proof (cases cs)
      case Nil
      with qw show ?thesis unfolding path
        using step rd0 scan by (subst get_path.simps) (simp add: d_def)
    next
      case (Cons c' cs')
      with Cons.IH [OF w'(2,1,3)] Cons.prems(4) qw show ?thesis unfolding path
        using step rd0 scan by (subst get_path.simps) (simp add: d_def t_def)
    qed
  qed
qed

section \<open>Properties\<close>

text \<open>
  C10: \<open>opo_val_get\<close> returns what looking the path up in the abstract value gives: the pointer to
  the value the path leads to, or NULL where a component has no match.  The components are as
  \<open>ok_component\<close> has them; fuel for the bytes of the value is enough.
\<close>

theorem val_get_correct:
  assumes "wf_wire w" and "bytes_at m p (enc w)" and "length (enc w) \<le> fuel"
    and "\<forall>c \<in> set cs. ok_component c"
  shows "opo_val_get fuel m (Some p) (Some (join_path cs)) =
    Return (map_option fst (wire_get w p cs))"
  using get_path_enc [OF assms] by (simp add: opo_val_get_def)

theorem val_get_correct_witness:
  "opo_val_get 40 (enc (WObj [(WKey1 [0x61], WNull), (WKey1 [0x62], WArr [WNull, WInt1 5])]))
     (Some 0) (Some (join_path [[0x62], [0x31]])) = Return (Some 20)"
proof -
  let ?w = "WObj [(WKey1 [0x61], WNull), (WKey1 [0x62], WArr [WNull, WInt1 5])]"
  have "opo_val_get 40 (enc ?w) (Some 0) (Some (join_path [[0x62], [0x31]])) =
      Return (map_option fst (wire_get ?w 0 [[0x62], [0x31]]))"
    by (rule val_get_correct [OF _ bytes_at_whole])
      (simp_all add: ok_component_def component_index_def strtol10_def is_space_def is_digit_def rd_def clamp_long_def)
  also have "\<dots> = Return (Some 20)"
    by (simp add: component_index_def strtol10_def is_space_def is_digit_def rd_def
        clamp_long_def element_pos_def)
  finally show ?thesis .
qed

text \<open>
  C23: \<open>opo_val_member_count\<close> of an encoded container ends and returns the number of its members, in
  an array as long as there are less than \<open>2 ^ 31\<close>; on any other value it sets \<open>OPO_ERR_TYPE\<close> and
  returns 0.
\<close>

theorem val_member_count_correct:
  assumes "wf_wire w" and "bytes_at m p (enc w)" and "length (enc w) \<le> fuel"
    and "\<And>ws. w = WArr ws \<Longrightarrow> length ws < 2 ^ 31"
  shows "opo_val_member_count fuel err m (Some p) =
    Return (case w of
        WObj kvs \<Rightarrow> (err, int (length kvs))
      | WArr ws \<Rightarrow> (err, int (length ws))
      | _ \<Rightarrow> (err_set err OPO_ERR_TYPE ''not an object or array value'', 0))"
proof (cases w)
  case (WObj kvs)
  then show ?thesis
    using assms length_enc_members4 [of kvs] count_object_enc [of kvs m "p + 5" fuel 0]
    by (auto simp: opo_val_member_count_def add.commute [of 5])
next
  case (WArr ws)
  then show ?thesis
    using assms length_enc_elements [of ws] count_array_enc [of ws m "p + 5" fuel 0]
    by (auto simp: opo_val_member_count_def add.commute [of 5])
qed (use assms in \<open>simp_all add: opo_val_member_count_def split: if_splits\<close>)

theorem val_member_count_correct_witness:
  "opo_val_member_count 20 OPO_ERR_INIT (enc (WArr [WNull, WInt1 5])) (Some 0) =
     Return (OPO_ERR_INIT, 2)"
  using val_member_count_correct [OF _ bytes_at_whole, of "WArr [WNull, WInt1 5]" 20 OPO_ERR_INIT]
  by simp

section \<open>Traversal\<close>

text \<open>The children of a container in the order of the bytes: keys and values alternate.\<close>

fun children :: "wire \<Rightarrow> byte list list" where
  "children (WObj kvs) = concat (map (\<lambda>(k, w). [enc_key k, enc w]) kvs)"
| "children (WArr ws) = map enc ws"
| "children w = []"

lemma concat_children_obj: "concat (children (WObj kvs)) = enc_members kvs"
  by (induction kvs) auto

lemma concat_children_arr: "concat (children (WArr ws)) = enc_elements ws"
  by (induction ws) auto

lemma children_items: "wf_wire w \<Longrightarrow> \<forall>x \<in> set (children w). wire_item x"
  by (cases w) (fastforce simp: wire_item_def)+

text \<open>\<open>n\<close> calls of \<open>opo_val_next\<close>\<close>

primrec next_times :: "mem \<Rightarrow> nat \<Rightarrow> ptr \<Rightarrow> ptr option" where
  "next_times m 0 p = Some p"
| "next_times m (Suc n) p = do { q \<leftarrow> opo_val_next m p; next_times m n q }"

lemma next_times_walk: "next_times m n p = walk (\<lambda>m p. opo_val_bsize m (Some p)) m n p"
  by (induction n arbitrary: p) (simp_all add: opo_val_next_def)

text \<open>
  C24: from \<open>opo_val_members\<close>, \<open>n\<close> calls of \<open>opo_val_next\<close> lead to the \<open>n\<close>-th child of a
  container (keys and values alternate in an object), and as many calls as there are children to
  the end that \<open>opo_val_bsize\<close> gives.
\<close>

theorem val_traversal:
  assumes wf: "wf_wire w" and at: "bytes_at m p (enc w)" and n: "n \<le> length (children w)"
    and w: "wire_type w = OPO_VAL_OBJ \<or> wire_type w = OPO_VAL_ARRAY"
  shows "\<exists>q. opo_val_members err m (Some p) = Some (err, Some (p + 5)) \<and>
    next_times m n (p + 5) = Some q \<and>
    (if n < length (children w) then bytes_at m q (children w ! n) else q = p + length (enc w))"
proof -
  have mem: "opo_val_members err m (Some p) = Some (err, Some (p + 5))"
    and body: "bytes_at m (p + 5) (concat (children w))"
    and len: "length (enc w) = 5 + length (concat (children w))"
    using at w by (cases w; auto simp: opo_val_members_def concat_children_obj concat_children_arr
        add.commute [of 5] simp del: children.simps)+
  from val_items.walk_items [OF children_items [OF wf] body n] mem show ?thesis
    using val_items.item_at [OF body, of n] n len by (auto simp: next_times_walk)
qed

theorem val_traversal_witness:
  "\<exists>q. next_times (enc (WArr [WNull, WInt1 5])) 1 5 = Some q \<and>
     bytes_at (enc (WArr [WNull, WInt1 5])) q (enc (WInt1 5))"
  using val_traversal [OF _ bytes_at_whole, of "WArr [WNull, WInt1 5]" 1 OPO_ERR_INIT] by simp

section \<open>Corrupt containers\<close>

lemma count_array_stuck:
  "val < endp \<Longrightarrow> opo_val_bsize m (Some val) = Some 0 \<Longrightarrow> cnt < 2 ^ 31 \<Longrightarrow>
   count_array fuel m val endp cnt = (if cnt + int fuel < 2 ^ 31 then Out_Of_Fuel else Fault)"
  by (induction fuel arbitrary: cnt) (auto simp: int_inc_def)

lemma count_object_stuck:
  "val < endp \<Longrightarrow> opo_val_bsize m (Some val) = Some 0 \<Longrightarrow> cnt < 2 ^ 31 \<Longrightarrow>
   count_object fuel m val endp cnt = (if cnt + int fuel < 2 ^ 31 then Out_Of_Fuel else Fault)"
  by (induction fuel arbitrary: cnt) (auto simp: int_inc_def)

lemma find_member_stuck:
  "val < endp \<Longrightarrow> opo_val_bsize m (Some val) = Some 0 \<Longrightarrow> val_key m val = Some (None, 0) \<Longrightarrow>
   len \<noteq> 0 \<Longrightarrow> find_member fuel m val endp path len = Out_Of_Fuel"
  by (induction fuel) simp_all

text \<open>
  C25: on a corrupt container the loops do not move on.  Where the first member of an object or array
  has a tag that is no tag of the format its size is 0: \<open>opo_val_member_count\<close> is still running after
  less than \<open>2 ^ 31\<close> rounds, and then its counter overflows; in an object \<open>opo_val_get\<close> of any key is
  still running whatever the fuel.
\<close>

theorem corrupt_container_never_returns:
  assumes "rd m p = Some (tag c)" and "c = VAL_OBJ \<or> c = VAL_ARRAY"
    and "read_uint32 m (p + 1) = Some (p + 5, n)" and "0 < n"
    and "rd m (p + 5) = Some b" and "switch_tag b = None" and "ok_component key"
  shows "opo_val_member_count fuel err m (Some p) = (if fuel < 2 ^ 31 then Out_Of_Fuel else Fault) \<and>
    (c = VAL_OBJ \<longrightarrow> opo_val_get fuel m (Some p) (Some (join_path [key])) = Out_Of_Fuel)"
proof -
  have stuck: "opo_val_bsize m (Some (p + 5)) = Some 0" "val_key m (p + 5) = Some (None, 0)"
    using assms(5,6) by (simp_all add: opo_val_bsize_def val_key_def)
  have lt: "p + 5 < p + 5 + unat n" using assms(4) by (simp add: word_less_nat_alt)
  have key: "rd (key @ [0]) 0 = Some (hd key)" "hd key \<noteq> 0" "scan_dot (key @ [0]) = Some (length key)"
    using assms(7) scan_dot_append [of key 0 "[]"]
    by (cases key; simp add: rd_def ok_component_def)+
  have "sint (of_nat (length key) :: uint32) \<noteq> 0"
    using assms(7) sint_u32_len [of "length key"] by (simp add: ok_component_def)
  then have "get_step fuel m (Some p) (key @ [0]) (length key) = Out_Of_Fuel" if "c = VAL_OBJ"
    using assms(1,3,7) that find_member_stuck [OF lt stuck]
    by (simp add: get_step_def ok_component_def)
  then have "get_path fuel m (Some p) (key @ [0]) = Out_Of_Fuel" if "c = VAL_OBJ"
    using key that by (subst get_path.simps) simp
  then show ?thesis
    using assms(1,2,3) count_array_stuck [OF lt stuck(1)] count_object_stuck [OF lt stuck(1)]
    by (auto simp: opo_val_member_count_def opo_val_get_def)
qed

theorem corrupt_container_never_returns_witness:
  "\<forall>fuel. opo_val_member_count fuel OPO_ERR_INIT
     (tag VAL_OBJ # be_bytes 4 (1 :: uint32) @ [0xFF]) (Some 0) = (if fuel < 2 ^ 31 then Out_Of_Fuel else Fault)"
proof
  fix fuel
  let ?m = "tag VAL_OBJ # be_bytes 4 (1 :: uint32) @ [0xFF]"
  have "read_uint32 ?m (0 + 1) = Some (0 + 5, 1)"
    using u32.read_at [of ?m 1 1] by (simp add: bytes_at_def)
  moreover have "rd ?m (0 + 5) = Some 0xFF"
    by (simp add: rd_def nth_append)
  moreover have "switch_tag 0xFF = None"
    by (simp add: switch_tag_def enum_ValType_def tag.simps)
  ultimately show "opo_val_member_count fuel OPO_ERR_INIT ?m (Some 0) = (if fuel < 2 ^ 31 then Out_Of_Fuel else Fault)"
    using corrupt_container_never_returns [of ?m 0 VAL_OBJ 1 "0xFF" "[0x61]" fuel OPO_ERR_INIT]
    by (simp add: rd_def ok_component_def component_index_def strtol10_def is_space_def is_digit_def)
qed

end
