(* ===== verification/CTime.thy ===== *)
theory CTime imports LibC begin

text \<open>
  The calendar functions of the C library the sources call, \<open>gmtime_r\<close> and \<open>timegm\<close>, as the
  proleptic Gregorian calendar POSIX prescribes, and the conversion
  \<open>"%04d-%02d-%02dT%02d:%02d:%02d.%09ldZ"\<close> of a broken-down time.
\<close>

record tm =
  tm_year :: int
  tm_mon :: int
  tm_mday :: int
  tm_hour :: int
  tm_min :: int
  tm_sec :: int

section \<open>Days and years\<close>

text \<open>Days from the epoch to January 1 of year \<open>y\<close>.\<close>

definition year_start :: "int \<Rightarrow> int" where
  "year_start y = 365 * y + (y - 1) div 4 - (y - 1) div 100 + (y - 1) div 400 - 719527"

definition leap :: "int \<Rightarrow> bool" where
  "leap y \<longleftrightarrow> y mod 4 = 0 \<and> (y mod 100 \<noteq> 0 \<or> y mod 400 = 0)"

lemma year_start_epoch: "year_start 1970 = 0"
  by (simp add: year_start_def)

text \<open>
  The year a day lies in: the estimate from the mean length of a year is off by at most one.
\<close>

definition year_of_day :: "int \<Rightarrow> int" where
  "year_of_day d =
     (let y = (400 * (d + 719527)) div 146097
      in if year_start (y + 1) \<le> d then y + 1 else if d < year_start y then y - 1 else y)"

text \<open>Days from January 1 to the first of month \<open>m\<close> (0 to 11; 12 is the end of the year).\<close>

definition month_start :: "bool \<Rightarrow> int \<Rightarrow> int" where
  "month_start l m =
     (if m \<le> 0 then 0 else if m = 1 then 31
      else (if l then 1 else 0) +
        (if m = 2 then 59 else if m = 3 then 90 else if m = 4 then 120 else if m = 5 then 151
         else if m = 6 then 181 else if m = 7 then 212 else if m = 8 then 243
         else if m = 9 then 273 else if m = 10 then 304 else if m = 11 then 334 else 365))"

definition month_of_day :: "bool \<Rightarrow> int \<Rightarrow> int" where
  "month_of_day l d = int (length (takeWhile (\<lambda>m. month_start l m \<le> d) [1, 2, 3, 4, 5, 6, 7, 8, 9, 10, 11]))"

section \<open>gmtime_r and timegm\<close>

text \<open>
  \<open>gmtime_r\<close> is NULL when the year does not fit an \<open>int\<close>.  \<open>timegm\<close> accepts fields outside
  their ranges and carries them over.
\<close>

definition gmtime :: "int \<Rightarrow> tm option" where
  "gmtime t =
     (let d = t div 86400; s = t mod 86400; y = year_of_day d; yd = d - year_start y;
          m = month_of_day (leap y) yd
      in if - (2 ^ 31) \<le> y - 1900 \<and> y - 1900 < 2 ^ 31
         then Some \<lparr>tm_year = y - 1900, tm_mon = m, tm_mday = yd - month_start (leap y) m + 1,
                tm_hour = s div 3600, tm_min = s mod 3600 div 60, tm_sec = s mod 60\<rparr>
         else None)"

definition timegm :: "tm \<Rightarrow> int" where
  "timegm tm =
     (let y = 1900 + tm_year tm + tm_mon tm div 12; m = tm_mon tm mod 12;
          d = year_start y + month_start (leap y) m + (tm_mday tm - 1)
      in ((d * 24 + tm_hour tm) * 60 + tm_min tm) * 60 + tm_sec tm)"

section \<open>Text\<close>

definition fmt_int :: "nat \<Rightarrow> int \<Rightarrow> cstr" where
  "fmt_int w i = (if i < 0 then 0x2D # fmt_pad 10 (w - 1) (nat (- i)) else fmt_pad 10 w (nat i))"

definition time_text :: "tm \<Rightarrow> int \<Rightarrow> cstr" where
  "time_text tm frac =
     fmt_int 4 (1900 + tm_year tm) @ [0x2D] @ fmt_int 2 (1 + tm_mon tm) @ [0x2D] @
     fmt_int 2 (tm_mday tm) @ [0x54] @ fmt_int 2 (tm_hour tm) @ [0x3A] @
     fmt_int 2 (tm_min tm) @ [0x3A] @ fmt_int 2 (tm_sec tm) @ [0x2E] @
     fmt_int 9 frac @ [0x5A]"

section \<open>The calendar is a bijection\<close>

lemma year_start_bounds:
  "146097 * y - 287811600 \<le> 400 * year_start y"
  "400 * year_start y \<le> 146097 * y - 287810500"
proof -
  define a b c where "a = (y - 1) div 4" and "b = (y - 1) div 100" and "c = (y - 1) div 400"
  have "4 * a \<le> y - 1" "y - 4 \<le> 4 * a" "100 * b \<le> y - 1" "y - 100 \<le> 100 * b"
    "400 * c \<le> y - 1" "y - 400 \<le> 400 * c"
    unfolding a_def b_def c_def by linarith+
  note bounds = this
  have eq: "400 * year_start y = 146000 * y + 400 * a - 400 * b + 400 * c - 287810800"
    by (simp add: year_start_def a_def b_def c_def)
  show "146097 * y - 287811600 \<le> 400 * year_start y" using eq bounds by linarith
  show "400 * year_start y \<le> 146097 * y - 287810500" using eq bounds by linarith
qed

lemma year_of_day: "year_start (year_of_day d) \<le> d \<and> d < year_start (year_of_day d + 1)"
proof -
  define y where "y = (400 * (d + 719527)) div 146097"
  have y: "146097 * y \<le> 400 * d + 287810800" "400 * d + 287810800 < 146097 * y + 146097"
    unfolding y_def by simp_all
  have "400 * year_start (y - 1) \<le> 400 * d"
    using y(1) year_start_bounds(2) [of "y - 1"] by simp
  moreover have "400 * d < 400 * year_start (y + 1 + 1)"
    using y(2) year_start_bounds(1) [of "y + 1 + 1"] by simp
  ultimately show ?thesis unfolding year_of_day_def Let_def y_def [symmetric] by auto
qed

lemma div_pred:
  fixes y k :: int
  assumes "1 < k"
  shows "y div k = (y - 1) div k + (if y mod k = 0 then 1 else 0)"
proof -
  define q r where "q = y div k" and "r = y mod k"
  have y: "y = k * q + r" "0 \<le> r" "r < k" using assms by (simp_all add: q_def r_def)
  show ?thesis
  proof (cases "r = 0")
    case True
    then have "(y - 1) div k = q - 1"
      using y assms by (intro int_div_pos_eq [of _ _ _ "k - 1"]) (simp_all add: algebra_simps)
    with True show ?thesis by (simp add: q_def r_def)
  next
    case False
    then have "(y - 1) div k = q"
      using y assms by (intro int_div_pos_eq [of _ _ _ "r - 1"]) (simp_all add: algebra_simps)
    with False show ?thesis by (simp add: q_def r_def)
  qed
qed

lemma mod_400:
  fixes y :: int
  shows "y mod 400 = 0 \<Longrightarrow> y mod 100 = 0" and "y mod 100 = 0 \<Longrightarrow> y mod 4 = 0"
proof -
  have "y mod 400 mod 100 = y mod 100" "y mod 100 mod 4 = y mod 4"
    by (rule mod_mod_cancel, simp)+
  then show "y mod 400 = 0 \<Longrightarrow> y mod 100 = 0" and "y mod 100 = 0 \<Longrightarrow> y mod 4 = 0"
    by force+
qed

lemma year_length: "year_start (y + 1) = year_start y + (if leap y then 366 else 365)"
proof -
  have *: "365 + (if A then 1 else 0) - (if B then 1 else 0) + (if C then 1 else 0) =
      (if A \<and> (\<not> B \<or> C) then 366 else 365 :: int)" if "C \<longrightarrow> B" and "B \<longrightarrow> A" for A B C
    using that by (cases A; cases B; cases C) simp_all
  have **: "365 * (y + 1) + d - e + f - n = 365 * y + d' - e' + f' - n + (365 + a - b + c)"
    if "d = d' + a" and "e = e' + b" and "f = f' + c" for d d' e e' f f' a b c n :: int
    using that by simp
  have "year_start (y + 1) = 365 * (y + 1) + y div 4 - y div 100 + y div 400 - 719527"
    unfolding year_start_def add_diff_cancel_right' by (rule refl)
  also have "\<dots> = year_start y + (365 + (if y mod 4 = 0 then 1 else 0) -
      (if y mod 100 = 0 then 1 else 0) + (if y mod 400 = 0 then 1 else 0))"
    unfolding year_start_def by (rule ** [OF div_pred div_pred div_pred]) simp_all
  also have "\<dots> = year_start y + (if leap y then 366 else 365)"
    unfolding leap_def by (simp only: * [of "y mod 400 = 0" "y mod 100 = 0" "y mod 4 = 0", OF impI impI, OF mod_400])
  finally show ?thesis .
qed

lemma month_of_day_range: "0 \<le> month_of_day l d \<and> month_of_day l d < 12"
proof -
  have "length (takeWhile P [1, 2, 3, 4, 5, 6, 7, 8, 9, 10, 11 :: int]) \<le> 11" for P
    using length_takeWhile_le [of P "[1, 2, 3, 4, 5, 6, 7, 8, 9, 10, 11 :: int]"] by simp
  then show ?thesis by (simp add: month_of_day_def less_Suc_eq_le flip: of_nat_le_iff)
qed

lemma month_of_day_bounds:
  assumes "0 \<le> d" and "d < (if l then 366 else 365)"
  shows "month_start l (month_of_day l d) \<le> d \<and> d < month_start l (month_of_day l d + 1)"
  using assms unfolding month_of_day_def by (cases l) (simp_all add: month_start_def)

lemma month_length: "0 \<le> m \<Longrightarrow> m < 12 \<Longrightarrow> month_start l (m + 1) \<le> month_start l m + 31"
  by (simp add: month_start_def)

text \<open>\<open>timegm\<close> undoes \<open>gmtime_r\<close>, and the fields \<open>gmtime_r\<close> sets are in range.\<close>

lemma clock_digits:
  fixes s d :: int
  shows "((d * 24 + s div 3600) * 60 + s mod 3600 div 60) * 60 + s mod 60 = d * 86400 + s"
proof -
  have *: "((d * 24 + a) * 60 + c) * 60 + e = d * 86400 + s"
    if "a * 3600 + b = s" and "c * 60 + e = b" for a b c e
    using that by simp
  have h: "s div 3600 * 3600 + s mod 3600 = s" by (rule div_mult_mod_eq)
  have "s mod 3600 div 60 * 60 + s mod 3600 mod 60 = s mod 3600" by (rule div_mult_mod_eq)
  moreover have "s mod 3600 mod 60 = s mod 60" by (rule mod_mod_cancel) simp
  ultimately have "s mod 3600 div 60 * 60 + s mod 60 = s mod 3600" by (simp only:)
  with h show ?thesis by (rule *)
qed

text \<open>The fields \<open>gmtime_r\<close> sets, in terms of the day of the year and the second of the day.\<close>

lemma gmtime_Some:
  assumes "gmtime t = Some tm"
  obtains y d m s where "t = (year_start y + d) * 86400 + s"
    and "0 \<le> d" and "d < (if leap y then 366 else 365)" and "0 \<le> s" and "s < 86400"
    and "0 \<le> m" and "m < 12" and "month_start (leap y) m \<le> d" and "d < month_start (leap y) m + 31"
    and "tm = \<lparr>tm_year = y - 1900, tm_mon = m, tm_mday = d - month_start (leap y) m + 1,
      tm_hour = s div 3600, tm_min = s mod 3600 div 60, tm_sec = s mod 60\<rparr>"
proof -
  define y where "y = year_of_day (t div 86400)"
  define d s where "d = t div 86400 - year_start y" and "s = t mod 86400"
  define m where "m = month_of_day (leap y) d"
  have d: "0 \<le> d" "d < (if leap y then 366 else 365)"
    using year_of_day [of "t div 86400"] year_length [of y] by (simp_all add: d_def y_def)
  have m: "0 \<le> m" "m < 12" using month_of_day_range by (simp_all add: m_def)
  have md: "month_start (leap y) m \<le> d" "d < month_start (leap y) m + 31"
    using month_of_day_bounds [OF d] month_length [OF m, of "leap y"] by (simp_all add: m_def)
  have "tm = \<lparr>tm_year = y - 1900, tm_mon = m, tm_mday = d - month_start (leap y) m + 1,
      tm_hour = s div 3600, tm_min = s mod 3600 div 60, tm_sec = s mod 60\<rparr>"
    using assms unfolding gmtime_def Let_def y_def [symmetric] d_def [symmetric]
      m_def [symmetric] s_def [symmetric] by (simp only: option.inject option.distinct split: if_splits)
  moreover have "t = (year_start y + d) * 86400 + s" "0 \<le> s" "s < 86400"
    by (simp_all add: d_def s_def)
  ultimately show thesis using that d m md by blast
qed

lemma timegm_gmtime:
  assumes "gmtime t = Some tm"
  shows "timegm tm = t"
  using assms
proof (rule gmtime_Some)
  fix y d m s
  assume t: "t = (year_start y + d) * 86400 + s" and m: "0 \<le> m" "m < 12"
    and tm: "tm = \<lparr>tm_year = y - 1900, tm_mon = m, tm_mday = d - month_start (leap y) m + 1,
      tm_hour = s div 3600, tm_min = s mod 3600 div 60, tm_sec = s mod 60\<rparr>"
  from m have "m div 12 = 0" "m mod 12 = m" by simp_all
  then have "timegm tm = (((year_start y + d) * 24 + s div 3600) * 60 + s mod 3600 div 60) * 60 + s mod 60"
    by (simp add: tm timegm_def)
  then show ?thesis by (simp only: clock_digits t)
qed

lemma gmtime_fields:
  assumes "gmtime t = Some tm"
  shows "0 \<le> tm_mon tm \<and> tm_mon tm < 12 \<and> 1 \<le> tm_mday tm \<and> tm_mday tm \<le> 31 \<and>
    0 \<le> tm_hour tm \<and> tm_hour tm < 24 \<and> 0 \<le> tm_min tm \<and> tm_min tm < 60 \<and>
    0 \<le> tm_sec tm \<and> tm_sec tm < 60"
  using assms
proof (rule gmtime_Some)
  fix y d m s
  assume m: "0 \<le> m" "m < 12" and d: "month_start (leap y) m \<le> d" "d < month_start (leap y) m + 31"
    and s: "0 \<le> s" "s < 86400"
    and tm: "tm = \<lparr>tm_year = y - 1900, tm_mon = m, tm_mday = d - month_start (leap y) m + 1,
      tm_hour = s div 3600, tm_min = s mod 3600 div 60, tm_sec = s mod 60\<rparr>"
  have *: "0 \<le> x div k \<and> x div k < l" if "0 \<le> x" "x < l * k" "0 < k" for x k l :: int
  proof
    show "0 \<le> x div k" using that by (simp add: pos_imp_zdiv_nonneg_iff)
    have "x div k * k \<le> x" using that(3) by (simp add: minus_mod_eq_div_mult [symmetric])
    with that show "x div k < l" by (meson le_less_trans mult_less_cancel_right_pos)
  qed
  have "0 \<le> s div 3600 \<and> s div 3600 < 24" using s by (intro *) simp_all
  moreover have "0 \<le> s mod 3600 div 60 \<and> s mod 3600 div 60 < 60" by (intro *) simp_all
  moreover have "0 \<le> s mod 60" "s mod 60 < 60" by simp_all
  ultimately show ?thesis using m d by (simp only: tm tm.simps) simp
qed

text \<open>Any number of nanoseconds in 64 bits is a time \<open>gmtime_r\<close> knows.\<close>

lemma gmtime_near:
  assumes "- 300000 * 86400 \<le> t" and "t < 300000 * 86400"
  shows "\<exists>tm. gmtime t = Some tm"
proof -
  define d where "d = t div 86400"
  have d: "- 300000 \<le> d" "d < 300000" using assms by (simp_all add: d_def)
  define y where "y = year_of_day d"
  have "year_start y \<le> d" "d < year_start (y + 1)" using year_of_day [of d] by (simp_all add: y_def)
  with d year_start_bounds(1) [of y] year_start_bounds(2) [of "y + 1"]
  have "y \<le> 3000" "1000 \<le> y" by simp_all
  then show ?thesis by (simp add: gmtime_def Let_def flip: d_def y_def)
qed

text \<open>The year of a time, from its day.\<close>

lemma gmtime_year_start:
  assumes "gmtime t = Some tm"
  shows "year_start (1900 + tm_year tm) \<le> t div 86400 \<and> t div 86400 < year_start (1901 + tm_year tm)"
proof -
  from assms obtain y d s where t: "t = (year_start y + d) * 86400 + s" "0 \<le> s" "s < 86400" "0 \<le> d"
    "d < (if leap y then 366 else 365)" and y: "tm_year tm = y - 1900"
    by (elim gmtime_Some) simp
  have "t div 86400 = year_start y + d" using t(1-3) by simp
  with t(4,5) y year_length [of y] show ?thesis by (simp add: add.commute)
qed

lemma year_start_mono: "y \<le> z \<Longrightarrow> year_start y \<le> year_start z"
  by (induction rule: int_ge_induct) (simp_all add: year_length)

lemma gmtime_epoch:
  assumes "gmtime t = Some tm"
  shows "70 \<le> tm_year tm \<longleftrightarrow> 0 \<le> t"
proof -
  have "0 \<le> t div 86400" if "70 \<le> tm_year tm"
    using that gmtime_year_start [OF assms] year_start_mono [of 1970 "1900 + tm_year tm"]
    by (simp add: year_start_epoch)
  moreover have "t div 86400 < 0" if "\<not> 70 \<le> tm_year tm"
    using that gmtime_year_start [OF assms] year_start_mono [of "1901 + tm_year tm" 1970]
    by (simp add: year_start_epoch)
  ultimately show ?thesis
    by (cases "70 \<le> tm_year tm") (simp_all add: pos_imp_zdiv_nonneg_iff pos_imp_zdiv_neg_iff not_le)
qed

lemma gmtime_year:
  assumes "gmtime t = Some tm"
  shows "146097 * (1900 + tm_year tm) - 287811600 \<le> 400 * (t div 86400)"
    and "400 * (t div 86400) < 146097 * (1901 + tm_year tm) - 287810500"
  using gmtime_year_start [OF assms] year_start_bounds(1) [of "1900 + tm_year tm"]
    year_start_bounds(2) [of "1901 + tm_year tm"] by simp_all

end
