(* ===== verification/Iterate.thy ===== *)
theory Iterate imports Val CTime "HOL-Library.Signed_Division" begin

text \<open>
  The callback iteration of \<^verbatim>\<open>val.c\<close>: \<open>val_iterate\<close> walks the values between two pointers and
  calls the client's functions, descending into objects and arrays.
\<close>

section \<open>The callbacks (val.h)\<close>

text \<open>
  \<open>None\<close> is a NULL function pointer.  A callback gets the error struct and the client's context
  and may change both; its result tells whether to go on.  A string argument is a pointer into
  the message and a length, the text of a UUID or a time a string of its own.
\<close>

type_synonym 'c reply = "bool \<times> opoErr \<times> 'c"

record 'c opoValCallbacks =
  begin_object :: "(opoErr \<Rightarrow> 'c \<Rightarrow> 'c reply) option"
  end_object :: "(opoErr \<Rightarrow> 'c \<Rightarrow> 'c reply) option"
  key_cb :: "(opoErr \<Rightarrow> ptr \<Rightarrow> int \<Rightarrow> 'c \<Rightarrow> 'c reply) option"
  begin_array :: "(opoErr \<Rightarrow> 'c \<Rightarrow> 'c reply) option"
  end_array :: "(opoErr \<Rightarrow> 'c \<Rightarrow> 'c reply) option"
  null_cb :: "(opoErr \<Rightarrow> 'c \<Rightarrow> 'c reply) option"
  boolean_cb :: "(opoErr \<Rightarrow> bool \<Rightarrow> 'c \<Rightarrow> 'c reply) option"
  fixnum_cb :: "(opoErr \<Rightarrow> int64 \<Rightarrow> 'c \<Rightarrow> 'c reply) option"
  decimal_cb :: "(opoErr \<Rightarrow> double \<Rightarrow> 'c \<Rightarrow> 'c reply) option"
  string_cb :: "(opoErr \<Rightarrow> ptr \<Rightarrow> int \<Rightarrow> 'c \<Rightarrow> 'c reply) option"
  uuid_cb :: "(opoErr \<Rightarrow> uint64 \<Rightarrow> uint64 \<Rightarrow> 'c \<Rightarrow> 'c reply) option"
  uuid_str_cb :: "(opoErr \<Rightarrow> cstr \<Rightarrow> 'c \<Rightarrow> 'c reply) option"
  time_cb :: "(opoErr \<Rightarrow> int64 \<Rightarrow> 'c \<Rightarrow> 'c reply) option"
  time_str_cb :: "(opoErr \<Rightarrow> cstr \<Rightarrow> 'c \<Rightarrow> 'c reply) option"

section \<open>One value\<close>

text \<open>\<open>if (NULL != cb) cont = cb(...)\<close>, entered with \<open>cont\<close> true.\<close>

definition call_cb :: "'f option \<Rightarrow> ('f \<Rightarrow> 'c reply) \<Rightarrow> opoErr \<Rightarrow> 'c \<Rightarrow> 'c reply" where
  "call_cb cb f err c = (case cb of None \<Rightarrow> (True, err, c) | Some cb \<Rightarrow> f cb)"

text \<open>A call whose result is thrown away.\<close>

definition ignoring :: "'c reply \<Rightarrow> 'c reply" where
  "ignoring r = (case r of (_, err, c) \<Rightarrow> (True, err, c))"

text \<open>
  The time callbacks.  \<open>int64_t\<close> division truncates towards zero.
\<close>

definition time_string :: "int64 \<Rightarrow> cstr option" where
  "time_string nsec =
     (let ns = sint nsec;
          t = ns sdiv 1000000000;
          frac = ns - t * 1000000000;
          frac = (if frac < 0 then - frac else frac)
      in map_option (\<lambda>tm. time_text tm frac) (gmtime t))"

text \<open>
  The branches of the \<open>switch\<close> but those of objects and arrays; \<open>val\<close> is behind the tag, and
  \<open>cont\<close> is true whenever the \<open>switch\<close> is entered.
\<close>

definition iterate_scalar ::
    "(cstr \<Rightarrow> double) \<Rightarrow> mem \<Rightarrow> 'c opoValCallbacks \<Rightarrow> ValType option \<Rightarrow> opoErr \<Rightarrow> 'c \<Rightarrow> ptr \<Rightarrow>
     ('c reply \<times> ptr) option" where
  "iterate_scalar strtod m cbs t err c val =
     (case t of
        Some VAL_NULL \<Rightarrow> Some (call_cb (null_cb cbs) (\<lambda>f. f err c) err c, val)
      | Some VAL_TRUE \<Rightarrow> Some (call_cb (boolean_cb cbs) (\<lambda>f. f err True c) err c, val)
      | Some VAL_FALSE \<Rightarrow> Some (call_cb (boolean_cb cbs) (\<lambda>f. f err False c) err c, val)
      | Some VAL_INT1 \<Rightarrow> (case fixnum_cb cbs of
            None \<Rightarrow> Some ((True, err, c), val + 1)
          | Some f \<Rightarrow> do { b \<leftarrow> rd m val; Some (f err (scast b) c, val + 1) })
      | Some VAL_INT2 \<Rightarrow> (case fixnum_cb cbs of
            None \<Rightarrow> Some ((True, err, c), val + 2)
          | Some f \<Rightarrow> do { (val, num) \<leftarrow> read_uint16 m val; Some (f err (scast num) c, val) })
      | Some VAL_INT4 \<Rightarrow> (case fixnum_cb cbs of
            None \<Rightarrow> Some ((True, err, c), val + 4)
          | Some f \<Rightarrow> do { (val, num) \<leftarrow> read_uint32 m val; Some (f err (scast num) c, val) })
      | Some VAL_INT8 \<Rightarrow> (case fixnum_cb cbs of
            None \<Rightarrow> Some ((True, err, c), val + 8)
          | Some f \<Rightarrow> do { (val, num) \<leftarrow> read_uint64 m val; Some (f err num c, val) })
      | Some VAL_STR1 \<Rightarrow> do {
          len \<leftarrow> rd m val;
          let val = val + 1;
          Some (call_cb (string_cb cbs) (\<lambda>f. f err val (uint len) c) err c, val + (unat len + 1))
        }
      | Some VAL_STR2 \<Rightarrow> do {
          (val, len) \<leftarrow> read_uint16 m val;
          Some (call_cb (string_cb cbs) (\<lambda>f. f err val (uint len) c) err c, val + (unat len + 1))
        }
      | Some VAL_STR4 \<Rightarrow> do {
          (val, len) \<leftarrow> read_uint32 m val;
          Some (call_cb (string_cb cbs) (\<lambda>f. f err val (sint len) c) err c, val + unat (len + 1))
        }
      | Some VAL_KEY1 \<Rightarrow> do {
          len \<leftarrow> rd m val;
          let val = val + 1;
          Some (call_cb (key_cb cbs) (\<lambda>f. f err val (uint len) c) err c, val + (unat len + 1))
        }
      | Some VAL_KEY2 \<Rightarrow> do {
          (val, len) \<leftarrow> read_uint16 m val;
          Some (call_cb (key_cb cbs) (\<lambda>f. f err val (uint len) c) err c, val + (unat len + 1))
        }
      | Some VAL_DEC \<Rightarrow> do {
          len \<leftarrow> rd m val;
          let val = val + 1;
          case decimal_cb cbs of
            None \<Rightarrow> Some ((True, err, c), val + unat len)
          | Some f \<Rightarrow> do {
              buf \<leftarrow> rd_range m val (unat len);
              Some (f err (strtod (buf @ [0])) c, val + unat len)
            }
        }
      | Some VAL_UUID \<Rightarrow>
          (if uuid_cb cbs \<noteq> None \<or> uuid_str_cb cbs \<noteq> None then do {
             (val, hi) \<leftarrow> read_uint64 m val;
             (val, lo) \<leftarrow> read_uint64 m val;
             Some (case uuid_cb cbs of
                 Some f \<Rightarrow> ignoring (f err hi lo c)
               | None \<Rightarrow> ignoring (call_cb (uuid_str_cb cbs) (\<lambda>f. f err (uuid_text hi lo) c) err c),
               val)
           }
           else Some ((True, err, c), val + 16))
      | Some VAL_TIME \<Rightarrow>
          (if time_cb cbs \<noteq> None \<or> time_str_cb cbs \<noteq> None then do {
             (val, nsec) \<leftarrow> read_uint64 m val;
             Some (case time_cb cbs of
                 Some f \<Rightarrow> ignoring (f err nsec c)
               | None \<Rightarrow> (case time_string nsec of
                     None \<Rightarrow> (True, err_set err OPO_ERR_PARSE ''invalid time'', c)
                   | Some s \<Rightarrow> ignoring (call_cb (time_str_cb cbs) (\<lambda>f. f err s c) err c)),
               val)
           }
           else Some ((True, err, c), val + 8))
      | _ \<Rightarrow> Some ((True, err_set err OPO_ERR_PARSE ''corrupt message format'', c), val))"

section \<open>The loop\<close>

text \<open>
  Every round moves \<open>val\<close> on by at least the tag it has read inside the message, so the loop ends
  on any bytes.
\<close>

text \<open>\<open>if (NULL != callbacks->end && cont) cont = callbacks->end(err, ctx)\<close>\<close>

definition end_cb :: "(opoErr \<Rightarrow> 'c \<Rightarrow> 'c reply) option \<Rightarrow> 'c reply \<Rightarrow> 'c reply" where
  "end_cb cb r = (case r of (cont, err, c) \<Rightarrow>
     if cont then call_cb cb (\<lambda>f. f err c) err c else (cont, err, c))"

lemma iterate_scalar_le: "iterate_scalar strtod m cbs t err c val = Some (r, val') \<Longrightarrow> val \<le> val'"
  unfolding iterate_scalar_def
  by (cases "the t"; cases t)
    (auto split: option.splits if_splits simp: bind_eq_Some_conv u16.read_iff u32.read_iff u64.read_iff)

lemma read_uint32_le: "read_uint32 m p = Some (q, n) \<Longrightarrow> q = p + 4"
  by (simp add: u32.read_iff)

function val_iterate ::
    "(cstr \<Rightarrow> double) \<Rightarrow> mem \<Rightarrow> 'c opoValCallbacks \<Rightarrow> opoErr \<Rightarrow> ptr \<Rightarrow> 'c \<Rightarrow> ptr \<Rightarrow> 'c reply option" where
  "val_iterate strtod m cbs err val c endp =
     (if val < endp then do {
        t \<leftarrow> rd m val;
        let val = val + 1;
        (r, val) \<leftarrow>
          (if switch_tag t = Some VAL_OBJ then
             (case call_cb (begin_object cbs) (\<lambda>f. f err c) err c of (cont, err, c) \<Rightarrow>
                if cont then do {
                  (val, size) \<leftarrow> read_uint32 m val;
                  r \<leftarrow> val_iterate strtod m cbs err val c (val + unat size);
                  Some (end_cb (end_object cbs) r, val + unat size)
                }
                else Some ((cont, err, c), val))
           else if switch_tag t = Some VAL_ARRAY then
             (case call_cb (begin_array cbs) (\<lambda>f. f err c) err c of (cont, err, c) \<Rightarrow>
                if cont then do {
                  (val, size) \<leftarrow> read_uint32 m val;
                  r \<leftarrow> val_iterate strtod m cbs err val c (val + unat size);
                  Some (end_cb (end_array cbs) r, val + unat size)
                }
                else Some ((cont, err, c), val))
           else iterate_scalar strtod m cbs (switch_tag t) err c val);
        case r of (cont, err, c) \<Rightarrow>
          if \<not> cont \<or> OPO_ERR_OK \<noteq> ecode err then Some (cont, err, c)
          else val_iterate strtod m cbs err val c endp
      }
      else Some (True, err, c))"
  by pat_completeness auto

termination
proof (relation "measure (\<lambda>(strtod, m, cbs, err, val, c, endp). length m - val)", goal_cases)
  case 1
  show ?case by simp
next
  case 2
  then show ?case by (auto dest!: rd_Some_less read_uint32_le)
next
  case 3
  then show ?case by (auto dest!: rd_Some_less read_uint32_le)
next
  case 4
  then show ?case
    by (auto split: if_splits prod.splits simp: bind_eq_Some_conv dest!: rd_Some_less iterate_scalar_le read_uint32_le)
qed

definition opo_val_iterate ::
    "(cstr \<Rightarrow> double) \<Rightarrow> opoErr \<Rightarrow> mem \<Rightarrow> ptr \<Rightarrow> 'c opoValCallbacks \<Rightarrow> 'c \<Rightarrow> (int \<times> opoErr \<times> 'c) option" where
  "opo_val_iterate strtod err m val cbs c = do {
     (_, err, c) \<leftarrow> val_iterate strtod m cbs err val c (val + 1);
     Some (ecode err, err, c)
   }"

declare val_iterate.simps [simp del]

section \<open>The events of a value\<close>

text \<open>What a client is to see, in order; a string or a key is where its characters lie.\<close>

datatype event =
    EBeginObject | EEndObject | EBeginArray | EEndArray
  | EKey ptr int | ENull | EBool bool | EInt int64 | EString ptr int
  | EDec "byte list" | EUuid uint64 uint64 | ETime int64

fun scalar_event :: "wire \<Rightarrow> ptr \<Rightarrow> event" where
  "scalar_event (WBool b) p = EBool b"
| "scalar_event (WInt1 n) p = EInt (scast n)"
| "scalar_event (WInt2 n) p = EInt (scast n)"
| "scalar_event (WInt4 n) p = EInt (scast n)"
| "scalar_event (WInt8 n) p = EInt n"
| "scalar_event (WStr1 bs) p = EString (p + 2) (int (length bs))"
| "scalar_event (WStr2 bs) p = EString (p + 3) (int (length bs))"
| "scalar_event (WStr4 bs) p = EString (p + 5) (sint (of_nat (length bs) :: uint32))"
| "scalar_event (WDec bs) p = EDec bs"
| "scalar_event (WUuid hi lo) p = EUuid hi lo"
| "scalar_event (WTime t) p = ETime t"
| "scalar_event _ p = ENull"

fun key_event :: "wkey \<Rightarrow> ptr \<Rightarrow> event" where
  "key_event (WKey1 bs) p = EKey (p + 2) (int (length bs))"
| "key_event (WKey2 bs) p = EKey (p + 3) (int (length bs))"

fun events :: "wire \<Rightarrow> ptr \<Rightarrow> event list"
  and events_members :: "(wkey \<times> wire) list \<Rightarrow> ptr \<Rightarrow> event list"
  and events_elements :: "wire list \<Rightarrow> ptr \<Rightarrow> event list" where
  "events (WObj kvs) p = EBeginObject # events_members kvs (p + 5) @ [EEndObject]"
| "events (WArr ws) p = EBeginArray # events_elements ws (p + 5) @ [EEndArray]"
| "events w p = [scalar_event w p]"
| "events_members [] p = []"
| "events_members ((k, w) # kvs) p =
     key_event k p # events w (p + length (enc_key k)) @
     events_members kvs (p + length (enc_key k) + length (enc w))"
| "events_elements [] p = []"
| "events_elements (w # ws) p = events w p @ events_elements ws (p + length (enc w))"

text \<open>
  Telling the client of one event, as \<^verbatim>\<open>val.h\<close> documents the callbacks: what the callback
  returns says whether to go on, and a missing one goes on.
\<close>

fun fire :: "(cstr \<Rightarrow> double) \<Rightarrow> 'c opoValCallbacks \<Rightarrow> event \<Rightarrow> opoErr \<Rightarrow> 'c \<Rightarrow> 'c reply" where
  "fire strtod cbs EBeginObject err c = call_cb (begin_object cbs) (\<lambda>f. f err c) err c"
| "fire strtod cbs EEndObject err c = call_cb (end_object cbs) (\<lambda>f. f err c) err c"
| "fire strtod cbs EBeginArray err c = call_cb (begin_array cbs) (\<lambda>f. f err c) err c"
| "fire strtod cbs EEndArray err c = call_cb (end_array cbs) (\<lambda>f. f err c) err c"
| "fire strtod cbs (EKey p n) err c = call_cb (key_cb cbs) (\<lambda>f. f err p n c) err c"
| "fire strtod cbs ENull err c = call_cb (null_cb cbs) (\<lambda>f. f err c) err c"
| "fire strtod cbs (EBool b) err c = call_cb (boolean_cb cbs) (\<lambda>f. f err b c) err c"
| "fire strtod cbs (EInt i) err c = call_cb (fixnum_cb cbs) (\<lambda>f. f err i c) err c"
| "fire strtod cbs (EString p n) err c = call_cb (string_cb cbs) (\<lambda>f. f err p n c) err c"
| "fire strtod cbs (EDec bs) err c = call_cb (decimal_cb cbs) (\<lambda>f. f err (strtod (bs @ [0])) c) err c"
| "fire strtod cbs (EUuid hi lo) err c = (case uuid_cb cbs of
       Some f \<Rightarrow> f err hi lo c
     | None \<Rightarrow> call_cb (uuid_str_cb cbs) (\<lambda>f. f err (uuid_text hi lo) c) err c)"
| "fire strtod cbs (ETime t) err c = (case time_cb cbs of
       Some f \<Rightarrow> f err t c
     | None \<Rightarrow> call_cb (time_str_cb cbs) (\<lambda>f. f err (the (time_string t)) c) err c)"

fun run_events ::
    "(cstr \<Rightarrow> double) \<Rightarrow> 'c opoValCallbacks \<Rightarrow> event list \<Rightarrow> opoErr \<Rightarrow> 'c \<Rightarrow> 'c reply" where
  "run_events strtod cbs [] err c = (True, err, c)"
| "run_events strtod cbs (e # es) err c =
     (case fire strtod cbs e err c of (cont, err, c) \<Rightarrow>
        if cont then run_events strtod cbs es err c else (cont, err, c))"

text \<open>
  The callbacks of a client that never asks to stop at a UUID or a time, and those of one that
  reports no error of its own.
\<close>

definition obeyed :: "(cstr \<Rightarrow> double) \<Rightarrow> 'c opoValCallbacks \<Rightarrow> bool" where
  "obeyed strtod cbs \<longleftrightarrow> (\<forall>hi lo err c. fst (fire strtod cbs (EUuid hi lo) err c)) \<and>
     (\<forall>t err c. fst (fire strtod cbs (ETime t) err c))"

definition quiet :: "(cstr \<Rightarrow> double) \<Rightarrow> 'c opoValCallbacks \<Rightarrow> bool" where
  "quiet strtod cbs \<longleftrightarrow> (\<forall>e err c. fst (snd (fire strtod cbs e err c)) = err)"

section \<open>Lemmas\<close>

lemma time_string_Some: "\<exists>s. time_string t = Some s"
proof -
  have "- (2 ^ 63) \<le> sint t" "sint t < 2 ^ 63"
    using sint_ge [of t] sint_lt [of t] by simp_all
  then have "\<bar>sint t\<bar> div 1000000000 \<le> 2 ^ 63 div 1000000000"
    by (intro zdiv_mono1) simp_all
  then have "- 300000 * 86400 \<le> sint t sdiv 1000000000" "sint t sdiv 1000000000 < 300000 * 86400"
    by (auto simp: signed_divide_int_def sgn_if abs_if split: if_splits)
  from gmtime_near [OF this] show ?thesis by (auto simp: time_string_def Let_def)
qed

lemma time_string_not_None [simp]: "time_string t \<noteq> None"
  using time_string_Some [of t] by auto

text \<open>The callbacks as the code hears them: those of a UUID and a time never stop it.\<close>

definition heard :: "'c opoValCallbacks \<Rightarrow> 'c opoValCallbacks" where
  "heard cbs = cbs\<lparr>uuid_cb := map_option (\<lambda>f err hi lo c. ignoring (f err hi lo c)) (uuid_cb cbs),
     uuid_str_cb := map_option (\<lambda>f err s c. ignoring (f err s c)) (uuid_str_cb cbs),
     time_cb := map_option (\<lambda>f err t c. ignoring (f err t c)) (time_cb cbs),
     time_str_cb := map_option (\<lambda>f err s c. ignoring (f err s c)) (time_str_cb cbs)\<rparr>"

lemma ignoring_twice [simp]: "ignoring (ignoring r) = ignoring r"
  by (simp add: ignoring_def split: prod.split)

lemma ignoring_obeyed: "fst r \<Longrightarrow> ignoring r = r"
  by (cases r) (simp add: ignoring_def)

lemma fire_heard:
  "fire strtod (heard cbs) e err c =
     (case e of EUuid hi lo \<Rightarrow> ignoring (fire strtod cbs e err c)
      | ETime t \<Rightarrow> ignoring (fire strtod cbs e err c) | _ \<Rightarrow> fire strtod cbs e err c)"
  by (cases e) (auto simp: heard_def call_cb_def ignoring_def split: option.split)

lemma heard_simps [simp]:
  "begin_object (heard cbs) = begin_object cbs" "end_object (heard cbs) = end_object cbs"
  "begin_array (heard cbs) = begin_array cbs" "end_array (heard cbs) = end_array cbs"
  "key_cb (heard cbs) = key_cb cbs" "null_cb (heard cbs) = null_cb cbs" "boolean_cb (heard cbs) = boolean_cb cbs"
  "fixnum_cb (heard cbs) = fixnum_cb cbs" "string_cb (heard cbs) = string_cb cbs" "decimal_cb (heard cbs) = decimal_cb cbs"
  "uuid_cb (heard cbs) = map_option (\<lambda>f err hi lo c. ignoring (f err hi lo c)) (uuid_cb cbs)"
  "uuid_str_cb (heard cbs) = map_option (\<lambda>f err s c. ignoring (f err s c)) (uuid_str_cb cbs)"
  "time_cb (heard cbs) = map_option (\<lambda>f err t c. ignoring (f err t c)) (time_cb cbs)"
  "time_str_cb (heard cbs) = map_option (\<lambda>f err s c. ignoring (f err s c)) (time_str_cb cbs)"
  by (simp_all add: heard_def)

lemma snd_ignoring [simp]: "snd (ignoring r) = snd r"
  by (simp add: ignoring_def split: prod.split)

lemma snd_fire_heard: "snd (fire strtod (heard cbs) e err c) = snd (fire strtod cbs e err c)"
  unfolding fire_heard by (cases e) simp_all

lemma quiet_heard: "quiet strtod cbs \<Longrightarrow> quiet strtod (heard cbs)"
  unfolding quiet_def snd_fire_heard .

lemma fire_heard_obeyed: "obeyed strtod cbs \<Longrightarrow> fire strtod (heard cbs) e err c = fire strtod cbs e err c"
  unfolding fire_heard obeyed_def by (cases e) (simp_all add: ignoring_obeyed)

lemma run_heard_obeyed: "obeyed strtod cbs \<Longrightarrow> run_events strtod (heard cbs) es err c = run_events strtod cbs es err c"
  by (induction es arbitrary: err c) (simp_all add: fire_heard_obeyed split: prod.split)

lemma scalar_heard: "iterate_scalar strtod m (heard cbs) t err c val = iterate_scalar strtod m cbs t err c val"
proof (cases "t = Some VAL_UUID \<or> t = Some VAL_TIME")
  case True
  then show ?thesis
    by (cases "uuid_cb cbs"; cases "uuid_str_cb cbs"; cases "time_cb cbs"; cases "time_str_cb cbs")
      (auto simp: iterate_scalar_def call_cb_def cong: option.case_cong)
next
  case False
  then show ?thesis by (cases "the t"; cases t) (simp_all add: iterate_scalar_def)
qed

lemma val_iterate_heard:
  "val_iterate strtod m (heard cbs) err val c endp = val_iterate strtod m cbs err val c endp"
proof (induction "length m - val" arbitrary: err val c endp rule: less_induct)
  case less
  have ih: "val_iterate strtod m (heard cbs) err' v c' e' = val_iterate strtod m cbs err' v c' e'"
    if "rd m val = Some b" "val < v" for b err' v c' e'
    using less [of v err' c' e'] that rd_Some_less [OF that(1)] by simp
  show ?case
    unfolding val_iterate.simps [of _ _ _ _ val]
  proof (rule if_cong [OF refl _ refl], rule bind_option_cong [OF refl], unfold Let_def,
      rule bind_option_cong, goal_cases)
    case (1 t)
    then have "rd m val = Some t" by simp
    from ih [OF this] show ?case
      by (auto simp: scalar_heard dest!: read_uint32_le intro!: bind_option_cong split: prod.split)
  next
    case (2 t r)
    then have t: "rd m val = Some t" by simp
    have "val < snd r" using 2
      by (cases r) (auto dest!: read_uint32_le iterate_scalar_le split: if_splits prod.splits simp: bind_eq_Some_conv)
    with ih [OF t] show ?case by (auto split: prod.split)
  qed
qed

lemma rd_dec: "rd m p = Some b \<Longrightarrow> bytes_at m (Suc p) bs \<Longrightarrow> rd_range m (Suc p) (length bs) = Some bs"
  using bytes_at_rd_range [of m p "b # bs"] bytes_at_bound [of m p "b # bs"]
  by (simp add: bytes_at_rd_range)

lemma scalar_enc:
  assumes "wf_wire w" and "bytes_at m p (enc w)" and "length (enc w) < 2 ^ 32"
    and "wire_type w \<noteq> OPO_VAL_OBJ" and "wire_type w \<noteq> OPO_VAL_ARRAY"
  shows "rd m p = Some (hd (enc w)) \<and>
    iterate_scalar strtod m cbs (switch_tag (hd (enc w))) err c (Suc p) =
      Some (fire strtod (heard cbs) (scalar_event w p) err c, p + length (enc w)) \<and>
    switch_tag (hd (enc w)) \<noteq> Some VAL_OBJ \<and> switch_tag (hd (enc w)) \<noteq> Some VAL_ARRAY"
  using assms
  unfolding fire_heard
  by (cases w; clarsimp simp: iterate_scalar_def call_cb_def ignoring_def uint_len unat_word_ariths
      rd_dec numeral_3_eq_3 add.commute [of 5] split: option.split)

lemma key_enc:
  assumes "wf_key k" and "bytes_at m p (enc_key k)"
  shows "rd m p = Some (hd (enc_key k)) \<and>
    iterate_scalar strtod m cbs (switch_tag (hd (enc_key k))) err c (Suc p) =
      Some (fire strtod (heard cbs) (key_event k p) err c, p + length (enc_key k)) \<and>
    switch_tag (hd (enc_key k)) \<noteq> Some VAL_OBJ \<and> switch_tag (hd (enc_key k)) \<noteq> Some VAL_ARRAY"
  using assms
  unfolding fire_heard
  by (cases k; clarsimp simp: iterate_scalar_def call_cb_def uint_len numeral_3_eq_3
      split: option.split)

lemma run_events_append:
  "run_events strtod cbs (xs @ ys) err c =
     (case run_events strtod cbs xs err c of (cont, err, c) \<Rightarrow>
        if cont then run_events strtod cbs ys err c else (cont, err, c))"
  by (induction xs arbitrary: err c) (simp_all split: prod.split)

lemma quiet_fire: "quiet strtod cbs \<Longrightarrow> fire strtod cbs e err c = (cont, err', c') \<Longrightarrow> err' = err"
  unfolding quiet_def by (metis fst_conv snd_conv)

lemma quiet_run:
  "quiet strtod cbs \<Longrightarrow> run_events strtod cbs es err c = (cont, err', c') \<Longrightarrow> err' = err"
  by (induction es arbitrary: c) (auto split: prod.splits if_splits dest: quiet_fire)

text \<open>
  One item between \<open>p\<close> and \<open>endp\<close>: its events are fired, and the loop goes on behind it unless a
  callback says no.
\<close>

definition steps_over ::
    "(cstr \<Rightarrow> double) \<Rightarrow> mem \<Rightarrow> 'c opoValCallbacks \<Rightarrow> opoErr \<Rightarrow> ptr \<Rightarrow> event list \<Rightarrow> nat \<Rightarrow> bool" where
  "steps_over strtod m cbs err p es n \<longleftrightarrow> (\<forall>c endp. p < endp \<longrightarrow>
     val_iterate strtod m cbs err p c endp =
       (case run_events strtod (heard cbs) es err c of (cont, err', c') \<Rightarrow>
          if cont then val_iterate strtod m cbs err (p + n) c' endp else Some (False, err, c')))"

lemma steps_over_scalar:
  assumes q: "quiet strtod (heard cbs)" and ok: "ecode err = OPO_ERR_OK" and rd: "rd m p = Some b"
    and s: "\<And>c. iterate_scalar strtod m cbs (switch_tag b) err c (Suc p) =
        Some (fire strtod (heard cbs) e err c, p + n)"
    and b: "switch_tag b \<noteq> Some VAL_OBJ" "switch_tag b \<noteq> Some VAL_ARRAY"
  shows "steps_over strtod m cbs err p [e] n"
  unfolding steps_over_def
proof (intro allI impI)
  fix c endp assume lt: "p < endp"
  obtain cont err' c' where f: "fire strtod (heard cbs) e err c = (cont, err', c')"
    by (cases "fire strtod (heard cbs) e err c")
  then have "err' = err" using quiet_fire [OF q] by blast
  then show "val_iterate strtod m cbs err p c endp =
      (case run_events strtod (heard cbs) [e] err c of (cont, err', c') \<Rightarrow>
        if cont then val_iterate strtod m cbs err (p + n) c' endp else Some (False, err, c'))"
    using lt ok rd s [of c] b f by (subst val_iterate.simps) simp
qed

lemma steps_over_seq:
  assumes q: "quiet strtod (heard cbs)" and s: "steps_over strtod m cbs err p xs n" and lt: "p < endp"
    and rest: "\<And>c. val_iterate strtod m cbs err (p + n) c endp = Some (run_events strtod (heard cbs) ys err c)"
  shows "val_iterate strtod m cbs err p c endp = Some (run_events strtod (heard cbs) (xs @ ys) err c)"
proof -
  obtain cont err' c' where f: "run_events strtod (heard cbs) xs err c = (cont, err', c')"
    by (cases "run_events strtod (heard cbs) xs err c")
  then have "err' = err" using quiet_run [OF q] by blast
  with f s lt rest show ?thesis by (simp add: steps_over_def run_events_append)
qed

lemma iterate_end: "val_iterate strtod m cbs err p c p = Some (True, err, c)"
  by (subst val_iterate.simps) simp

text \<open>The body of a container, between its begin and its end event.\<close>

lemma steps_over_container:
  assumes q: "quiet strtod (heard cbs)" and ok: "ecode err = OPO_ERR_OK"
    and rd: "rd m p = Some (tag t)" and sz: "read_uint32 m (Suc p) = Some (p + 5, sz)"
    and body: "\<And>c. val_iterate strtod m cbs err (p + 5) c (p + 5 + unat sz) =
        Some (run_events strtod (heard cbs) es err c)"
    and t: "t = VAL_OBJ \<and> b = EBeginObject \<and> e = EEndObject \<or>
            t = VAL_ARRAY \<and> b = EBeginArray \<and> e = EEndArray"
  shows "steps_over strtod m cbs err p (b # es @ [e]) (5 + unat sz)"
  unfolding steps_over_def
proof (intro allI impI)
  fix c endp assume lt: "p < endp"
  obtain cont1 err1 c1 where f1: "fire strtod (heard cbs) b err c = (cont1, err1, c1)"
    by (cases "fire strtod (heard cbs) b err c")
  have e1: "err1 = err" using quiet_fire [OF q f1] .
  obtain cont2 err2 c2 where f2: "run_events strtod (heard cbs) es err c1 = (cont2, err2, c2)"
    by (cases "run_events strtod (heard cbs) es err c1")
  have e2: "err2 = err" using quiet_run [OF q f2] .
  obtain cont3 err3 c3 where f3: "fire strtod (heard cbs) e err c2 = (cont3, err3, c3)"
    by (cases "fire strtod (heard cbs) e err c2")
  have e3: "err3 = err" using quiet_fire [OF q f3] .
  show "val_iterate strtod m cbs err p c endp =
      (case run_events strtod (heard cbs) (b # es @ [e]) err c of (cont, err', c') \<Rightarrow>
        if cont then val_iterate strtod m cbs err (p + (5 + unat sz)) c' endp
        else Some (False, err, c'))"
    using lt ok rd sz body [of c1] t f1 f2 f3
    by (subst val_iterate.simps)
      (auto simp: e1 e2 e3 end_cb_def run_events_append add.assoc)
qed

lemma steps_scalar_enc:
  assumes "quiet strtod (heard cbs)" and "ecode err = OPO_ERR_OK"
    and "wf_wire w" and "bytes_at m p (enc w)" and "length (enc w) < 2 ^ 32"
    and "wire_type w \<noteq> OPO_VAL_OBJ" and "wire_type w \<noteq> OPO_VAL_ARRAY"
  shows "steps_over strtod m cbs err p [scalar_event w p] (length (enc w))"
  by (rule steps_over_scalar [OF assms(1,2), of _ _ "hd (enc w)"])
    (simp_all add: scalar_enc [OF assms(3-7)])

lemma iterate_enc:
  assumes q: "quiet strtod (heard cbs)" and ok: "ecode err = OPO_ERR_OK"
  shows "wf_wire w \<Longrightarrow> bytes_at m p (enc w) \<Longrightarrow> length (enc w) < 2 ^ 32 \<Longrightarrow>
      steps_over strtod m cbs err p (events w p) (length (enc w))"
    and "\<forall>(k, w) \<in> set kvs. wf_key k \<and> wf_wire w \<Longrightarrow> bytes_at m p (enc_members kvs) \<Longrightarrow>
      length (enc_members kvs) < 2 ^ 32 \<Longrightarrow>
      val_iterate strtod m cbs err p c (p + length (enc_members kvs)) =
        Some (run_events strtod (heard cbs) (events_members kvs p) err c)"
    and "\<forall>w \<in> set ws. wf_wire w \<Longrightarrow> bytes_at m p (enc_elements ws) \<Longrightarrow>
      length (enc_elements ws) < 2 ^ 32 \<Longrightarrow>
      val_iterate strtod m cbs err p c (p + length (enc_elements ws)) =
        Some (run_events strtod (heard cbs) (events_elements ws p) err c)"
proof (induction w and kvs and ws arbitrary: p and p c and p c
    rule: enc_enc_members_enc_elements.induct)
  case (13 kvs)
  have "steps_over strtod m cbs err p (EBeginObject # events_members kvs (p + 5) @ [EEndObject])
      (5 + unat (of_nat (length (enc_members kvs)) :: uint32))"
    using 13 by (intro steps_over_container [OF q ok, where t = VAL_OBJ])
      (simp_all add: u32.read_iff add.commute [of 5])
  then show ?case using 13 by simp
next
  case (14 ws)
  have "steps_over strtod m cbs err p (EBeginArray # events_elements ws (p + 5) @ [EEndArray])
      (5 + unat (of_nat (length (enc_elements ws)) :: uint32))"
    using 14 by (intro steps_over_container [OF q ok, where t = VAL_ARRAY])
      (simp_all add: u32.read_iff add.commute [of 5])
  then show ?case using 14 by simp
next
  case 15
  then show ?case by (simp add: iterate_end)
next
  case (16 k w kvs)
  let ?p = "p + length (enc_key k)"
  let ?e = "p + length (enc_members ((k, w) # kvs))"
  have k: "steps_over strtod m cbs err p [key_event k p] (length (enc_key k))"
    using 16 key_enc [of k m p strtod cbs err] by (intro steps_over_scalar [OF q ok]) auto
  have v: "steps_over strtod m cbs err ?p (events w ?p) (length (enc w))"
    using 16 by (intro "16.IH") simp_all
  have lt: "p < ?e" "?p < ?e" using length_enc_key_pos [of k] length_enc_pos [of w] by simp_all
  have rest: "val_iterate strtod m cbs err (?p + length (enc w)) c ?e =
      Some (run_events strtod (heard cbs) (events_members kvs (?p + length (enc w))) err c)" for c
    using 16 "16.IH"(2) [of "?p + length (enc w)" c] by (simp add: add.assoc)
  show ?case
    using steps_over_seq [OF q k lt(1) steps_over_seq [OF q v lt(2) rest]] by simp
next
  case 17
  then show ?case by (simp add: iterate_end)
next
  case (18 w ws)
  let ?e = "p + length (enc_elements (w # ws))"
  have v: "steps_over strtod m cbs err p (events w p) (length (enc w))"
    using 18 by (intro "18.IH") simp_all
  have lt: "p < ?e" using length_enc_pos [of w] by simp
  have rest: "val_iterate strtod m cbs err (p + length (enc w)) c ?e =
      Some (run_events strtod (heard cbs) (events_elements ws (p + length (enc w))) err c)" for c
    using 18 "18.IH"(2) [of "p + length (enc w)" c] by (simp add: add.assoc)
  show ?case using steps_over_seq [OF q v lt rest] by simp
qed (unfold events.simps, (rule steps_scalar_enc [OF q ok]; simp)+)

section \<open>Properties\<close>

text \<open>
  C9: on an encoded value shorter than 4 GB \<open>opo_val_iterate\<close> ends and calls the callbacks exactly
  for the events of the value, in the order of the encoding and with the decoded scalars, until one
  of them returns false.  The callbacks report no error of their own (\<open>quiet\<close>), and those of a UUID
  and of a time do not ask to stop (\<open>obeyed\<close>): what these return is not obeyed.
\<close>

theorem val_iterate_correct:
  assumes "wf_wire w" and "bytes_at m p (enc w)" and "length (enc w) < 2 ^ 32"
    and "quiet strtod cbs" and "obeyed strtod cbs" and "ecode err = OPO_ERR_OK"
  shows "opo_val_iterate strtod err m p cbs c =
    Some (OPO_ERR_OK, err, snd (snd (run_events strtod cbs (events w p) err c)))"
proof -
  obtain cont err' c' where r: "run_events strtod (heard cbs) (events w p) err c = (cont, err', c')"
    by (cases "run_events strtod (heard cbs) (events w p) err c")
  have "val_iterate strtod m cbs err (p + length (enc w)) c' (p + 1) = Some (True, err, c')"
    using length_enc_pos [of w] by (subst val_iterate.simps) simp
  with iterate_enc(1) [OF quiet_heard [OF assms(4)] assms(6,1-3)] r assms(6) show ?thesis
    by (simp add: steps_over_def opo_val_iterate_def flip: run_heard_obeyed [OF assms(5)])
qed

text \<open>A client that collects the integers it is told and stops at the first one above nine.\<close>

definition collect_small :: "int list opoValCallbacks" where
  "collect_small = \<lparr>begin_object = None, end_object = None, key_cb = None, begin_array = None,
     end_array = None, null_cb = None, boolean_cb = None,
     fixnum_cb = Some (\<lambda>err i c. (sint i \<le> 9, err, c @ [sint i])),
     decimal_cb = None, string_cb = None, uuid_cb = None, uuid_str_cb = None,
     time_cb = None, time_str_cb = None\<rparr>"

lemma quiet_collect_small: "quiet strtod collect_small"
proof -
  have "fst (snd (fire strtod collect_small e err c)) = err" for e err c
    by (cases e) (simp_all add: collect_small_def call_cb_def ignoring_def)
  then show ?thesis by (simp add: quiet_def)
qed

lemma obeyed_collect_small: "obeyed strtod collect_small"
  by (simp add: obeyed_def collect_small_def call_cb_def)

theorem val_iterate_correct_witness:
  "opo_val_iterate (\<lambda>_. 0) OPO_ERR_INIT (enc (WArr [WInt1 5, WInt2 300, WInt1 7])) 0 collect_small [] =
     Some (OPO_ERR_OK, OPO_ERR_INIT, [5, 300])"
  using val_iterate_correct [OF _ bytes_at_whole, of "WArr [WInt1 5, WInt2 300, WInt1 7]"
      "\<lambda>_. 0" collect_small OPO_ERR_INIT "[]"] quiet_collect_small obeyed_collect_small
  by (simp add: collect_small_def call_cb_def)

text \<open>
  C36: what the callbacks of a UUID and of a time return is ignored: on any bytes \<open>opo_val_iterate\<close>
  does the same as with callbacks that return true in their place, where \<^verbatim>\<open>val.h\<close> has the result of
  every callback decide whether to go on.
\<close>

theorem val_iterate_ignores_stop:
  "opo_val_iterate strtod err m p (heard cbs) c = opo_val_iterate strtod err m p cbs c"
  by (simp add: opo_val_iterate_def val_iterate_heard)

text \<open>
  \<open>opo_val_iterate\<close> reports a value whose tag is no tag of the format as \<open>OPO_ERR_PARSE\<close>,
  and calls no callback for it.
\<close>

theorem val_iterate_corrupt:
  assumes "rd m p = Some b" and "switch_tag b = None"
  shows "opo_val_iterate strtod err m p cbs c =
    Some (OPO_ERR_PARSE, err_set err OPO_ERR_PARSE ''corrupt message format'', c)"
  using assms
  by (simp add: opo_val_iterate_def iterate_scalar_def val_iterate.simps [of _ _ _ _ p] opo_err_codes)

theorem val_iterate_corrupt_witness:
  "opo_val_iterate (\<lambda>_. 0) OPO_ERR_INIT [0xFF] 0 collect_small [] =
     Some (OPO_ERR_PARSE, err_set OPO_ERR_INIT OPO_ERR_PARSE ''corrupt message format'', [])"
  using val_iterate_corrupt [of "[0xFF]" 0 "0xFF"]
  by (simp add: rd_def switch_tag_def enum_ValType_def tag.simps)

end
