(* ===== verification/Builder.thy ===== *)
theory Builder imports Val begin

text \<open>
  The message builder, \<^verbatim>\<open>builder.h\<close> and \<^verbatim>\<open>builder.c\<close>: the buffer that grows, the stack of open
  objects and arrays, and the push operations.  An operation returns the new builder, the error
  struct and its result code; \<open>None\<close> is an access outside the buffer or the stack, or the use
  of a NULL buffer.  \<open>alloc\<close> stands for \<open>malloc\<close>: the bytes of a new object of the size
  asked for, or \<open>None\<close> for NULL.
\<close>

section \<open>The builder\<close>

definition OPO_MSG_MAX_DEPTH :: nat where "OPO_MSG_MAX_DEPTH = 512"
definition MSG_INC :: nat where "MSG_INC = 4096"
definition MIN_MSG_BUF :: nat where "MIN_MSG_BUF = 1024"
definition UUID_STR_LEN :: nat where "UUID_STR_LEN = 36"

text \<open>
  \<open>bend\<close> and \<open>bcur\<close> are offsets from \<open>bhead\<close>; \<open>btop\<close> is \<open>top - (stack - 1)\<close>, the number of
  open containers, so \<open>*top\<close> is entry \<open>btop - 1\<close> of the stack.
\<close>

record builder =
  bhead :: "mem option"
  bend :: nat
  bcur :: nat
  bown :: bool
  btop :: nat
  bstack :: "nat list"

type_synonym allocator = "nat \<Rightarrow> mem option"
type_synonym result = "(builder \<times> opoErr \<times> int) option"

definition realloc :: "allocator \<Rightarrow> mem \<Rightarrow> nat \<Rightarrow> mem option" where
  "realloc alloc m n = map_option (\<lambda>fresh. take n m @ drop (length m) fresh) (alloc n)"

definition nth_opt :: "'a list \<Rightarrow> nat \<Rightarrow> 'a option" where
  "nth_opt xs i = (if i < length xs then Some (xs ! i) else None)"

text \<open>\<open>return opo_err_set(err, code, msg)\<close>\<close>

definition fail :: "builder \<Rightarrow> opoErr \<Rightarrow> int \<Rightarrow> string \<Rightarrow> result" where
  "fail b err c s = (case opo_err_set err c s of (err, c) \<Rightarrow> Some (b, err, c))"

text \<open>\<open>if (OPO_ERR_OK != r) return err->code;\<close> and what follows\<close>

definition on_ok :: "result \<Rightarrow> (builder \<Rightarrow> opoErr \<Rightarrow> result) \<Rightarrow> result" where
  "on_ok r f = do {
     (b, err, c) \<leftarrow> r;
     if OPO_ERR_OK \<noteq> c then Some (b, err, ecode err) else f b err
   }"

text \<open>Stores at \<open>cur\<close> that move it on, by a function that returns where it stopped.\<close>

definition at_cur :: "builder \<Rightarrow> (mem \<Rightarrow> ptr \<Rightarrow> (mem \<times> ptr) option) \<Rightarrow> builder option" where
  "at_cur b f = do {
     m \<leftarrow> bhead b;
     (m, w) \<leftarrow> f m (bcur b);
     Some (b\<lparr>bhead := Some m, bcur := w\<rparr>)
   }"

text \<open>The decimal text of a size in a message.\<close>

definition dec_text :: "nat \<Rightarrow> string" where
  "dec_text n = map (\<lambda>c. char_of (unat c)) (text_base 10 n)"

definition no_memory :: "nat \<Rightarrow> string" where
  "no_memory n = ''memory allocation failed for size '' @ dec_text n"

section \<open>Filling\<close>

definition fill_str :: "mem \<Rightarrow> ptr \<Rightarrow> cstr \<Rightarrow> nat \<Rightarrow> (mem \<times> ptr) option" where
  "fill_str m w str len = do {
     (m, w) \<leftarrow>
       (if len \<le> 0xff then put m w [tag VAL_STR1, of_nat len]
        else if len \<le> 0xffff then do {
          (m, w) \<leftarrow> put m w [tag VAL_STR2];
          fill_uint16 m w (of_nat len)
        }
        else do {
          (m, w) \<leftarrow> put m w [tag VAL_STR4];
          fill_uint32 m w (of_nat len)
        });
     bs \<leftarrow> rd_range str 0 len;
     (m, w) \<leftarrow> put m w bs;
     put m w [0]
   }"

definition fill_key :: "mem \<Rightarrow> ptr \<Rightarrow> cstr \<Rightarrow> nat \<Rightarrow> (mem \<times> ptr) option" where
  "fill_key m w str len = do {
     (m, w) \<leftarrow>
       (if len \<le> 0xff then put m w [tag VAL_KEY1, of_nat len]
        else do {
          (m, w) \<leftarrow> put m w [tag VAL_KEY2];
          fill_uint16 m w (of_nat len)
        });
     bs \<leftarrow> rd_range str 0 len;
     (m, w) \<leftarrow> put m w bs;
     put m w [0]
   }"

text \<open>
  The loop over the text of a UUID, with \<open>n\<close> characters to go.  What is no lower case hexadecimal
  digit is skipped.
\<close>

definition hex_digit :: "byte \<Rightarrow> byte option" where
  "hex_digit c =
     (if 0x30 \<le> c \<and> c \<le> 0x39 then Some (c - 0x30)
      else if 0x61 \<le> c \<and> c \<le> 0x66 then Some (c - 0x61 + 10)
      else None)"

fun fill_uuid_loop ::
    "mem \<Rightarrow> ptr \<Rightarrow> cstr \<Rightarrow> ptr \<Rightarrow> nat \<Rightarrow> nat \<Rightarrow> byte \<Rightarrow> (mem \<times> ptr) option" where
  "fill_uuid_loop m w str s 0 digits b = Some (m, w)"
| "fill_uuid_loop m w str s (Suc n) digits b = do {
     c \<leftarrow> rd str s;
     case hex_digit c of
       None \<Rightarrow> fill_uuid_loop m w str (s + 1) n digits b
     | Some d \<Rightarrow>
         let b = push_bit 4 b OR d in
         if digits = 0 then fill_uuid_loop m w str (s + 1) n (digits + 1) b
         else do {
           (m, w) \<leftarrow> put m w [b];
           fill_uuid_loop m w str (s + 1) n 0 0
         }
   }"

definition fill_uuid :: "mem \<Rightarrow> ptr \<Rightarrow> cstr \<Rightarrow> (mem \<times> ptr) option" where
  "fill_uuid m w str = do {
     (m, w) \<leftarrow> put m w [tag VAL_UUID];
     fill_uuid_loop m w str 0 UUID_STR_LEN 0 0
   }"

section \<open>Growing\<close>

text \<open>
  The offset of \<open>cur\<close> is kept in an \<open>int\<close> across the reallocation.  A buffer the builder does not
  own is replaced by a new one, whose bytes are whatever \<open>malloc\<close> gives.
\<close>

definition builder_assure :: "allocator \<Rightarrow> opoErr \<Rightarrow> builder \<Rightarrow> nat \<Rightarrow> result" where
  "builder_assure alloc err b sz =
     (case bhead b of None \<Rightarrow> None
      | Some m \<Rightarrow>
          if bend b \<le> bcur b + sz then
            let new_size = bend b + MSG_INC + sz;
                off = sint (of_nat (bcur b) :: uint32)
            in case (if bown b then realloc alloc m new_size else alloc new_size) of
                 None \<Rightarrow> fail (b\<lparr>bhead := None\<rparr>) err OPO_ERR_MEMORY (no_memory new_size)
               | Some m \<Rightarrow>
                   if off < 0 then None
                   else Some (b\<lparr>bhead := Some m, bend := new_size, bcur := nat off\<rparr>, err, OPO_ERR_OK)
          else Some (b, err, OPO_ERR_OK))"

definition builder_append_byte :: "allocator \<Rightarrow> opoErr \<Rightarrow> builder \<Rightarrow> byte \<Rightarrow> result" where
  "builder_append_byte alloc err b x =
     on_ok (builder_assure alloc err b 1) (\<lambda>b err. do {
       b \<leftarrow> at_cur b (\<lambda>m w. put m w [x]);
       Some (b, err, OPO_ERR_OK)
     })"

definition builder_push_str :: "allocator \<Rightarrow> opoErr \<Rightarrow> builder \<Rightarrow> cstr \<Rightarrow> nat \<Rightarrow> result" where
  "builder_push_str alloc err b str len =
     on_ok (builder_assure alloc err b (len + 6)) (\<lambda>b err. do {
       b \<leftarrow> at_cur b (\<lambda>m w. fill_str m w str len);
       Some (b, err, OPO_ERR_OK)
     })"

definition builder_push_key :: "allocator \<Rightarrow> opoErr \<Rightarrow> builder \<Rightarrow> cstr \<Rightarrow> nat \<Rightarrow> result" where
  "builder_push_key alloc err b str len =
     on_ok (builder_assure alloc err b (len + 4)) (\<lambda>b err. do {
       b \<leftarrow> at_cur b (\<lambda>m w. fill_key m w str len);
       Some (b, err, OPO_ERR_OK)
     })"

section \<open>Starting and ending a message\<close>

text \<open>
  \<open>buf\<close> is \<open>None\<close> when the caller passes NULL; otherwise it is the caller's object, of which
  \<open>size\<close> bytes are the buffer.
\<close>

definition opo_builder_init :: "allocator \<Rightarrow> opoErr \<Rightarrow> builder \<Rightarrow> mem option \<Rightarrow> nat \<Rightarrow> result" where
  "opo_builder_init alloc err b buf sz =
     on_ok (case buf of
         None \<Rightarrow>
           let sz = (if sz < MIN_MSG_BUF then MIN_MSG_BUF else sz) in
           (case alloc sz of
              None \<Rightarrow> fail (b\<lparr>bhead := None\<rparr>) err OPO_ERR_MEMORY (no_memory sz)
            | Some m \<Rightarrow> Some (b\<lparr>bhead := Some m, bown := True, bend := sz\<rparr>, err, OPO_ERR_OK))
       | Some m \<Rightarrow> Some (b\<lparr>bhead := Some m, bown := False, bend := sz\<rparr>, err, OPO_ERR_OK))
     (\<lambda>b err. do {
        m \<leftarrow> bhead b;
        (m, _) \<leftarrow> put m 0 (replicate 8 0);
        Some (b\<lparr>bhead := Some m, bcur := 8, bstack := replicate OPO_MSG_MAX_DEPTH 0, btop := 0\<rparr>,
          err, OPO_ERR_OK)
      })"

text \<open>The length of the container that starts at \<open>start\<close> is stored behind its tag.\<close>

definition patch_length :: "builder \<Rightarrow> nat \<Rightarrow> builder option" where
  "patch_length b start = do {
     m \<leftarrow> bhead b;
     (m, _) \<leftarrow> fill_uint32 m (start + 1) (of_int (int (bcur b) - int start - 5));
     Some (b\<lparr>bhead := Some m\<rparr>)
   }"

text \<open>The loop of \<open>opo_builder_finish\<close>, with \<open>n\<close> containers open.\<close>

fun finish_loop :: "nat \<Rightarrow> builder \<Rightarrow> builder option" where
  "finish_loop 0 b = Some b"
| "finish_loop (Suc n) b = do {
     start \<leftarrow> nth_opt (bstack b) n;
     b \<leftarrow> patch_length b start;
     finish_loop n (b\<lparr>btop := n\<rparr>)
   }"

definition opo_builder_finish :: "builder \<Rightarrow> (builder \<times> int) option" where
  "opo_builder_finish b = do { b \<leftarrow> finish_loop (btop b) b; Some (b, 0) }"

text \<open>\<open>cur - head\<close> is a length while there is a buffer, and 0 after \<open>opo_builder_take\<close>.\<close>

definition opo_builder_length :: "builder \<Rightarrow> nat option" where
  "opo_builder_length b =
     (case bhead b of
        Some m \<Rightarrow> Some (bcur b)
      | None \<Rightarrow> if bcur b = 0 \<and> bend b = 0 then Some 0 else None)"

text \<open>The message is the object its pointer points to, \<open>None\<close> for NULL.\<close>

definition opo_builder_take :: "allocator \<Rightarrow> builder \<Rightarrow> (builder \<times> mem option) option" where
  "opo_builder_take alloc b = do {
     (b, _) \<leftarrow> opo_builder_finish b;
     m \<leftarrow> bhead b;
     msg \<leftarrow> (if bown b then Some (Some m)
            else do {
              sz \<leftarrow> opo_msg_bsize m 0;
              case alloc sz of None \<Rightarrow> Some None
              | Some fresh \<Rightarrow> do {
                  bs \<leftarrow> rd_range m 0 sz;
                  (msg, _) \<leftarrow> put fresh 0 bs;
                  Some (Some msg)
                }
            });
     Some (b\<lparr>bhead := None, bcur := 0, bend := 0\<rparr>, msg)
   }"

text \<open>Freeing the buffer: the object \<open>free\<close> is called on, when it is called.\<close>

definition opo_builder_cleanup :: "builder \<Rightarrow> mem option" where
  "opo_builder_cleanup b = (if bown b then bhead b else None)"

section \<open>Keys\<close>

text \<open>
  \<open>if (0 >= len) len = strlen(s)\<close>, with \<open>len\<close> an \<open>int\<close> that is then passed as a \<open>size_t\<close>.
\<close>

definition c_len :: "cstr \<Rightarrow> int \<Rightarrow> nat option" where
  "c_len s len =
     (if 0 \<ge> len then map_option (\<lambda>n. unat (scast (of_nat n :: uint32) :: uint64)) (strlen s)
      else Some (nat len))"

text \<open>What \<open>*top\<close> points to in the buffer: the tag of the innermost open container.\<close>

definition top_tag :: "builder \<Rightarrow> byte option" where
  "top_tag b = do {
     m \<leftarrow> bhead b;
     start \<leftarrow> nth_opt (bstack b) (btop b - 1);
     rd m start
   }"

text \<open>The result of \<open>builder_push_key\<close> is not looked at.\<close>

definition check_key :: "allocator \<Rightarrow> opoErr \<Rightarrow> builder \<Rightarrow> cstr option \<Rightarrow> int \<Rightarrow> result" where
  "check_key alloc err b key klen =
     (if btop b < 1 then
        (case bhead b of None \<Rightarrow> None
         | Some m \<Rightarrow>
             if 8 < bcur b then fail b err OPO_ERR_OVERFLOW ''only one element can be in a builder''
             else if key \<noteq> None then fail b err OPO_ERR_ARG ''only members of an object are keyed''
             else Some (b, err, OPO_ERR_OK))
      else do {
        t \<leftarrow> top_tag b;
        case key of
          Some key \<Rightarrow>
            if tag VAL_OBJ \<noteq> t then fail b err OPO_ERR_ARG ''only members of an object are keyed''
            else do {
              klen \<leftarrow> c_len key klen;
              (b, err, _) \<leftarrow> builder_push_key alloc err b key klen;
              Some (b, err, OPO_ERR_OK)
            }
        | None \<Rightarrow>
            if tag VAL_ARRAY \<noteq> t then fail b err OPO_ERR_ARG ''members of an object must be keyed''
            else Some (b, err, OPO_ERR_OK)
      })"

section \<open>Containers\<close>

text \<open>\<open>builder->stack + OPO_MSG_MAX_DEPTH <= builder->top\<close>\<close>

definition too_deep :: "builder \<Rightarrow> bool" where
  "too_deep b \<longleftrightarrow> OPO_MSG_MAX_DEPTH + 1 \<le> btop b"

text \<open>\<open>builder->top++; *builder->top = builder->cur - builder->head;\<close>\<close>

definition push_start :: "builder \<Rightarrow> builder option" where
  "push_start b =
     (let i = btop b in
      if i < length (bstack b) then Some (b\<lparr>btop := i + 1, bstack := (bstack b)[i := bcur b]\<rparr>)
      else None)"

definition opo_builder_push_object :: "allocator \<Rightarrow> opoErr \<Rightarrow> builder \<Rightarrow> cstr option \<Rightarrow> int \<Rightarrow> result" where
  "opo_builder_push_object alloc err b key klen =
     (if too_deep b then fail b err OPO_ERR_OVERFLOW ''too deeply nested. Limit is 512''
      else on_ok (check_key alloc err b key klen) (\<lambda>b err. do {
        b \<leftarrow> push_start b;
        on_ok (builder_assure alloc err b 5) (\<lambda>b err. do {
          b \<leftarrow> at_cur b (\<lambda>m w. put m w [tag VAL_OBJ]);
          let b = b\<lparr>bcur := bcur b + 4\<rparr>;
          Some (b, err, OPO_ERR_OK)
        })
      }))"

definition opo_builder_push_array :: "allocator \<Rightarrow> opoErr \<Rightarrow> builder \<Rightarrow> cstr option \<Rightarrow> int \<Rightarrow> result" where
  "opo_builder_push_array alloc err b key klen =
     (if too_deep b then fail b err OPO_ERR_OVERFLOW ''too deeply nested. Limit is 512''
      else on_ok (check_key alloc err b key klen) (\<lambda>b err. do {
        b \<leftarrow> push_start b;
        b \<leftarrow> at_cur b (\<lambda>m w. put m w [tag VAL_ARRAY]);
        let b = b\<lparr>bcur := bcur b + 4\<rparr>;
        Some (b, err, OPO_ERR_OK)
      }))"

definition opo_builder_pop :: "opoErr \<Rightarrow> builder \<Rightarrow> result" where
  "opo_builder_pop err b =
     (if btop b < 1 then fail b err OPO_ERR_OVERFLOW ''nothing left to pop''
      else do {
        start \<leftarrow> nth_opt (bstack b) (btop b - 1);
        b \<leftarrow> patch_length b start;
        let b = b\<lparr>btop := btop b - 1\<rparr>;
        Some (b, err, OPO_ERR_OK)
      })"

section \<open>Scalars\<close>

definition opo_builder_push_null :: "allocator \<Rightarrow> opoErr \<Rightarrow> builder \<Rightarrow> cstr option \<Rightarrow> int \<Rightarrow> result" where
  "opo_builder_push_null alloc err b key klen =
     on_ok (check_key alloc err b key klen) (\<lambda>b err.
       builder_append_byte alloc err b (tag VAL_NULL))"

definition opo_builder_push_bool ::
    "allocator \<Rightarrow> opoErr \<Rightarrow> builder \<Rightarrow> bool \<Rightarrow> cstr option \<Rightarrow> int \<Rightarrow> result" where
  "opo_builder_push_bool alloc err b value key klen =
     on_ok (check_key alloc err b key klen) (\<lambda>b err.
       builder_append_byte alloc err b (tag (if value then VAL_TRUE else VAL_FALSE)))"

text \<open>\<open>assure\<close>, a tag, and a function that stores what follows it.\<close>

definition push_filled ::
    "allocator \<Rightarrow> opoErr \<Rightarrow> builder \<Rightarrow> nat \<Rightarrow> (mem \<Rightarrow> ptr \<Rightarrow> (mem \<times> ptr) option) \<Rightarrow> result" where
  "push_filled alloc err b sz f =
     on_ok (builder_assure alloc err b sz) (\<lambda>b err. do {
       b \<leftarrow> at_cur b f;
       Some (b, err, OPO_ERR_OK)
     })"

definition opo_builder_push_int ::
    "allocator \<Rightarrow> opoErr \<Rightarrow> builder \<Rightarrow> int64 \<Rightarrow> cstr option \<Rightarrow> int \<Rightarrow> result" where
  "opo_builder_push_int alloc err b value key klen =
     on_ok (check_key alloc err b key klen) (\<lambda>b err.
       let v = sint value in
       if - 128 \<le> v \<and> v \<le> 127 then
         push_filled alloc err b 2 (\<lambda>m w. put m w [tag VAL_INT1, scast value])
       else if - 32768 \<le> v \<and> v \<le> 32767 then
         push_filled alloc err b 3 (\<lambda>m w. do {
           (m, w) \<leftarrow> put m w [tag VAL_INT2];
           fill_uint16 m w (scast value)
         })
       else if - 2147483648 \<le> v \<and> v \<le> 2147483647 then
         push_filled alloc err b 5 (\<lambda>m w. do {
           (m, w) \<leftarrow> put m w [tag VAL_INT4];
           fill_uint32 m w (scast value)
         })
       else
         push_filled alloc err b 9 (\<lambda>m w. do {
           (m, w) \<leftarrow> put m w [tag VAL_INT8];
           fill_uint64 m w value
         }))"

text \<open>
  The conversions of a double are the C library's: \<open>whole\<close> is the test
  \<open>value == (double)(int64_t)value\<close>, \<open>fmt_1f\<close> and \<open>fmt_15g\<close> the texts of \<open>"%.1f"\<close> and
  \<open>"%0.15g"\<close>.  A text that does not fit the 63 bytes given to \<open>snprintf\<close> would be read from
  beyond what it stored.
\<close>

record double_fmt =
  whole :: "double \<Rightarrow> bool"
  fmt_1f :: "double \<Rightarrow> cstr"
  fmt_15g :: "double \<Rightarrow> cstr"

definition opo_builder_push_double ::
    "double_fmt \<Rightarrow> allocator \<Rightarrow> opoErr \<Rightarrow> builder \<Rightarrow> double \<Rightarrow> cstr option \<Rightarrow> int \<Rightarrow> result" where
  "opo_builder_push_double fmt alloc err b value key klen =
     on_ok (check_key alloc err b key klen) (\<lambda>b err.
       let str = (if whole fmt value then fmt_1f fmt value else fmt_15g fmt value);
           cnt = length str
       in push_filled alloc err b (cnt + 2) (\<lambda>m w. do {
            (m, w) \<leftarrow> put m w [tag VAL_DEC, of_nat cnt];
            if cnt < 63 then put m w str else None
          }))"

definition opo_builder_push_string ::
    "allocator \<Rightarrow> opoErr \<Rightarrow> builder \<Rightarrow> cstr \<Rightarrow> int \<Rightarrow> cstr option \<Rightarrow> int \<Rightarrow> result" where
  "opo_builder_push_string alloc err b value len key klen = do {
     len \<leftarrow> c_len value len;
     on_ok (check_key alloc err b key klen) (\<lambda>b err.
       on_ok (builder_push_str alloc err b value len) (\<lambda>b err. Some (b, err, OPO_ERR_OK)))
   }"

definition opo_builder_push_uuid ::
    "allocator \<Rightarrow> opoErr \<Rightarrow> builder \<Rightarrow> uint64 \<Rightarrow> uint64 \<Rightarrow> cstr option \<Rightarrow> int \<Rightarrow> result" where
  "opo_builder_push_uuid alloc err b hi lo key klen =
     on_ok (check_key alloc err b key klen) (\<lambda>b err.
       push_filled alloc err b 17 (\<lambda>m w. do {
         (m, w) \<leftarrow> put m w [tag VAL_UUID];
         (m, w) \<leftarrow> fill_uint64 m w hi;
         fill_uint64 m w lo
       }))"

definition opo_builder_push_uuid_string ::
    "allocator \<Rightarrow> opoErr \<Rightarrow> builder \<Rightarrow> cstr \<Rightarrow> cstr option \<Rightarrow> int \<Rightarrow> result" where
  "opo_builder_push_uuid_string alloc err b value key klen =
     on_ok (check_key alloc err b key klen) (\<lambda>b err.
       push_filled alloc err b 17 (\<lambda>m w. fill_uuid m w value))"

definition opo_builder_push_time ::
    "allocator \<Rightarrow> opoErr \<Rightarrow> builder \<Rightarrow> int64 \<Rightarrow> cstr option \<Rightarrow> int \<Rightarrow> result" where
  "opo_builder_push_time alloc err b value key klen =
     on_ok (check_key alloc err b key klen) (\<lambda>b err.
       push_filled alloc err b 9 (\<lambda>m w. do {
         (m, w) \<leftarrow> put m w [tag VAL_TIME];
         fill_uint64 m w value
       }))"

text \<open>The value is copied from the message \<open>vm\<close> it lies in, a different object.\<close>

definition opo_builder_push_val ::
    "allocator \<Rightarrow> opoErr \<Rightarrow> builder \<Rightarrow> mem \<Rightarrow> ptr option \<Rightarrow> cstr option \<Rightarrow> int \<Rightarrow> result" where
  "opo_builder_push_val alloc err b vm value key klen =
     on_ok (check_key alloc err b key klen) (\<lambda>b err. do {
       sz \<leftarrow> opo_val_bsize vm value;
       push_filled alloc err b sz (\<lambda>m w. do {
         bs \<leftarrow> (case value of None \<Rightarrow> Some [] | Some v \<Rightarrow> rd_range vm v sz);
         put m w bs
       })
     })"

end
