(* ===== verification/Uuid.thy ===== *)
theory Uuid imports Builder begin

text \<open>
  The text of a UUID and its bytes: \<open>fill_uuid\<close> of \<^verbatim>\<open>builder.c\<close> reads back what the conversion of
  \<open>opo_val_uuid_str\<close> in \<^verbatim>\<open>val.c\<close> prints.
\<close>

section \<open>Hexadecimal digits\<close>

text \<open>The digits of a text, and two digits a byte; an odd one at the end is lost.\<close>

definition nibbles :: "cstr \<Rightarrow> byte list" where
  "nibbles cs = List.map_filter hex_digit cs"

fun pack :: "byte list \<Rightarrow> byte list" where
  "pack (a # b # xs) = (push_bit 4 a OR b) # pack xs"
| "pack xs = []"

lemma nibbles_Cons: "nibbles (c # cs) = (case hex_digit c of None \<Rightarrow> nibbles cs | Some d \<Rightarrow> d # nibbles cs)"
  by (simp add: nibbles_def split: option.split)

lemma nibbles_append [simp]: "nibbles (xs @ ys) = nibbles xs @ nibbles ys"
  by (induction xs) (simp_all add: nibbles_Cons nibbles_def split: option.split)

lemma fill_uuid_loop_pack:
  "s + n \<le> length str \<Longrightarrow> w \<le> length m \<Longrightarrow>
   fill_uuid_loop m w str s n 0 0 = put m w (pack (nibbles (take n (drop s str)))) \<and>
   fill_uuid_loop m w str s n 1 a = put m w (pack (a # nibbles (take n (drop s str))))"
proof (induction n arbitrary: s m w a)
  case 0
  then show ?case by (simp add: nibbles_def)
next
  case (Suc n)
  then have d: "drop s str = str ! s # drop (Suc s) str" and rd: "rd str s = Some (str ! s)"
    by (simp_all add: Cons_nth_drop_Suc rd_def)
  show ?case
  proof (cases "hex_digit (str ! s)")
    case None
    with Suc rd show ?thesis by (simp add: d nibbles_Cons)
  next
    case (Some x)
    have 1: "fill_uuid_loop m w str (Suc s) n 1 x = put m w (pack (x # nibbles (take n (drop (Suc s) str))))"
      using Suc by simp
    have 2: "Option.bind (put m w [b]) (\<lambda>(m, w). fill_uuid_loop m w str (Suc s) n 0 0) =
        put m w (b # pack (nibbles (take n (drop (Suc s) str))))" for b
      using Suc put_then [of "\<lambda>m w. fill_uuid_loop m w str (Suc s) n 0 0"
          "pack (nibbles (take n (drop (Suc s) str)))" m w "[b]"] by simp
    from Some rd 1 2 show ?thesis by (simp add: d nibbles_Cons)
  qed
qed

lemma fill_uuid_pack:
  assumes "UUID_STR_LEN \<le> length str"
  shows "fill_uuid m w str = put m w (tag VAL_UUID # pack (nibbles (take UUID_STR_LEN str)))"
  using assms fill_uuid_loop_pack [of 0 UUID_STR_LEN str]
    put_then [of "\<lambda>m w. fill_uuid_loop m w str 0 UUID_STR_LEN 0 0"
      "pack (nibbles (take UUID_STR_LEN str))" m w "[tag VAL_UUID]"]
  by (simp add: fill_uuid_def)

section \<open>The digits of a word\<close>

primrec word_nibbles :: "nat \<Rightarrow> uint64 \<Rightarrow> byte list" where
  "word_nibbles 0 x = []"
| "word_nibbles (Suc k) x = ucast (take_bit 4 (drop_bit (4 * k) x)) # word_nibbles k x"

lemma hex_digit_char:
  assumes "d < 16"
  shows "hex_digit (digit_char d) = Some (of_nat d)"
proof -
  have "d \<in> set [0..<16]" using assms by simp
  moreover have "list_all (\<lambda>d. hex_digit (digit_char d) = Some (of_nat d)) [0..<16]"
    by (simp add: hex_digit_def digit_char_def upt_rec)
  ultimately show ?thesis by (simp only: list_all_iff)
qed

lemma nibble_of_word:
  "(of_nat (unat (x :: uint64) div 16 ^ k mod 16) :: byte) = ucast (take_bit 4 (drop_bit (4 * k) x))"
proof -
  have "unat (take_bit 4 (drop_bit (4 * k) x)) = unat x div 2 ^ (4 * k) mod 2 ^ 4"
    by (simp only: unsigned_take_bit_eq unat_drop_bit) (simp only: take_bit_eq_mod)
  then have "unat x div 16 ^ k mod 16 = unat (take_bit 4 (drop_bit (4 * k) x))"
    by (simp add: power_mult)
  then show ?thesis by (simp only: of_nat_unat)
qed

lemma nibbles_digits: "nibbles (digits_exact 16 k (unat x)) = word_nibbles k x"
  by (induction k) (simp_all add: nibbles_Cons hex_digit_char nibble_of_word nibbles_def [of "[]"])

lemma pack_word_nibbles: "pack (word_nibbles (2 * k) x @ ys) = be_bytes k x @ pack ys"
proof (induction k)
  case (Suc k)
  have "push_bit 4 (ucast (take_bit 4 (drop_bit (4 * Suc (2 * k)) x))) OR
      ucast (take_bit 4 (drop_bit (4 * (2 * k)) x)) = (ucast (drop_bit (8 * k) x) :: byte)"
    by (rule bit_eqI) (auto simp: bit_simps)
  with Suc show ?case by simp
qed simp

text \<open>The groups of the text are the digits of the two halves.\<close>

lemma mask_take_bit:
  "(x :: uint64) AND 0xFFFF = take_bit 16 x" "x AND 0x0000FFFFFFFFFFFF = take_bit 48 x"
  by (simp_all add: take_bit_eq_mask mask_eq_exp_minus_1)

lemma word_nibbles_take_bit: "4 * k \<le> n \<Longrightarrow> word_nibbles k (take_bit n x) = word_nibbles k x"
  by (induction k) (simp_all add: drop_bit_take_bit min_def)

lemma word_nibbles_drop_bit:
  "word_nibbles k (drop_bit (4 * n) x) @ word_nibbles n x = word_nibbles (k + n) x"
  by (induction k) (simp_all add: distrib_left)

lemma word_nibbles_hi:
  "word_nibbles 8 (drop_bit 32 x) @ word_nibbles 4 (drop_bit 16 x) @ word_nibbles 4 x = word_nibbles 16 x"
  using word_nibbles_drop_bit [of 8 8 x] word_nibbles_drop_bit [of 4 4 x] by simp

lemma word_nibbles_lo: "word_nibbles 4 (drop_bit 48 x) @ word_nibbles 12 x = word_nibbles 16 x"
  using word_nibbles_drop_bit [of 4 12 x] by simp

lemma nibbles_uuid_text: "pack (nibbles (uuid_text hi lo)) = be_bytes 8 hi @ be_bytes 8 lo"
proof -
  have dash: "nibbles (0x2D # cs) = nibbles cs" for cs
    by (simp add: nibbles_Cons hex_digit_def)
  have "nibbles (uuid_text hi lo) = word_nibbles 16 hi @ word_nibbles 16 lo"
    by (simp add: uuid_text_exact nibbles_digits dash mask_take_bit word_nibbles_take_bit
        flip: word_nibbles_hi [of hi] word_nibbles_lo [of lo])
  then show ?thesis
    using pack_word_nibbles [of 8 hi "word_nibbles 16 lo"] pack_word_nibbles [of 8 lo "[]"] by simp
qed

lemma fill_uuid_text: "fill_uuid m w (uuid_text hi lo @ t) = put m w (enc (WUuid hi lo))"
  by (simp add: fill_uuid_pack UUID_STR_LEN_def nibbles_uuid_text)

section \<open>Properties\<close>

text \<open>
  C27: the text of a UUID is stored as its 16 bytes, from which \<open>opo_val_uuid\<close> reads the two
  halves and \<open>opo_val_uuid_str\<close> prints the same text again, null included.
\<close>

theorem uuid_text_roundtrip:
  assumes "fill_uuid m p (uuid_text hi lo @ t) = Some (m', q)" and "37 \<le> length str"
  shows "q = p + 17 \<and> opo_val_uuid err m' (Some p) h l = Some (err, hi, lo) \<and>
    (\<exists>str'. opo_val_uuid_str err m' (Some p) str = Some (err, str') \<and>
       take 37 str' = uuid_text hi lo @ [0])"
proof -
  from assms(1) have p: "put m p (enc (WUuid hi lo)) = Some (m', q)"
    by (simp only: fill_uuid_text)
  from put_bytes_at [OF p] have at: "rd m' p = Some (tag VAL_UUID)"
    "bytes_at m' (p + 1) (be_bytes 8 hi)" "bytes_at m' (p + 1 + 8) (be_bytes 8 lo)"
    by (simp_all add: add.commute)
  obtain str' where s: "put str 0 (uuid_text hi lo @ [0]) = Some (str', 37)"
    using assms(2) by (simp add: put_def)
  from put_take [OF s] have "take 37 str' = uuid_text hi lo @ [0]" by simp
  with at s put_length [OF p] show ?thesis
    by (simp add: opo_val_uuid_def opo_val_uuid_str_def)
qed

theorem uuid_text_roundtrip_witness:
  "\<exists>m' q. fill_uuid (replicate 20 0) 0 (uuid_text 1 2 @ [0]) = Some (m', q) \<and>
     opo_val_uuid OPO_ERR_INIT m' (Some 0) 0 0 = Some (OPO_ERR_INIT, 1, 2)"
proof -
  have "\<exists>m' q. fill_uuid (replicate 20 0) 0 (uuid_text 1 2 @ [0]) = Some (m', q)"
    by (simp only: fill_uuid_text) (simp add: put_def)
  then show ?thesis using uuid_text_roundtrip [of _ _ 1 2 "[0]" _ _ "replicate 37 0"] by fastforce
qed

end
