(* ===== verification/Fill.thy ===== *)
theory Fill imports Uuid begin

text \<open>
  What the fill functions store: the key, the string and the integer of the format a text or a
  number is written as, for \<^verbatim>\<open>builder.c\<close> and for the copies in \<^verbatim>\<open>opo.c\<close>.
\<close>

text \<open>Consecutive stores are one store.\<close>

lemma put_put_bind:
  "Option.bind (put m w xs) (\<lambda>(m, w). Option.bind (put m w ys) f) = Option.bind (put m w (xs @ ys)) f"
  by (simp add: put_put [symmetric] case_prod_beta')

section \<open>Keys and texts\<close>

definition mk_key :: "byte list \<Rightarrow> wkey" where
  "mk_key bs = (if length bs \<le> 0xff then WKey1 bs else WKey2 bs)"

definition str_wire :: "byte list \<Rightarrow> wire" where
  "str_wire bs = (if length bs \<le> 0xff then WStr1 bs else if length bs \<le> 0xffff then WStr2 bs else WStr4 bs)"

lemma fill_key_put: "rd_range s 0 n = Some bs \<Longrightarrow> fill_key m w s n = put m w (enc_key (mk_key bs))"
  using rd_range_bytes_at [of s 0 n bs]
  by (simp add: fill_key_def mk_key_def put_put_bind put_put fill_uint16_put if_distrib)

lemma fill_str_put: "rd_range s 0 n = Some bs \<Longrightarrow> fill_str m w s n = put m w (enc (str_wire bs))"
  using rd_range_bytes_at [of s 0 n bs]
  by (simp add: fill_str_def str_wire_def put_put_bind put_put fill_uint16_put fill_uint32_put if_distrib)

lemma length_mk_key: "length (enc_key (mk_key bs)) \<le> length bs + 4"
  by (simp add: mk_key_def)

lemma length_str_wire: "length (enc (str_wire bs)) \<le> length bs + 6"
  by (simp add: str_wire_def)

lemma key_bytes_mk_key [simp]: "key_bytes (mk_key bs) = bs"
  by (simp add: mk_key_def)

lemma wf_mk_key: "length bs < 2 ^ 16 \<Longrightarrow> wf_key (mk_key bs)"
  by (simp add: mk_key_def)

lemma wf_str_wire: "length bs < 2 ^ 32 \<Longrightarrow> wf_wire (str_wire bs)"
  by (simp add: str_wire_def)

text \<open>The text an argument of a call stands for: \<open>len\<close> characters, or up to its null.\<close>

definition text_arg :: "cstr \<Rightarrow> int \<Rightarrow> byte list \<Rightarrow> bool" where
  "text_arg s len bs \<longleftrightarrow>
     (if 0 \<ge> len then 0 \<notin> set bs \<and> take (length bs + 1) s = bs @ [0] \<and> length bs < 2 ^ 31
      else nat len = length bs \<and> take (length bs) s = bs)"

section \<open>Integers\<close>

definition int_wire :: "int64 \<Rightarrow> wire" where
  "int_wire v =
     (if - 128 \<le> sint v \<and> sint v \<le> 127 then WInt1 (scast v)
      else if - 32768 \<le> sint v \<and> sint v \<le> 32767 then WInt2 (scast v)
      else if - 2147483648 \<le> sint v \<and> sint v \<le> 2147483647 then WInt4 (scast v)
      else WInt8 v)"

lemma sint_scast_small:
  fixes v :: int64
  shows "- 128 \<le> sint v \<Longrightarrow> sint v \<le> 127 \<Longrightarrow> sint (scast v :: byte) = sint v"
    and "- 32768 \<le> sint v \<Longrightarrow> sint v \<le> 32767 \<Longrightarrow> sint (scast v :: uint16) = sint v"
    and "- 2147483648 \<le> sint v \<Longrightarrow> sint v \<le> 2147483647 \<Longrightarrow> sint (scast v :: uint32) = sint v"
  by (simp_all add: signed_scast_eq signed_take_bit_int_eq_self)

text \<open>The value read back is the number pushed, in the fewest of 1, 2, 4 and 8 bytes it fits.\<close>

lemma wire_int_wire [simp]: "wire_int (int_wire v) = Some (sint v)"
  by (simp add: int_wire_def sint_scast_small)

lemma wf_int_wire [simp]: "wf_wire (int_wire v)"
  by (simp add: int_wire_def)

end
