(* ===== verification/BuilderSpec.thy ===== *)
theory BuilderSpec imports Fill begin

text \<open>
  What the builder promises: a tree of values with a path of open containers, and the proof that
  every operation of \<^verbatim>\<open>builder.c\<close> does on the bytes what its counterpart does on the tree.
\<close>

section \<open>The tree under construction\<close>

text \<open>
  \<open>Open\<close> holds the open containers, the innermost first, each with its key in the one around it;
  \<open>Open []\<close> is the empty builder.  \<open>Closed\<close> is a complete value.
\<close>

datatype content = CObj "(wkey \<times> wire) list" | CArr "wire list"

type_synonym frame = "wkey option \<times> content"

datatype tree = Open "frame list" | Closed wire

fun content_wire :: "content \<Rightarrow> wire" where
  "content_wire (CObj kvs) = WObj kvs"
| "content_wire (CArr ws) = WArr ws"

fun content_tag :: "content \<Rightarrow> byte" where
  "content_tag (CObj kvs) = tag VAL_OBJ"
| "content_tag (CArr ws) = tag VAL_ARRAY"

fun content_bytes :: "content \<Rightarrow> byte list" where
  "content_bytes (CObj kvs) = enc_members kvs"
| "content_bytes (CArr ws) = enc_elements ws"

text \<open>What is wrong with adding a member with this key: an error code and its text.\<close>

fun misplaced :: "tree \<Rightarrow> wkey option \<Rightarrow> (int \<times> string) option" where
  "misplaced (Closed w) k = Some (OPO_ERR_OVERFLOW, ''only one element can be in a builder'')"
| "misplaced (Open []) None = None"
| "misplaced (Open []) (Some k) = Some (OPO_ERR_ARG, ''only members of an object are keyed'')"
| "misplaced (Open ((_, CObj _) # _)) None = Some (OPO_ERR_ARG, ''members of an object must be keyed'')"
| "misplaced (Open ((_, CObj _) # _)) (Some k) = None"
| "misplaced (Open ((_, CArr _) # _)) None = None"
| "misplaced (Open ((_, CArr _) # _)) (Some k) = Some (OPO_ERR_ARG, ''only members of an object are keyed'')"

fun add_item :: "wkey option \<Rightarrow> wire \<Rightarrow> tree \<Rightarrow> tree" where
  "add_item k w (Closed v) = Closed v"
| "add_item k w (Open []) = Closed w"
| "add_item k w (Open ((k', CArr ws) # fs)) = Open ((k', CArr (ws @ [w])) # fs)"
| "add_item k w (Open ((k', CObj kvs) # fs)) = Open ((k', CObj (kvs @ [(the k, w)])) # fs)"

fun open_container :: "wkey option \<Rightarrow> content \<Rightarrow> tree \<Rightarrow> tree" where
  "open_container k c (Closed v) = Closed v"
| "open_container k c (Open fs) = Open ((k, c) # fs)"

fun close_container :: "tree \<Rightarrow> tree" where
  "close_container (Open ((k, c) # fs)) = add_item k (content_wire c) (Open fs)"
| "close_container t = t"

fun depth :: "tree \<Rightarrow> nat" where
  "depth (Open fs) = length fs"
| "depth (Closed w) = 0"

text \<open>All open containers are closed at the end.\<close>

definition close_all :: "tree \<Rightarrow> tree" where
  "close_all t = (close_container ^^ depth t) t"

section \<open>The layout of the bytes\<close>

fun opt_key :: "wkey option \<Rightarrow> byte list" where
  "opt_key None = []"
| "opt_key (Some k) = enc_key k"

text \<open>
  \<open>os\<close> are the offsets on the stack, the innermost first.  The four length bytes of an open
  container hold anything, and the id in front of the value is 0.
\<close>

fun frames_at :: "frame list \<Rightarrow> nat list \<Rightarrow> byte list \<Rightarrow> bool" where
  "frames_at [] os bs \<longleftrightarrow> os = [] \<and> bs = replicate 8 0"
| "frames_at ((k, c) # fs) os bs \<longleftrightarrow>
     (\<exists>os' pre len. os = (length pre + length (opt_key k)) # os' \<and> frames_at fs os' pre \<and>
        length len = 4 \<and> misplaced (Open fs) k = None \<and>
        bs = pre @ opt_key k @ content_tag c # len @ content_bytes c)"

fun laid_out :: "tree \<Rightarrow> nat list \<Rightarrow> byte list \<Rightarrow> bool" where
  "laid_out (Open fs) os bs \<longleftrightarrow> frames_at fs os bs"
| "laid_out (Closed w) os bs \<longleftrightarrow> os = [] \<and> bs = replicate 8 0 @ enc w"

text \<open>The builder holds the bytes \<open>bs\<close> and the stack \<open>os\<close>.\<close>

definition holds :: "builder \<Rightarrow> nat list \<Rightarrow> byte list \<Rightarrow> bool" where
  "holds b os bs \<longleftrightarrow> (\<exists>m. bhead b = Some m \<and> length m = bend b \<and> bcur b \<le> bend b \<and>
     take (bcur b) m = bs) \<and>
     length (bstack b) = OPO_MSG_MAX_DEPTH \<and> btop b \<le> OPO_MSG_MAX_DEPTH \<and>
     os = rev (take (btop b) (bstack b))"

definition builds :: "builder \<Rightarrow> tree \<Rightarrow> bool" where
  "builds b t \<longleftrightarrow> (\<exists>os bs. holds b os bs \<and> laid_out t os bs)"

text \<open>
  The buffer has room for \<open>n\<close> more bytes, or it may grow (\<open>g\<close>): it belongs to the builder and
  \<open>malloc\<close> gives what it is asked for.  Offsets fit an \<open>int\<close>.
\<close>

definition alloc_ok :: "allocator \<Rightarrow> bool" where
  "alloc_ok alloc \<longleftrightarrow> (\<forall>n. \<exists>m. alloc n = Some m \<and> length m = n)"

definition has_room :: "bool \<Rightarrow> allocator \<Rightarrow> builder \<Rightarrow> nat \<Rightarrow> bool" where
  "has_room g alloc b n \<longleftrightarrow> (g \<and> bown b \<and> alloc_ok alloc \<or> bcur b + n < bend b) \<and> bcur b + n < 2 ^ 31"

section \<open>Growing and appending\<close>

lemma has_room_mono: "has_room g alloc b n \<Longrightarrow> k \<le> n \<Longrightarrow> has_room g alloc b k"
  by (auto simp: has_room_def)

lemma holds_length: "holds b os bs \<Longrightarrow> bcur b = length bs"
  by (auto simp: holds_def)

lemma assure_ok:
  assumes h: "holds b os bs" and r: "has_room g alloc b (sz + n)"
  shows "\<exists>b'. builder_assure alloc err b sz = Some (b', err, OPO_ERR_OK) \<and> holds b' os bs \<and>
    bcur b' + sz < bend b' \<and> has_room g alloc b' (sz + n) \<and> btop b' = btop b \<and> bown b' = bown b"
proof (cases "bend b \<le> bcur b + sz")
  case False
  then show ?thesis using h r by (auto simp: builder_assure_def holds_def)
next
  case True
  define k where "k = bend b + MSG_INC + sz"
  from h obtain m where m: "bhead b = Some m" "length m = bend b" "bcur b \<le> bend b"
    "take (bcur b) m = bs" by (auto simp: holds_def)
  from True r have own: "bown b" "alloc_ok alloc" by (auto simp: has_room_def)
  then obtain fresh where fresh: "alloc k = Some fresh" "length fresh = k"
    by (auto simp: alloc_ok_def)
  have "bcur b < 2 ^ 31" using r by (simp add: has_room_def)
  then have off: "sint (of_nat (bcur b) :: uint32) = int (bcur b)" by (rule sint_u32_len)
  let ?m = "take k m @ drop (length m) fresh"
  have "length ?m = k" "take (bcur b) ?m = bs"
    using m fresh(2) by (simp_all add: k_def)
  then show ?thesis using True h r m own fresh
    by (auto simp: builder_assure_def realloc_def holds_def has_room_def off k_def Let_def MSG_INC_def)
qed

lemma at_cur_put:
  assumes h: "holds b os bs" and r: "bcur b + length xs \<le> bend b"
    and f: "\<And>m w. f m w = put m w xs"
  shows "\<exists>b'. at_cur b f = Some b' \<and> holds b' os (bs @ xs) \<and> btop b' = btop b \<and>
    bown b' = bown b \<and> bend b' = bend b \<and> bcur b' = bcur b + length xs"
proof -
  from h obtain m where m: "bhead b = Some m" "length m = bend b" "bcur b \<le> bend b"
    "take (bcur b) m = bs" by (auto simp: holds_def)
  from r m(2) obtain m' where p: "put m (bcur b) xs = Some (m', bcur b + length xs)"
    by (simp add: put_def)
  with put_take [OF p] put_length [OF p] m h r show ?thesis
    by (auto simp: at_cur_def f holds_def)
qed

lemma push_filled_ok:
  assumes h: "holds b os bs" and r: "has_room g alloc b (sz + n)" and x: "length xs \<le> sz"
    and f: "\<And>m w. f m w = put m w xs"
  shows "\<exists>b'. push_filled alloc err b sz f = Some (b', err, OPO_ERR_OK) \<and>
    holds b' os (bs @ xs) \<and> has_room g alloc b' n \<and> btop b' = btop b"
proof -
  from assure_ok [OF h r] obtain b1 where
    b1: "builder_assure alloc err b sz = Some (b1, err, OPO_ERR_OK)" "holds b1 os bs"
    "bcur b1 + sz < bend b1" "has_room g alloc b1 (sz + n)" "btop b1 = btop b"
    by blast
  from at_cur_put [OF b1(2) _ f] b1(3) x obtain b2 where
    b2: "at_cur b1 f = Some b2" "holds b2 os (bs @ xs)" "btop b2 = btop b1" "bown b2 = bown b1"
    "bend b2 = bend b1" "bcur b2 = bcur b1 + length xs"
    by fastforce
  with b1 x show ?thesis by (auto simp: push_filled_def on_ok_def has_room_def)
qed

text \<open>The key and string operations are fills behind an \<open>assure\<close> too.\<close>

lemma append_byte_filled:
  "builder_append_byte alloc err b x = push_filled alloc err b 1 (\<lambda>m w. put m w [x])"
  by (simp add: builder_append_byte_def push_filled_def)

lemma push_str_filled:
  "builder_push_str alloc err b s n = push_filled alloc err b (n + 6) (\<lambda>m w. fill_str m w s n)"
  by (simp add: builder_push_str_def push_filled_def)

lemma push_key_filled:
  "builder_push_key alloc err b s n = push_filled alloc err b (n + 4) (\<lambda>m w. fill_key m w s n)"
  by (simp add: builder_push_key_def push_filled_def)

section \<open>Text arguments\<close>

fun key_arg :: "cstr option \<Rightarrow> int \<Rightarrow> wkey option \<Rightarrow> bool" where
  "key_arg None len k \<longleftrightarrow> k = None"
| "key_arg (Some s) len k \<longleftrightarrow> (\<exists>bs. text_arg s len bs \<and> k = Some (mk_key bs))"

text \<open>What \<open>check_key\<close> asks \<open>builder_assure\<close> for.\<close>

fun key_room :: "wkey option \<Rightarrow> nat" where
  "key_room None = 0"
| "key_room (Some k) = length (key_bytes k) + 4"

lemma c_len_int:
  assumes "n < 2 ^ 31"
  shows "unat (scast (of_nat n :: uint32) :: uint64) = n"
proof -
  have "(scast (of_nat n :: uint32) :: uint64) = word_of_int (sint (of_nat n :: uint32))" by simp
  also have "\<dots> = of_nat n" using sint_u32_len [OF assms] by simp
  finally show ?thesis using assms by (simp add: unat_of_nat_len)
qed

lemma text_argD:
  assumes "text_arg s len bs"
  shows "c_len s len = Some (length bs) \<and> rd_range s 0 (length bs) = Some bs"
proof (cases "0 \<ge> len")
  case True
  with assms have t: "0 \<notin> set bs" "take (length bs + 1) s = bs @ [0]" "length bs < 2 ^ 31"
    by (simp_all add: text_arg_def)
  have s: "s = bs @ 0 # drop (length bs + 1) s"
    using t(2) by (metis append_take_drop_id append_assoc append_Cons append_Nil)
  have "strlen s = Some (length bs)" by (subst s) (simp add: strlen_append t(1))
  moreover have "rd_range s 0 (length bs) = Some bs" by (subst s) (simp add: rd_range_def)
  ultimately show ?thesis using True t(3) by (simp add: c_len_def c_len_int)
next
  case False
  with assms have "nat len = length bs" "take (length bs) s = bs" by (simp_all add: text_arg_def)
  moreover from this have "length bs \<le> length s" by (metis length_take min.cobounded1)
  ultimately show ?thesis using False by (simp add: c_len_def rd_range_def)
qed

section \<open>The checks before a member is added\<close>

lemma fail_simp [simp]: "fail b err c s = Some (b, err_set err c s, c)"
  by (simp add: fail_def opo_err_set_err_set)

lemma on_ok_ok [simp]: "on_ok (Some (b, err, OPO_ERR_OK)) f = f b err"
  by (simp add: on_ok_def)

lemma on_ok_fail [simp]:
  "c \<noteq> OPO_ERR_OK \<Longrightarrow> on_ok (Some (b, err_set err c s, c)) f = Some (b, err_set err c s, c)"
  by (simp add: on_ok_def)

lemma on_ok_id: "on_ok (push_filled alloc err b n f) (\<lambda>b err. Some (b, err, OPO_ERR_OK)) =
    push_filled alloc err b n f"
  by (auto simp: push_filled_def on_ok_def builder_assure_def Let_def bind_eq_Some_conv
      split: option.splits Option.bind_splits if_splits)

lemma holds_stack:
  assumes h: "holds b (o1 # os) bs" and l: "o1 < length bs"
  shows "0 < btop b \<and> nth_opt (bstack b) (btop b - 1) = Some o1 \<and> top_tag b = Some (bs ! o1)"
proof -
  have r: "rev (take (btop b) (bstack b)) = o1 # os" "btop b \<le> length (bstack b)"
    using h by (auto simp: holds_def)
  then have t: "0 < btop b" by (cases "btop b") auto
  have "take (btop b) (bstack b) = rev os @ [o1]" using r(1) by (metis rev.simps(2) rev_rev_ident)
  moreover have "take (btop b) (bstack b) =
      take (btop b - 1) (bstack b) @ [bstack b ! (btop b - 1)]"
    using t r(2) take_Suc_conv_app_nth [of "btop b - 1" "bstack b"] by simp
  ultimately have o1: "bstack b ! (btop b - 1) = o1" by simp
  then have n: "nth_opt (bstack b) (btop b - 1) = Some o1" using t r(2) by (simp add: nth_opt_def)
  from h obtain m where m: "bhead b = Some m" "take (bcur b) m = bs" "bcur b \<le> length m"
    by (auto simp: holds_def)
  then have "rd m o1 = Some (bs ! o1)" using l by (auto simp: rd_def)
  with t n m(1) show ?thesis by (simp add: top_tag_def)
qed

lemma frames_nth:
  assumes "frames_at ((k, c) # fs) (o1 # os) bs"
  shows "o1 + 5 \<le> length bs \<and> bs ! o1 = content_tag c"
  using assms by (auto simp: nth_append)

lemma frames_length: "frames_at fs os bs \<Longrightarrow> 8 \<le> length bs \<and> length os = length fs"
  by (induction fs os bs rule: frames_at.induct) (auto, force+)

text \<open>
  \<open>check_key\<close> refuses exactly what is misplaced, and otherwise appends the key.
\<close>

lemma check_key_ok:
  assumes b: "holds b os bs" "laid_out t os bs" and k: "key_arg key klen k"
    and r: "has_room g alloc b (key_room k + n)"
  shows "case misplaced t k of
      Some (c, s) \<Rightarrow> check_key alloc err b key klen = Some (b, err_set err c s, c)
    | None \<Rightarrow> \<exists>b'. check_key alloc err b key klen = Some (b', err, OPO_ERR_OK) \<and>
        holds b' os (bs @ opt_key k) \<and> has_room g alloc b' n \<and> btop b' = btop b"
proof -
  have head: "\<exists>m. bhead b = Some m" using b(1) by (auto simp: holds_def)
  have cur: "bcur b = length bs" using b(1) by (rule holds_length)
  have nk: "key = None \<longleftrightarrow> k = None" using k by (cases key) auto
  have top0: "btop b = 0" if "os = []" using b(1) that by (auto simp: holds_def)
  show ?thesis
  proof (cases t)
    case (Closed w)
    then have "os = []" "8 < bcur b" using b(2) cur length_enc_pos [of w] by auto
    with Closed head top0 show ?thesis by (auto simp: check_key_def)
  next
    case (Open fs)
    show ?thesis
    proof (cases fs)
      case Nil
      with Open b(2) have "os = []" "bcur b = 8" using cur by auto
      with Nil Open head top0 nk b(1) has_room_mono [OF r] show ?thesis
        by (cases k) (auto simp: check_key_def)
    next
      case (Cons f fs')
      obtain k' c where f: "f = (k', c)" by fastforce
      with Open Cons b(2) obtain o1 os' where os: "os = o1 # os'" by auto
      have fr: "o1 + 5 \<le> length bs" "bs ! o1 = content_tag c"
        using frames_nth [of k' c fs' o1 os' bs] b(2) by (simp_all add: Open Cons f os)
      have "holds b (o1 # os') bs" using b(1) by (simp add: os)
      from holds_stack [OF this] fr have st: "0 < btop b" "top_tag b = Some (content_tag c)"
        by simp_all
      show ?thesis
      proof (cases key)
        case None
        with nk k st b(1) has_room_mono [OF r] show ?thesis
          by (cases c) (auto simp: Open Cons f check_key_def)
      next
        case (Some s)
        with k obtain bs' where kb: "text_arg s klen bs'" "k = Some (mk_key bs')" by auto
        note d = text_argD [OF kb(1)]
        show ?thesis
        proof (cases c)
          case (CArr ws)
          with Some kb st show ?thesis by (simp add: Open Cons f check_key_def)
        next
          case (CObj kvs)
          have "has_room g alloc b ((length bs' + 4) + n)" using r kb(2) by simp
          from push_filled_ok [OF b(1) this length_mk_key fill_key_put [OF conjunct2 [OF d]]]
          obtain b' where "builder_push_key alloc err b s (length bs') = Some (b', err, OPO_ERR_OK)"
            "holds b' os (bs @ enc_key (mk_key bs'))" "has_room g alloc b' n" "btop b' = btop b"
            unfolding push_key_filled by blast
          with CObj Some kb st d show ?thesis by (simp add: Open Cons f check_key_def)
        qed
      qed
    qed
  qed
qed

section \<open>Adding a value\<close>

lemma frames_atI:
  "frames_at fs os pre \<Longrightarrow> length len = 4 \<Longrightarrow> misplaced (Open fs) k = None \<Longrightarrow>
   frames_at ((k, c) # fs) ((length pre + length (opt_key k)) # os)
     (pre @ opt_key k @ content_tag c # len @ content_bytes c)"
  by (simp, blast)

lemma frames_add:
  assumes "frames_at fs os bs" and "misplaced (Open fs) k = None"
  shows "laid_out (add_item k w (Open fs)) os (bs @ opt_key k @ enc w)"
proof (cases fs)
  case Nil
  with assms show ?thesis by (cases k) auto
next
  case (Cons f fs')
  obtain k' c where f: "f = (k', c)" by fastforce
  from assms(1) obtain os' pre len where
    pre: "os = (length pre + length (opt_key k')) # os'" "frames_at fs' os' pre" "length len = 4"
      "misplaced (Open fs') k' = None" "bs = pre @ opt_key k' @ content_tag c # len @ content_bytes c"
    by (auto simp: Cons f)
  show ?thesis
  proof (cases c)
    case (CObj kvs)
    with assms(2) obtain k0 where "k = Some k0" by (cases k) (auto simp: Cons f)
    with CObj show ?thesis using frames_atI [OF pre(2-4), of "CObj (kvs @ [(k0, w)])"]
      by (simp add: Cons f pre(1,5) enc_members_append del: frames_at.simps)
  next
    case (CArr ws)
    with assms(2) have "k = None" by (cases k) (auto simp: Cons f)
    with CArr show ?thesis using frames_atI [OF pre(2-4), of "CArr (ws @ [w])"]
      by (simp add: Cons f pre(1,5) enc_elements_append del: frames_at.simps)
  qed
qed

lemma misplaced_code: "misplaced t k = Some (c, s) \<Longrightarrow> c \<noteq> OPO_ERR_OK"
  by (induction t k rule: misplaced.induct) (auto simp: opo_err_codes)

text \<open>
  The contract of an operation that adds one value: it checks the key, asks for at least the room
  the value takes, and stores the bytes of the value.
\<close>

locale item_push =
  fixes push :: "allocator \<Rightarrow> opoErr \<Rightarrow> builder \<Rightarrow> cstr option \<Rightarrow> int \<Rightarrow> result"
    and w :: wire
    and sz :: nat
    and fill :: "mem \<Rightarrow> ptr \<Rightarrow> (mem \<times> ptr) option"
  assumes push_shape: "push alloc err b key klen =
      on_ok (check_key alloc err b key klen) (\<lambda>b err. push_filled alloc err b sz fill)"
    and fill_enc: "fill m p = put m p (enc w)"
    and enc_fits: "length (enc w) \<le> sz"
begin

lemma push_refines:
  assumes "builds b t" and k: "key_arg key klen k" and r: "has_room g alloc b (key_room k + (sz + n))"
  shows "case misplaced t k of
      Some (c, s) \<Rightarrow> push alloc err b key klen = Some (b, err_set err c s, c)
    | None \<Rightarrow> \<exists>b'. push alloc err b key klen = Some (b', err, OPO_ERR_OK) \<and>
        builds b' (add_item k w t) \<and> has_room g alloc b' n"
proof -
  from assms(1) obtain os bs where b: "holds b os bs" "laid_out t os bs" by (auto simp: builds_def)
  note ck = check_key_ok [OF b k r, of err]
  show ?thesis
  proof (cases "misplaced t k")
    case (Some e)
    then obtain c s where e: "misplaced t k = Some (c, s)" by (cases e) auto
    with misplaced_code [OF e] ck show ?thesis by (simp add: push_shape)
  next
    case None
    with ck obtain b1 where b1: "check_key alloc err b key klen = Some (b1, err, OPO_ERR_OK)"
      "holds b1 os (bs @ opt_key k)" "has_room g alloc b1 (sz + n)" by auto
    from push_filled_ok [OF b1(2,3) enc_fits fill_enc] obtain b2 where
      b2: "push_filled alloc err b1 sz fill = Some (b2, err, OPO_ERR_OK)"
      "holds b2 os (bs @ opt_key k @ enc w)" "has_room g alloc b2 n" by auto
    obtain fs where t: "t = Open fs" using None by (cases t) auto
    with b(2) None frames_add [of fs os bs k w] b2 b1(1) show ?thesis
      by (auto simp: push_shape builds_def)
  qed
qed

end

text \<open>The values the operations add.\<close>

interpretation push_null: item_push opo_builder_push_null WNull 1 "\<lambda>m w. put m w [tag VAL_NULL]"
  by unfold_locales (simp_all add: opo_builder_push_null_def append_byte_filled)

interpretation push_bool: item_push "\<lambda>alloc err b. opo_builder_push_bool alloc err b v" "WBool v" 1
    "\<lambda>m w. put m w [tag (if v then VAL_TRUE else VAL_FALSE)]" for v
  by unfold_locales (simp_all add: opo_builder_push_bool_def append_byte_filled)

interpretation push_uuid: item_push "\<lambda>alloc err b. opo_builder_push_uuid alloc err b hi lo"
    "WUuid hi lo" 17
    "\<lambda>m w. do { (m, w) \<leftarrow> put m w [tag VAL_UUID]; (m, w) \<leftarrow> fill_uint64 m w hi; fill_uint64 m w lo }"
    for hi lo
  by unfold_locales (simp_all add: opo_builder_push_uuid_def fill_uint64_put put_put_bind put_put)

interpretation push_time: item_push "\<lambda>alloc err b. opo_builder_push_time alloc err b v" "WTime v" 9
    "\<lambda>m w. do { (m, w) \<leftarrow> put m w [tag VAL_TIME]; fill_uint64 m w v }" for v
  by unfold_locales (simp_all add: opo_builder_push_time_def fill_uint64_put put_put_bind put_put)

text \<open>The others add what their arguments stand for.\<close>

lemma push_int_item:
  "\<exists>fill. item_push (\<lambda>alloc err b. opo_builder_push_int alloc err b v) (int_wire v)
     (length (enc (int_wire v))) fill"
proof -
  consider "- 128 \<le> sint v" "sint v \<le> 127"
    | "\<not> (- 128 \<le> sint v \<and> sint v \<le> 127)" "- 32768 \<le> sint v" "sint v \<le> 32767"
    | "\<not> (- 32768 \<le> sint v \<and> sint v \<le> 32767)" "- 2147483648 \<le> sint v" "sint v \<le> 2147483647"
    | "\<not> (- 2147483648 \<le> sint v \<and> sint v \<le> 2147483647)"
    by blast
  then show ?thesis
  proof cases
    case 1
    then have "item_push (\<lambda>alloc err b. opo_builder_push_int alloc err b v) (int_wire v)
        (length (enc (int_wire v)))
        (\<lambda>m w. put m w [tag VAL_INT1, scast v])"
      by unfold_locales (simp_all add: opo_builder_push_int_def int_wire_def numeral_2_eq_2)
    then show ?thesis by blast
  next
    case 2
    then have "item_push (\<lambda>alloc err b. opo_builder_push_int alloc err b v) (int_wire v)
        (length (enc (int_wire v)))
        (\<lambda>m w. do { (m, w) \<leftarrow> put m w [tag VAL_INT2]; fill_uint16 m w (scast v) })"
      by unfold_locales (auto simp: opo_builder_push_int_def int_wire_def fill_uint16_put put_put)
    then show ?thesis by blast
  next
    case 3
    then have "item_push (\<lambda>alloc err b. opo_builder_push_int alloc err b v) (int_wire v)
        (length (enc (int_wire v)))
        (\<lambda>m w. do { (m, w) \<leftarrow> put m w [tag VAL_INT4]; fill_uint32 m w (scast v) })"
      by unfold_locales (auto simp: opo_builder_push_int_def int_wire_def fill_uint32_put put_put)
    then show ?thesis by blast
  next
    case 4
    then have "item_push (\<lambda>alloc err b. opo_builder_push_int alloc err b v) (int_wire v)
        (length (enc (int_wire v)))
        (\<lambda>m w. do { (m, w) \<leftarrow> put m w [tag VAL_INT8]; fill_uint64 m w v })"
      by unfold_locales (auto simp: opo_builder_push_int_def int_wire_def fill_uint64_put put_put)
    then show ?thesis by blast
  qed
qed

lemma push_double_item:
  assumes "s = (if whole fmt v then fmt_1f fmt v else fmt_15g fmt v)" and "length s < 63"
  shows "item_push (\<lambda>alloc err b. opo_builder_push_double fmt alloc err b v) (WDec s) (length s + 2)
    (\<lambda>m w. do { (m, w) \<leftarrow> put m w [tag VAL_DEC, of_nat (length s)];
               if length s < 63 then put m w s else None })"
  using assms(2)
  by unfold_locales (simp_all add: opo_builder_push_double_def put_put Let_def flip: assms(1))

lemma push_string_item:
  assumes "text_arg s len bs"
  shows "item_push (\<lambda>alloc err b. opo_builder_push_string alloc err b s len) (str_wire bs)
    (length bs + 6) (\<lambda>m w. fill_str m w s (length bs))"
  using text_argD [OF assms] length_str_wire [of bs]
  by unfold_locales
    (simp_all add: opo_builder_push_string_def push_str_filled fill_str_put on_ok_id)

lemma push_val_item:
  assumes "wf_wire w" and "bytes_at vm p (enc w)"
  shows "item_push (\<lambda>alloc err b. opo_builder_push_val alloc err b vm (Some p)) w
    (length (enc w)) (\<lambda>m q. do { bs \<leftarrow> rd_range vm p (length (enc w)); put m q bs })"
  using bsize_enc [OF assms] bytes_at_rd_range [OF assms(2) bytes_at_bound [OF assms(2)]]
  by unfold_locales (simp_all add: opo_builder_push_val_def)

lemma push_uuid_string_item:
  "item_push (\<lambda>alloc err b. opo_builder_push_uuid_string alloc err b (uuid_text hi lo @ t))
     (WUuid hi lo) 17 (\<lambda>m w. fill_uuid m w (uuid_text hi lo @ t))"
  by unfold_locales (simp_all only: opo_builder_push_uuid_string_def fill_uuid_text, simp)

section \<open>Opening a container\<close>

lemma push_start_ok:
  assumes h: "holds b os bs" and d: "btop b < OPO_MSG_MAX_DEPTH"
  shows "\<exists>b'. push_start b = Some b' \<and> holds b' (length bs # os) bs \<and>
    bend b' = bend b \<and> bcur b' = bcur b \<and> bown b' = bown b"
proof -
  have "bcur b = length bs" using h by (rule holds_length)
  then show ?thesis using h d
    by (auto simp: push_start_def holds_def Let_def take_Suc_conv_app_nth)
qed

lemma skip_ok:
  assumes h: "holds b os bs" and r: "bcur b + n \<le> bend b"
  shows "\<exists>xs. length xs = n \<and> holds (b\<lparr>bcur := bcur b + n\<rparr>) os (bs @ xs)"
proof -
  from h obtain m where m: "bhead b = Some m" "length m = bend b" "take (bcur b) m = bs"
    by (auto simp: holds_def)
  have "take (bcur b + n) m = bs @ take n (drop (bcur b) m)"
    by (simp add: take_add m(3))
  with m h r show ?thesis
    by (intro exI [of _ "take n (drop (bcur b) m)"]) (auto simp: holds_def)
qed

lemma depth_btop: "holds b os bs \<Longrightarrow> laid_out t os bs \<Longrightarrow> btop b = depth t"
  by (cases t) (auto simp: holds_def dest: frames_length)

text \<open>The tag and the four bytes kept for the length.\<close>

lemma header_ok:
  assumes h: "holds b os bs" and r: "bcur b + 5 \<le> bend b"
  shows "\<exists>b' len. at_cur b (\<lambda>m w. put m w [tag t]) = Some b' \<and> length len = 4 \<and>
    holds (b'\<lparr>bcur := bcur b' + 4\<rparr>) os (bs @ tag t # len) \<and> bend b' = bend b \<and>
    bown b' = bown b \<and> bcur b' = bcur b + 1"
proof -
  from at_cur_put [OF h, of "[tag t]"] r obtain b' where
    b': "at_cur b (\<lambda>m w. put m w [tag t]) = Some b'" "holds b' os (bs @ [tag t])"
    "bown b' = bown b" "bend b' = bend b" "bcur b' = bcur b + 1"
    by fastforce
  with skip_ok [OF b'(2), of 4] r show ?thesis by fastforce
qed

lemma open_frames:
  "laid_out (Open fs) os bs \<Longrightarrow> misplaced (Open fs) k = None \<Longrightarrow> length len = 4 \<Longrightarrow>
   laid_out (open_container k c (Open fs)) ((length bs + length (opt_key k)) # os)
     ((bs @ opt_key k) @ content_tag c # len @ content_bytes c)"
  using frames_atI [of fs os bs len k c] by (simp del: frames_at.simps)

text \<open>What both operations do before they may grow the buffer, and what they do after it.\<close>

lemma open_start_ok:
  assumes b: "holds b os bs" "laid_out t os bs" and k: "key_arg key klen k"
    and d: "depth t < OPO_MSG_MAX_DEPTH" and r: "has_room g alloc b (key_room k + n)"
    and m: "misplaced t k = None"
  shows "\<exists>b1 b2. check_key alloc err b key klen = Some (b1, err, OPO_ERR_OK) \<and>
    push_start b1 = Some b2 \<and> holds b2 (length (bs @ opt_key k) # os) (bs @ opt_key k) \<and>
    has_room g alloc b2 n"
proof -
  from check_key_ok [OF b k r, of err] m obtain b1 where
    b1: "check_key alloc err b key klen = Some (b1, err, OPO_ERR_OK)"
    "holds b1 os (bs @ opt_key k)" "has_room g alloc b1 n" "btop b1 = btop b" by auto
  then have "btop b1 < OPO_MSG_MAX_DEPTH" using depth_btop [OF b] d by simp
  from push_start_ok [OF b1(2) this] obtain b2 where
    b2: "push_start b1 = Some b2" "holds b2 (length (bs @ opt_key k) # os) (bs @ opt_key k)"
    "bend b2 = bend b1" "bcur b2 = bcur b1" "bown b2 = bown b1" by blast
  with b1 show ?thesis by (auto simp: has_room_def)
qed

lemma open_end_ok:
  assumes h: "holds b (length (bs @ opt_key k) # os) (bs @ opt_key k)" and t: "laid_out t os bs"
    and m: "misplaced t k = None" and r: "bcur b + 5 \<le> bend b" "has_room g alloc b (5 + n)"
    and c: "content_tag c = tag v" "content_bytes c = []"
  shows "\<exists>b'. at_cur b (\<lambda>m w. put m w [tag v]) = Some b' \<and>
    builds (b'\<lparr>bcur := bcur b' + 4\<rparr>) (open_container k c t) \<and>
    has_room g alloc (b'\<lparr>bcur := bcur b' + 4\<rparr>) n"
proof -
  from header_ok [OF h r(1), of v] obtain b' len where
    b': "at_cur b (\<lambda>m w. put m w [tag v]) = Some b'" "length len = 4"
    "holds (b'\<lparr>bcur := bcur b' + 4\<rparr>) (length (bs @ opt_key k) # os) ((bs @ opt_key k) @ tag v # len)"
    "bend b' = bend b" "bown b' = bown b" "bcur b' = bcur b + 1" by blast
  obtain fs where "t = Open fs" using m by (cases t) auto
  with open_frames [of fs os bs k len c] t m b'(2) c
  have "laid_out (open_container k c t) (length (bs @ opt_key k) # os) ((bs @ opt_key k) @ tag v # len)"
    by simp
  moreover have "has_room g alloc (b'\<lparr>bcur := bcur b' + 4\<rparr>) n"
    using r(2) b'(4-6) by (auto simp: has_room_def)
  ultimately show ?thesis using b' by (auto simp: builds_def)
qed

lemma push_object_ok:
  assumes "builds b t" and k: "key_arg key klen k"
    and d: "misplaced t k = None \<Longrightarrow> depth t < OPO_MSG_MAX_DEPTH"
    and r: "has_room g alloc b (key_room k + (5 + n))"
  shows "case misplaced t k of
      Some (c, s) \<Rightarrow> opo_builder_push_object alloc err b key klen = Some (b, err_set err c s, c)
    | None \<Rightarrow> \<exists>b'. opo_builder_push_object alloc err b key klen = Some (b', err, OPO_ERR_OK) \<and>
        builds b' (open_container k (CObj []) t) \<and> has_room g alloc b' n"
proof -
  from assms(1) obtain os bs where b: "holds b os bs" "laid_out t os bs" by (auto simp: builds_def)
  have deep: "\<not> too_deep b" using b(1) by (simp add: too_deep_def holds_def)
  show ?thesis
  proof (cases "misplaced t k")
    case (Some e)
    then obtain c s where e: "misplaced t k = Some (c, s)" by (cases e) auto
    with misplaced_code [OF e] check_key_ok [OF b k r, of err] deep show ?thesis
      by (simp add: opo_builder_push_object_def)
  next
    case None
    from open_start_ok [OF b k d [OF None] r None, of err] obtain b1 b2 where
      b1: "check_key alloc err b key klen = Some (b1, err, OPO_ERR_OK)"
      and b2: "push_start b1 = Some b2" "holds b2 (length (bs @ opt_key k) # os) (bs @ opt_key k)"
      "has_room g alloc b2 (5 + n)" by blast
    from assure_ok [OF b2(2,3), of err] obtain b3 where
      b3: "builder_assure alloc err b2 5 = Some (b3, err, OPO_ERR_OK)"
      "holds b3 (length (bs @ opt_key k) # os) (bs @ opt_key k)" "bcur b3 + 5 \<le> bend b3"
      "has_room g alloc b3 (5 + n)" using less_imp_le by blast
    from open_end_ok [OF b3(2) b(2) None b3(3,4), of "CObj []" VAL_OBJ] None deep b1 b2(1) b3(1)
    show ?thesis by (auto simp: opo_builder_push_object_def)
  qed
qed

text \<open>
  \<open>opo_builder_push_array\<close> does not ask for the room its header takes, so it needs it to be there.
\<close>

lemma push_array_ok:
  assumes "builds b t" and k: "key_arg key klen k"
    and d: "misplaced t k = None \<Longrightarrow> depth t < OPO_MSG_MAX_DEPTH"
    and r: "has_room g alloc b (key_room k + (5 + n))" "has_room False alloc b (key_room k + 5)"
  shows "case misplaced t k of
      Some (c, s) \<Rightarrow> opo_builder_push_array alloc err b key klen = Some (b, err_set err c s, c)
    | None \<Rightarrow> \<exists>b'. opo_builder_push_array alloc err b key klen = Some (b', err, OPO_ERR_OK) \<and>
        builds b' (open_container k (CArr []) t) \<and> has_room g alloc b' n"
proof -
  from assms(1) obtain os bs where b: "holds b os bs" "laid_out t os bs" by (auto simp: builds_def)
  have deep: "\<not> too_deep b" using b(1) by (simp add: too_deep_def holds_def)
  show ?thesis
  proof (cases "misplaced t k")
    case (Some e)
    then obtain c s where e: "misplaced t k = Some (c, s)" by (cases e) auto
    with misplaced_code [OF e] check_key_ok [OF b k r(1), of err] deep show ?thesis
      by (simp add: opo_builder_push_array_def)
  next
    case None
    from open_start_ok [OF b k d [OF None] r(1) None, of err] obtain b1 b2 where
      b1: "check_key alloc err b key klen = Some (b1, err, OPO_ERR_OK)"
      and b2: "push_start b1 = Some b2" "holds b2 (length (bs @ opt_key k) # os) (bs @ opt_key k)"
      "has_room g alloc b2 (5 + n)" by blast
    from open_start_ok [OF b k d [OF None] r(2) None, of err] b1 b2(1)
    have "has_room False alloc b2 5" by auto
    then have "bcur b2 + 5 \<le> bend b2" by (simp add: has_room_def)
    from open_end_ok [OF b2(2) b(2) None this b2(3), of "CArr []" VAL_ARRAY] None deep b1 b2(1)
    show ?thesis by (auto simp: opo_builder_push_array_def)
  qed
qed

section \<open>Closing\<close>

text \<open>A store inside the bytes the builder holds.\<close>

lemma take_put_inside:
  assumes "put m w xs = Some (m', w')" and "w + length xs \<le> c" and "c \<le> length m"
  shows "take c m' = take w (take c m) @ xs @ drop (w + length xs) (take c m)"
proof -
  have "m' = take w m @ xs @ drop (w + length xs) m"
    using assms(1) by (auto simp: put_def split: if_splits)
  then show ?thesis using assms(2,3) by (simp add: drop_take min_absorb1)
qed

lemma patch_ok:
  assumes "holds b os bs" and "laid_out (Open ((k, c) # fs)) os bs"
  shows "\<exists>start b'. 0 < btop b \<and> nth_opt (bstack b) (btop b - 1) = Some start \<and>
    patch_length b start = Some b' \<and>
    builds (b'\<lparr>btop := btop b - 1\<rparr>) (close_container (Open ((k, c) # fs))) \<and>
    btop b' = btop b \<and> bcur b' = bcur b \<and> bend b' = bend b \<and> bown b' = bown b"
proof -
  from assms(2) obtain os' pre len where
    pre: "os = (length pre + length (opt_key k)) # os'" "frames_at fs os' pre" "length len = 4"
      "misplaced (Open fs) k = None" "bs = (pre @ opt_key k @ [content_tag c]) @ len @ content_bytes c"
    by auto
  define start where "start = length pre + length (opt_key k)"
  have st: "0 < btop b" "nth_opt (bstack b) (btop b - 1) = Some start"
    using holds_stack [of b start os' bs] assms(1) pre(1,3,5) by (simp_all add: start_def)
  from assms(1) obtain m where m: "bhead b = Some m" "length m = bend b" "bcur b \<le> bend b"
    "take (bcur b) m = bs" by (auto simp: holds_def)
  have cur: "bcur b = start + 5 + length (content_bytes c)"
    using holds_length [OF assms(1)] pre(3,5) by (simp add: start_def)
  define n where "n = (of_nat (length (content_bytes c)) :: uint32)"
  have "of_int (int (bcur b) - int start - 5) = n" by (simp add: cur n_def)
  moreover obtain m' where m': "put m (start + 1) (be_bytes 4 n) = Some (m', start + 1 + 4)"
    using m(2,3) cur by (simp add: put_def)
  ultimately have p: "patch_length b start = Some (b\<lparr>bhead := Some m'\<rparr>)"
    by (simp add: patch_length_def m(1) fill_uint32_put)
  have pre': "length (pre @ opt_key k @ [content_tag c]) = start + 1" by (simp add: start_def)
  have "take (bcur b) m' = take (start + 1) bs @ be_bytes 4 n @ drop (start + 1 + 4) bs"
    using take_put_inside [OF m', of "bcur b"] m(2,3) unfolding m(4) by (simp add: cur)
  also have "\<dots> = pre @ opt_key k @ content_tag c # be_bytes 4 n @ content_bytes c"
    unfolding pre(5) pre' [symmetric] using pre(3) by simp
  also have "content_tag c # be_bytes 4 n @ content_bytes c = enc (content_wire c)"
    by (cases c) (simp_all add: n_def)
  finally have "take (bcur b) m' = pre @ opt_key k @ enc (content_wire c)" .
  moreover have "rev (take (btop b - 1) (bstack b)) = os'"
  proof -
    have "rev (take (btop b) (bstack b)) = start # os'" "btop b \<le> length (bstack b)"
      using assms(1) pre(1) by (auto simp: holds_def start_def)
    then have "take (btop b) (bstack b) = rev os' @ [start]" by (metis rev.simps(2) rev_rev_ident)
    moreover have "take (btop b - 1) (bstack b) = butlast (take (btop b) (bstack b))"
      using \<open>btop b \<le> length (bstack b)\<close> by (simp add: butlast_take)
    ultimately show ?thesis by simp
  qed
  ultimately have "holds (b\<lparr>bhead := Some m', btop := btop b - 1\<rparr>) os'
      (pre @ opt_key k @ enc (content_wire c))"
    using assms(1) m put_length [OF m'] by (auto simp: holds_def)
  with frames_add [OF pre(2,4)] have "builds (b\<lparr>bhead := Some m', btop := btop b - 1\<rparr>)
      (close_container (Open ((k, c) # fs)))"
    by (auto simp: builds_def)
  with st p show ?thesis by auto
qed

lemma pop_ok:
  assumes "builds b (Open (f # fs))"
  shows "\<exists>b'. opo_builder_pop err b = Some (b', err, OPO_ERR_OK) \<and>
    builds b' (close_container (Open (f # fs))) \<and> (has_room g alloc b n \<longrightarrow> has_room g alloc b' n)"
proof -
  obtain k c where f: "f = (k, c)" by fastforce
  from assms obtain os bs where "holds b os bs" "laid_out (Open ((k, c) # fs)) os bs"
    unfolding builds_def f by blast
  from patch_ok [OF this] obtain start b' where
    "0 < btop b" "nth_opt (bstack b) (btop b - 1) = Some start" "patch_length b start = Some b'"
    "builds (b'\<lparr>btop := btop b - 1\<rparr>) (close_container (Open ((k, c) # fs)))"
    "btop b' = btop b" "bcur b' = bcur b" "bend b' = bend b" "bown b' = bown b"
    by blast
  then show ?thesis by (auto simp: opo_builder_pop_def f has_room_def)
qed

lemma depth_add_item [simp]: "depth (add_item k w (Open fs)) = length fs"
  by (cases "(k, w, Open fs)" rule: add_item.cases) auto

lemma depth_close: "depth (close_container t) = depth t - 1"
  by (cases t rule: close_container.cases) auto

lemma close_all_step: "close_all (Open (f # fs)) = close_all (close_container (Open (f # fs)))"
  by (simp add: close_all_def depth_close funpow_swap1)

lemma add_item_cases:
  "\<exists>fs'. add_item k w (Open fs) = (if fs = [] then Closed w else Open fs') \<and> length fs' = length fs"
  by (cases "(k, w, Open fs)" rule: add_item.cases) auto

text \<open>Closing every open container leaves a complete value.\<close>

lemma close_all_Closed: "fs \<noteq> [] \<Longrightarrow> \<exists>w. close_all (Open fs) = Closed w"
proof (induction "length fs" arbitrary: fs)
  case (Suc n)
  then obtain k c fs' where fs: "fs = (k, c) # fs'" by (cases fs) auto
  from add_item_cases [of k "content_wire c" fs'] obtain fs'' where
    fs'': "close_container (Open fs) = (if fs' = [] then Closed (content_wire c) else Open fs'')"
    "length fs'' = length fs'" by (auto simp: fs)
  show ?case
  proof (cases "fs' = []")
    case True
    with fs'' show ?thesis unfolding fs close_all_step by (simp add: close_all_def)
  next
    case False
    with fs''(2) Suc.hyps(2) have "n = length fs''" "fs'' \<noteq> []" by (auto simp: fs)
    from Suc.hyps(1) [OF this] False fs''(1) show ?thesis unfolding fs close_all_step by simp
  qed
qed simp

lemma finish_loop_ok:
  "builds b t \<Longrightarrow> \<exists>b'. finish_loop (btop b) b = Some b' \<and> builds b' (close_all t) \<and>
     bown b' = bown b \<and> bend b' = bend b \<and> bcur b' = bcur b"
proof (induction "depth t" arbitrary: b t)
  case 0
  then have "btop b = 0" by (auto simp: builds_def dest: depth_btop)
  with 0 show ?case by (auto simp: close_all_def)
next
  case (Suc n)
  then obtain k c fs where t: "t = Open ((k, c) # fs)"
    by (cases t rule: close_container.cases) auto
  from Suc.prems obtain os bs where b: "holds b os bs" "laid_out t os bs" by (auto simp: builds_def)
  have top: "btop b = Suc n" using depth_btop [OF b] Suc.hyps by simp
  from patch_ok [OF b(1), of k c fs] b(2) obtain start b1 where
    b1: "nth_opt (bstack b) n = Some start" "patch_length b start = Some b1"
    "builds (b1\<lparr>btop := n\<rparr>) (close_container t)"
    "bcur b1 = bcur b" "bend b1 = bend b" "bown b1 = bown b"
    by (auto simp: t top)
  have "n = depth (close_container t)" using Suc.hyps by (simp add: depth_close)
  from Suc.hyps(1) [OF this b1(3)] b1 show ?case
    by (auto simp: t top close_all_step)
qed

lemma finish_ok:
  assumes "builds b t"
  shows "\<exists>b'. opo_builder_finish b = Some (b', 0) \<and> builds b' (close_all t) \<and>
    bown b' = bown b \<and> bend b' = bend b \<and> bcur b' = bcur b"
  using finish_loop_ok [OF assms] by (auto simp: opo_builder_finish_def)

section \<open>Starting and taking\<close>

lemma init_ok:
  assumes "case buf of None \<Rightarrow> alloc_ok alloc | Some m \<Rightarrow> length m = n \<and> 8 \<le> n"
  shows "\<exists>b'. opo_builder_init alloc err b buf n = Some (b', err, OPO_ERR_OK) \<and>
    builds b' (Open []) \<and> bown b' = (buf = None) \<and> bcur b' = 8 \<and>
    bend b' = (if buf = None then max n MIN_MSG_BUF else n)"
proof -
  have fin: "\<exists>b'. (do {
        m \<leftarrow> bhead b0;
        (m, _) \<leftarrow> put m 0 (replicate 8 0);
        Some (b0\<lparr>bhead := Some m, bcur := 8, bstack := replicate OPO_MSG_MAX_DEPTH 0, btop := 0\<rparr>,
          err, OPO_ERR_OK)}) = Some (b', err, OPO_ERR_OK) \<and> builds b' (Open []) \<and>
      bown b' = bown b0 \<and> bcur b' = 8 \<and> bend b' = bend b0"
    if m: "bhead b0 = Some m" "length m = bend b0" "8 \<le> bend b0" for b0 m
  proof -
    from m obtain m' where p: "put m 0 (replicate 8 0) = Some (m', 8)" by (simp add: put_def)
    have "take 8 m' = replicate 8 0" using put_take [OF p] by simp
    with m p put_length [OF p] show ?thesis by (auto simp: builds_def holds_def)
  qed
  show ?thesis
  proof (cases buf)
    case None
    define k where "k = max n MIN_MSG_BUF"
    have k: "(if n < MIN_MSG_BUF then MIN_MSG_BUF else n) = k" "8 \<le> k"
      by (simp_all add: k_def max_def MIN_MSG_BUF_def)
    from None assms obtain m where "alloc k = Some m" "length m = k" by (auto simp: alloc_ok_def)
    with None k fin [of "b\<lparr>bhead := Some m, bown := True, bend := k\<rparr>" m]
    show ?thesis by (simp add: opo_builder_init_def flip: k_def)
  next
    case (Some m)
    with assms fin [of "b\<lparr>bhead := Some m, bown := False, bend := n\<rparr>" m] show ?thesis
      by (simp add: opo_builder_init_def)
  qed
qed

text \<open>The message taken starts with the id 0 and the encoded value.\<close>

lemma take_ok:
  assumes "builds b t" and t: "close_all t = Closed w" and w: "wf_wire w"
    and own: "bown b \<or> alloc_ok alloc"
  shows "\<exists>b' rest. opo_builder_take alloc b = Some (b', Some (replicate 8 0 @ enc w @ rest)) \<and>
    opo_builder_length b' = Some 0"
proof -
  from finish_ok [OF assms(1)] t obtain b1 where
    b1: "opo_builder_finish b = Some (b1, 0)" "builds b1 (Closed w)" "bown b1 = bown b" by auto
  then obtain m where m: "bhead b1 = Some m" "take (bcur b1) m = replicate 8 0 @ enc w"
    by (auto simp: builds_def holds_def)
  define rest where "rest = drop (bcur b1) m"
  have m': "m = (replicate 8 0 @ enc w) @ rest"
    using m(2) by (metis append_take_drop_id rest_def)
  show ?thesis
  proof (cases "bown b")
    case True
    with b1 m(1) m' show ?thesis by (auto simp: opo_builder_take_def opo_builder_length_def)
  next
    case False
    with own obtain fresh where fresh: "alloc (8 + length (enc w)) = Some fresh"
      "length fresh = 8 + length (enc w)" by (auto simp: alloc_ok_def)
    have "opo_msg_bsize m 0 = Some (8 + length (enc w))"
      using m' bytes_at_start [of "replicate 8 0 @ enc w" rest]
      by (intro msg_bsize_enc [OF w, of "replicate 8 0"]) (simp_all del: bytes_at_append)
    moreover have "rd_range m 0 (8 + length (enc w)) = Some (replicate 8 0 @ enc w)"
      by (simp add: m' rd_range_def)
    moreover have "put fresh 0 (replicate 8 0 @ enc w) = Some (replicate 8 0 @ enc w, 8 + length (enc w))"
      using fresh(2) by (simp add: put_def)
    ultimately show ?thesis using False b1 m(1) fresh(1)
      by (auto simp: opo_builder_take_def opo_builder_length_def)
  qed
qed

end
