(* ===== verification/BuilderRun.thy ===== *)
theory BuilderRun imports BuilderSpec begin

text \<open>
  Calls of the builder one after another: the operations of \<^verbatim>\<open>builder.c\<close> as one step function, its
  refinement of the tree operations, and the properties of whole messages.
\<close>

section \<open>Calls and what they mean\<close>

datatype op =
    PushNull | PushBool bool | PushInt int64 | PushDouble double | PushString cstr int
  | PushUuid uint64 uint64 | PushUuidString cstr | PushTime int64 | PushVal mem "ptr option"
  | PushObject | PushArray | Pop

text \<open>An operation with its key arguments; \<open>Pop\<close> has none.\<close>

type_synonym call = "op \<times> cstr option \<times> int"

fun exec :: "double_fmt \<Rightarrow> allocator \<Rightarrow> opoErr \<Rightarrow> builder \<Rightarrow> call \<Rightarrow> result" where
  "exec fmt alloc err b (PushNull, key, klen) = opo_builder_push_null alloc err b key klen"
| "exec fmt alloc err b (PushBool v, key, klen) = opo_builder_push_bool alloc err b v key klen"
| "exec fmt alloc err b (PushInt v, key, klen) = opo_builder_push_int alloc err b v key klen"
| "exec fmt alloc err b (PushDouble v, key, klen) = opo_builder_push_double fmt alloc err b v key klen"
| "exec fmt alloc err b (PushString s n, key, klen) = opo_builder_push_string alloc err b s n key klen"
| "exec fmt alloc err b (PushUuid hi lo, key, klen) = opo_builder_push_uuid alloc err b hi lo key klen"
| "exec fmt alloc err b (PushUuidString s, key, klen) = opo_builder_push_uuid_string alloc err b s key klen"
| "exec fmt alloc err b (PushTime v, key, klen) = opo_builder_push_time alloc err b v key klen"
| "exec fmt alloc err b (PushVal m p, key, klen) = opo_builder_push_val alloc err b m p key klen"
| "exec fmt alloc err b (PushObject, key, klen) = opo_builder_push_object alloc err b key klen"
| "exec fmt alloc err b (PushArray, key, klen) = opo_builder_push_array alloc err b key klen"
| "exec fmt alloc err b (Pop, key, klen) = opo_builder_pop err b"

text \<open>What happens to the tree, and which action an operation with proper arguments stands for.\<close>

datatype action = Add wire | Begin content | End

fun means :: "double_fmt \<Rightarrow> op \<Rightarrow> action \<Rightarrow> bool" where
  "means fmt PushNull a \<longleftrightarrow> a = Add WNull"
| "means fmt (PushBool v) a \<longleftrightarrow> a = Add (WBool v)"
| "means fmt (PushInt v) a \<longleftrightarrow> a = Add (int_wire v)"
| "means fmt (PushDouble v) a \<longleftrightarrow>
     (let s = (if whole fmt v then fmt_1f fmt v else fmt_15g fmt v) in length s < 63 \<and> a = Add (WDec s))"
| "means fmt (PushString s n) a \<longleftrightarrow> (\<exists>bs. text_arg s n bs \<and> a = Add (str_wire bs))"
| "means fmt (PushUuid hi lo) a \<longleftrightarrow> a = Add (WUuid hi lo)"
| "means fmt (PushUuidString s) a \<longleftrightarrow> (\<exists>hi lo t. s = uuid_text hi lo @ t \<and> a = Add (WUuid hi lo))"
| "means fmt (PushTime v) a \<longleftrightarrow> a = Add (WTime v)"
| "means fmt (PushVal m p) a \<longleftrightarrow>
     (\<exists>q w. p = Some q \<and> wf_wire w \<and> bytes_at m q (enc w) \<and> a = Add w)"
| "means fmt PushObject a \<longleftrightarrow> a = Begin (CObj [])"
| "means fmt PushArray a \<longleftrightarrow> a = Begin (CArr [])"
| "means fmt Pop a \<longleftrightarrow> a = End"

fun act :: "action \<Rightarrow> wkey option \<Rightarrow> tree \<Rightarrow> (int \<times> string) + tree" where
  "act (Add w) k t = (case misplaced t k of Some e \<Rightarrow> Inl e | None \<Rightarrow> Inr (add_item k w t))"
| "act (Begin c) k t = (case misplaced t k of Some e \<Rightarrow> Inl e | None \<Rightarrow> Inr (open_container k c t))"
| "act End k t =
     (if depth t = 0 then Inl (OPO_ERR_OVERFLOW, ''nothing left to pop'') else Inr (close_container t))"

fun action_room :: "action \<Rightarrow> nat" where
  "action_room (Add w) = length (enc w) + 3"
| "action_room (Begin c) = 5"
| "action_room End = 0"

text \<open>Room for a keyed action.\<close>

definition call_room :: "action \<Rightarrow> wkey option \<Rightarrow> nat" where
  "call_room a k = key_room k + action_room a"

section \<open>One call\<close>

lemma item_push_step:
  assumes "item_push push w sz fill" and "builds b t" and "key_arg key klen k"
    and "has_room g alloc b (key_room k + sz + n)"
  shows "case act (Add w) k t of
      Inl (c, s) \<Rightarrow> push alloc err b key klen = Some (b, err_set err c s, c)
    | Inr t' \<Rightarrow> \<exists>b'. push alloc err b key klen = Some (b', err, OPO_ERR_OK) \<and> builds b' t' \<and>
        has_room g alloc b' n"
  using item_push.push_refines [OF assms(1-3), of g alloc n err] assms(4)
  by (auto simp: add.assoc split: option.splits)

lemma pop_step:
  assumes "builds b t" and "has_room g alloc b n"
  shows "case act End k t of
      Inl (c, s) \<Rightarrow> opo_builder_pop err b = Some (b, err_set err c s, c)
    | Inr t' \<Rightarrow> \<exists>b'. opo_builder_pop err b = Some (b', err, OPO_ERR_OK) \<and> builds b' t' \<and>
        has_room g alloc b' n"
proof (cases "depth t = 0")
  case True
  with assms(1) have "btop b = 0" by (auto simp: builds_def dest: depth_btop)
  with True show ?thesis by (simp add: opo_builder_pop_def)
next
  case False
  then obtain f fs where t: "t = Open (f # fs)" by (cases t) (auto simp: neq_Nil_conv)
  from pop_ok [of b f fs err g alloc n] assms show ?thesis by (auto simp: t)
qed

lemma exec_step:
  assumes b: "builds b t" and m: "means fmt op a" and k: "key_arg key klen k"
    and r: "has_room g alloc b (call_room a k + n)" and g: "op = PushArray \<Longrightarrow> has_room False alloc b (call_room a k)"
    and d: "\<And>c. a = Begin c \<Longrightarrow> misplaced t k = None \<Longrightarrow> depth t < OPO_MSG_MAX_DEPTH"
  shows "case act a k t of
      Inl (c, s) \<Rightarrow> exec fmt alloc err b (op, key, klen) = Some (b, err_set err c s, c)
    | Inr t' \<Rightarrow> \<exists>b'. exec fmt alloc err b (op, key, klen) = Some (b', err, OPO_ERR_OK) \<and>
        builds b' t' \<and> has_room g alloc b' n"
proof -
  have room: "has_room g alloc b (key_room k + sz + n)" if "a = Add w" "sz \<le> length (enc w) + 3" for w sz
    using r that by (auto simp: call_room_def intro: has_room_mono)
  show ?thesis
  proof (cases op)
    case PushNull
    with m have a: "a = Add WNull" by simp
    show ?thesis unfolding PushNull a exec.simps
      by (rule item_push_step [OF push_null.item_push_axioms b k room [OF a]]) simp
  next
    case (PushBool v)
    with m have a: "a = Add (WBool v)" by simp
    show ?thesis unfolding PushBool a exec.simps
      by (rule item_push_step [OF push_bool.item_push_axioms b k room [OF a]]) simp
  next
    case (PushInt v)
    with m have a: "a = Add (int_wire v)" by simp
    from push_int_item [of v] obtain fill where
      i: "item_push (\<lambda>alloc err b. opo_builder_push_int alloc err b v) (int_wire v)
        (length (enc (int_wire v))) fill" ..
    show ?thesis unfolding PushInt a exec.simps
      by (rule item_push_step [OF i b k room [OF a]]) simp
  next
    case (PushDouble v)
    with m obtain s where s: "s = (if whole fmt v then fmt_1f fmt v else fmt_15g fmt v)"
      "length s < 63" and a: "a = Add (WDec s)" by (auto simp: Let_def)
    show ?thesis unfolding PushDouble a exec.simps
      by (rule item_push_step [OF push_double_item [OF s] b k room [OF a]]) simp
  next
    case (PushString s len)
    with m obtain bs where bs: "text_arg s len bs" and a: "a = Add (str_wire bs)" by auto
    show ?thesis unfolding PushString a exec.simps
      by (rule item_push_step [OF push_string_item [OF bs] b k room [OF a]]) (simp add: str_wire_def)
  next
    case (PushUuid hi lo)
    with m have a: "a = Add (WUuid hi lo)" by simp
    show ?thesis unfolding PushUuid a exec.simps
      by (rule item_push_step [OF push_uuid.item_push_axioms b k room [OF a]]) simp
  next
    case (PushUuidString s)
    with m obtain hi lo t where s: "s = uuid_text hi lo @ t" and a: "a = Add (WUuid hi lo)" by auto
    show ?thesis unfolding PushUuidString s a exec.simps
      by (rule item_push_step [OF push_uuid_string_item b k room [OF a]]) simp
  next
    case (PushTime v)
    with m have a: "a = Add (WTime v)" by simp
    show ?thesis unfolding PushTime a exec.simps
      by (rule item_push_step [OF push_time.item_push_axioms b k room [OF a]]) simp
  next
    case (PushVal vm p)
    with m obtain q w where v: "p = Some q" "wf_wire w" "bytes_at vm q (enc w)" and a: "a = Add w" by auto
    show ?thesis unfolding PushVal v(1) a exec.simps
      by (rule item_push_step [OF push_val_item [OF v(2,3)] b k room [OF a]]) simp
  next
    case PushObject
    with m have a: "a = Begin (CObj [])" by simp
    with r have "has_room g alloc b (key_room k + (5 + n))" by (simp add: call_room_def add.assoc)
    from push_object_ok [OF b k d [OF a] this, of err] show ?thesis
      by (auto simp: a PushObject split: option.splits)
  next
    case PushArray
    with m have a: "a = Begin (CArr [])" by simp
    with r g PushArray have "has_room g alloc b (key_room k + (5 + n))" "has_room False alloc b (key_room k + 5)"
      by (simp_all add: call_room_def add.assoc)
    from push_array_ok [OF b k d [OF a] this, of err] show ?thesis
      by (auto simp: a PushArray split: option.splits)
  next
    case Pop
    with m have a: "a = End" by simp
    have "has_room g alloc b n" using r by (rule has_room_mono) simp
    from pop_step [OF b this] show ?thesis unfolding a Pop exec.simps .
  qed
qed

section \<open>Many calls\<close>

text \<open>The calls of a client that goes on whatever they return: the codes they gave.\<close>

fun run_calls ::
    "double_fmt \<Rightarrow> allocator \<Rightarrow> opoErr \<Rightarrow> builder \<Rightarrow> call list \<Rightarrow> (builder \<times> opoErr \<times> int list) option" where
  "run_calls fmt alloc err b [] = Some (b, err, [])"
| "run_calls fmt alloc err b (x # xs) = do {
     (b, err, c) \<leftarrow> exec fmt alloc err b x;
     (b, err, cs) \<leftarrow> run_calls fmt alloc err b xs;
     Some (b, err, c # cs)
   }"

fun run_acts :: "tree \<Rightarrow> (action \<times> wkey option) list \<Rightarrow> tree \<times> int list" where
  "run_acts t [] = (t, [])"
| "run_acts t ((a, k) # as) =
     (case act a k t of
        Inl (c, s) \<Rightarrow> (let (t', cs) = run_acts t as in (t', c # cs))
      | Inr t' \<Rightarrow> (let (t'', cs) = run_acts t' as in (t'', OPO_ERR_OK # cs)))"

fun call_means :: "double_fmt \<Rightarrow> call \<Rightarrow> action \<times> wkey option \<Rightarrow> bool" where
  "call_means fmt (op, key, klen) (a, k) \<longleftrightarrow> means fmt op a \<and> key_arg key klen k"


text \<open>The most containers that are open at a time.\<close>

fun deepest :: "tree \<Rightarrow> (action \<times> wkey option) list \<Rightarrow> nat" where
  "deepest t [] = depth t"
| "deepest t ((a, k) # as) =
     max (depth t) (case act a k t of Inl e \<Rightarrow> deepest t as | Inr t' \<Rightarrow> deepest t' as)"

definition acts_room :: "(action \<times> wkey option) list \<Rightarrow> nat" where
  "acts_room as = (\<Sum>(a, k)\<leftarrow>as. call_room a k)"

lemma acts_room_simps [simp]:
  "acts_room [] = 0" "acts_room ((a, k) # as) = call_room a k + acts_room as"
  "acts_room (xs @ ys) = acts_room xs + acts_room ys"
  by (simp_all add: acts_room_def)

lemma depth_le_deepest: "depth t \<le> deepest t as"
  by (cases as) auto

lemma depth_begin: "act (Begin c) k t = Inr t' \<Longrightarrow> depth t' = Suc (depth t)"
  by (cases t) (auto split: option.splits)

text \<open>
  \<open>opo_builder_push_array\<close> needs its room to be there: \<open>arrays_early i\<close> tells that the arrays are among
  the first \<open>i\<close> calls, and that these fit without growing.
\<close>

definition arrays_early ::
    "nat \<Rightarrow> allocator \<Rightarrow> builder \<Rightarrow> call list \<Rightarrow> (action \<times> wkey option) list \<Rightarrow> bool" where
  "arrays_early i alloc b calls as \<longleftrightarrow>
     PushArray \<notin> fst ` set (drop i calls) \<and> (0 < i \<longrightarrow> has_room False alloc b (acts_room (take i as)))"

lemma arrays_early_room:
  "arrays_early i alloc b ((op, key, klen) # xs) ((a, k) # ys) \<Longrightarrow> op = PushArray \<Longrightarrow>
   has_room False alloc b (call_room a k)"
  by (cases i) (auto simp: arrays_early_def elim: has_room_mono)

lemma arrays_early_same:
  "arrays_early i alloc b (x # xs) ((a, k) # ys) \<Longrightarrow> arrays_early (i - 1) alloc b xs ys"
  by (cases i) (auto simp: arrays_early_def dest: in_set_dropD elim: has_room_mono)

lemma exec_early:
  assumes "arrays_early i alloc b ((op, key, klen) # xs) ((a, k) # ys)"
    and "builds b t" and "means fmt op a" and "key_arg key klen k"
    and "\<And>c. a = Begin c \<Longrightarrow> misplaced t k = None \<Longrightarrow> depth t < OPO_MSG_MAX_DEPTH"
    and "act a k t = Inr t'" and "exec fmt alloc err b (op, key, klen) = Some (b', err, OPO_ERR_OK)"
  shows "arrays_early (i - 1) alloc b' xs ys"
proof (cases "i \<le> 1")
  case True
  with assms(1) show ?thesis by (cases i) (auto simp: arrays_early_def dest: in_set_dropD)
next
  case False
  then have r: "has_room False alloc b (call_room a k + acts_room (take (i - 1) ys))"
    using assms(1) by (cases i) (simp_all add: arrays_early_def)
  have "has_room False alloc b (call_room a k)" using r by (rule has_room_mono) simp
  with exec_step [OF assms(2-4) r _ assms(5), where err = err] assms(6,7)
  have "has_room False alloc b' (acts_room (take (i - 1) ys))" by auto
  with assms(1) False show ?thesis by (cases i) (simp_all add: arrays_early_def)
qed

lemma run_calls_ok:
  assumes "list_all2 (call_means fmt) calls as"
  shows "builds b t \<Longrightarrow> has_room g alloc b (acts_room as) \<Longrightarrow> arrays_early i alloc b calls as \<Longrightarrow>
    deepest t as \<le> OPO_MSG_MAX_DEPTH \<Longrightarrow>
    \<exists>b' err'. run_calls fmt alloc err b calls = Some (b', err', snd (run_acts t as)) \<and>
      builds b' (fst (run_acts t as))"
  using assms
proof (induction arbitrary: b t err i rule: list_all2_induct)
  case (Cons x xs y ys)
  obtain op key klen where x: "x = (op, key, klen)" by (cases x) auto
  obtain a k where y: "y = (a, k)" by fastforce
  have k: "means fmt op a" "key_arg key klen k" using Cons.hyps(1) by (simp_all add: x y)
  have r: "has_room g alloc b (call_room a k + acts_room ys)" using Cons.prems(2) by (simp add: y)
  have d: "depth t < OPO_MSG_MAX_DEPTH" if c: "a = Begin c" "misplaced t k = None" for c
  proof -
    obtain t' where t': "act a k t = Inr t'" using c by simp
    with Cons.prems(4) depth_le_deepest [of t' ys] depth_begin [of c k t t'] c(1)
    show ?thesis by (simp add: y)
  qed
  have step: "case act a k t of
      Inl (c, s) \<Rightarrow> exec fmt alloc err b x = Some (b, err_set err c s, c)
    | Inr t' \<Rightarrow> \<exists>b'. exec fmt alloc err b x = Some (b', err, OPO_ERR_OK) \<and>
        builds b' t' \<and> has_room g alloc b' (acts_room ys)"
    unfolding x using arrays_early_room [OF Cons.prems(3) [unfolded x y]] d
    by (intro exec_step [OF Cons.prems(1) k r]) simp_all
  show ?case
  proof (cases "act a k t")
    case (Inl e)
    obtain c s where e: "e = (c, s)" by fastforce
    have r': "has_room g alloc b (acts_room ys)" using r by (rule has_room_mono) simp
    from Cons.IH [OF Cons.prems(1) r' arrays_early_same [OF Cons.prems(3) [unfolded y]], of "err_set err c s"]
      Cons.prems(4) step Inl
    show ?thesis by (auto simp: y e split: prod.splits)
  next
    case (Inr t')
    with step obtain b' where b': "exec fmt alloc err b x = Some (b', err, OPO_ERR_OK)"
      "builds b' t'" "has_room g alloc b' (acts_room ys)" by auto
    have "deepest t' ys \<le> OPO_MSG_MAX_DEPTH" using Inr Cons.prems(4) by (simp add: y)
    moreover have "arrays_early (i - 1) alloc b' xs ys"
      using b'(1) Inr d unfolding x by (intro exec_early [OF Cons.prems(3) [unfolded x y] Cons.prems(1) k]) simp_all
    ultimately show ?thesis
      using Cons.IH [OF b'(2,3), of "i - 1" err] b'(1) Inr by (auto simp: y split: prod.splits)
  qed
qed simp

lemma run_calls_fit:
  assumes "list_all2 (call_means fmt) calls as" and "builds b t" and "has_room False alloc b (acts_room as)"
    and "deepest t as \<le> OPO_MSG_MAX_DEPTH"
  shows "\<exists>b' err'. run_calls fmt alloc err b calls = Some (b', err', snd (run_acts t as)) \<and>
    builds b' (fst (run_acts t as))"
  using list_all2_lengthD [OF assms(1)] assms(3)
  by (intro run_calls_ok [OF assms(1-3) _ assms(4), of "length as"]) (simp add: arrays_early_def)








section \<open>Properties\<close>

text \<open>A builder on a buffer of \<open>n\<close> zero bytes, as \<open>opo_builder_init\<close> leaves it.\<close>

definition fresh_builder :: "nat \<Rightarrow> builder" where
  "fresh_builder n = \<lparr>bhead = Some (replicate n 0), bend = n, bcur = 8, bown = False, btop = 0,
     bstack = replicate OPO_MSG_MAX_DEPTH 0\<rparr>"

lemma builds_fresh: "8 \<le> n \<Longrightarrow> builds (fresh_builder n) (Open [])"
  by (simp add: builds_def holds_def fresh_builder_def min_def)

lemma has_room_fresh: "8 + k < n \<Longrightarrow> n < 2 ^ 31 \<Longrightarrow> has_room g alloc (fresh_builder n) k"
  by (simp add: has_room_def fresh_builder_def)

text \<open>
  C11: every builder operation refines its operation on trees.  Called with arguments that mean
  the action \<open>a\<close> (\<open>means\<close>: of UUID texts those in lower case as they are printed) on a builder that
  holds the tree \<open>t\<close>, it returns the error of the tree operation with the builder unchanged, or
  \<open>OPO_ERR_OK\<close> and a builder that holds the new tree.  The bytes are there, or the builder owns
  its buffer and grows it; an array needs its header to fit without.  Offsets stay below \<open>2 ^ 31\<close>.
\<close>

theorem builder_op_refines:
  assumes "builds b t" and "means fmt op a" and "key_arg key klen k"
    and "has_room g alloc b (call_room a k + n)"
    and "op = PushArray \<Longrightarrow> has_room False alloc b (call_room a k)"
    and "\<And>c. a = Begin c \<Longrightarrow> misplaced t k = None \<Longrightarrow> depth t < OPO_MSG_MAX_DEPTH"
  shows "case act a k t of
      Inl (c, s) \<Rightarrow> exec fmt alloc err b (op, key, klen) = Some (b, err_set err c s, c)
    | Inr t' \<Rightarrow> \<exists>b'. exec fmt alloc err b (op, key, klen) = Some (b', err, OPO_ERR_OK) \<and>
        builds b' t' \<and> has_room g alloc b' n"
  using assms by (rule exec_step)

theorem builder_op_refines_witness:
  "\<forall>fmt alloc. (\<exists>b'. exec fmt alloc OPO_ERR_INIT (fresh_builder 40) (PushObject, None, 0) =
       Some (b', OPO_ERR_INIT, OPO_ERR_OK) \<and> builds b' (Open [(None, CObj [])]))"
proof (intro allI)
  fix fmt alloc
  have "has_room True alloc (fresh_builder 40) (call_room (Begin (CObj [])) None + 0)"
    by (rule has_room_fresh) (simp_all add: call_room_def)
  from builder_op_refines [OF builds_fresh _ _ this, of fmt PushObject None 0 OPO_ERR_INIT]
  show "\<exists>b'. exec fmt alloc OPO_ERR_INIT (fresh_builder 40) (PushObject, None, 0) =
       Some (b', OPO_ERR_INIT, OPO_ERR_OK) \<and> builds b' (Open [(None, CObj [])])"
    by (auto simp: OPO_MSG_MAX_DEPTH_def)
qed

text \<open>
  How the calls of a client fit a buffer of \<open>n\<close> bytes: those behind the first \<open>i\<close> push no array and
  may make a buffer grow the builder has allocated itself.
\<close>

definition fits_buffer :: "mem option \<Rightarrow> nat \<Rightarrow> nat \<Rightarrow> call list \<Rightarrow> (action \<times> wkey option) list \<Rightarrow> bool" where
  "fits_buffer buf n i calls as \<longleftrightarrow> n < 2 ^ 31 \<and>
     (case buf of
        Some m \<Rightarrow> length m = n \<and> 8 + acts_room as < n
      | None \<Rightarrow> PushArray \<notin> fst ` set (drop i calls) \<and> 8 + acts_room (take i as) < n \<and> 8 + acts_room as < 2 ^ 31)"

lemma builder_message_ok:
  assumes alloc: "alloc_ok alloc" and calls: "list_all2 (call_means fmt) calls as"
    and fit: "fits_buffer buf n i calls as" and deep: "deepest (Open []) as \<le> OPO_MSG_MAX_DEPTH"
    and w: "close_all (fst (run_acts (Open []) as)) = Closed w" "wf_wire w"
  shows "\<exists>b1 b2 b3 err' rest. opo_builder_init alloc err b buf n = Some (b1, err, OPO_ERR_OK) \<and>
    run_calls fmt alloc err b1 calls = Some (b2, err', snd (run_acts (Open []) as)) \<and>
    opo_builder_take alloc b2 = Some (b3, Some (replicate 8 0 @ enc w @ rest))"
proof -
  have "case buf of None \<Rightarrow> alloc_ok alloc | Some m \<Rightarrow> length m = n \<and> 8 \<le> n"
    using alloc fit by (auto simp: fits_buffer_def split: option.splits)
  from init_ok [OF this] obtain b1 where
    b1: "opo_builder_init alloc err b buf n = Some (b1, err, OPO_ERR_OK)" "builds b1 (Open [])"
    "bown b1 = (buf = None)" "bcur b1 = 8" "n \<le> bend b1" by (fastforce split: if_splits)
  have "\<exists>b2 err'. run_calls fmt alloc err b1 calls = Some (b2, err', snd (run_acts (Open []) as)) \<and>
      builds b2 (fst (run_acts (Open []) as))"
  proof (cases buf)
    case None
    have "has_room True alloc b1 (acts_room as)" "arrays_early i alloc b1 calls as"
      using None fit b1(3-5) alloc by (auto simp: has_room_def arrays_early_def fits_buffer_def)
    from run_calls_ok [OF calls b1(2) this deep] show ?thesis .
  next
    case (Some m)
    then have "has_room False alloc b1 (acts_room as)"
      using fit b1(4,5) by (auto simp: has_room_def fits_buffer_def)
    from run_calls_fit [OF calls b1(2) this deep] show ?thesis .
  qed
  then obtain b2 err' where
    b2: "run_calls fmt alloc err b1 calls = Some (b2, err', snd (run_acts (Open []) as))"
    "builds b2 (fst (run_acts (Open []) as))" by blast
  from take_ok [OF b2(2) w, of alloc] alloc b1(1) b2(1) show ?thesis by blast
qed

text \<open>
  C2: a sequence of calls, run to its end whatever they return, gives the codes of the tree
  operations, and \<open>opo_builder_take\<close> then a message with id 0 and the encoding of the value the
  tree operations leave, every container still open being closed.  The calls fit the buffer or one
  the builder has allocated grows for them, but for arrays (\<open>fits_buffer\<close>); at most
  \<open>OPO_MSG_MAX_DEPTH\<close> containers are open at a time, and the lengths fit their fields.
\<close>

theorem builder_message_correct:
  assumes "alloc_ok alloc" and "list_all2 (call_means fmt) calls as"
    and "fits_buffer buf n i calls as" and "deepest (Open []) as \<le> OPO_MSG_MAX_DEPTH"
    and "close_all (fst (run_acts (Open []) as)) = Closed w" and "wf_wire w"
  shows "\<exists>b1 b2 b3 err' rest. opo_builder_init alloc err b buf n = Some (b1, err, OPO_ERR_OK) \<and>
    run_calls fmt alloc err b1 calls = Some (b2, err', snd (run_acts (Open []) as)) \<and>
    opo_builder_take alloc b2 = Some (b3, Some (replicate 8 0 @ enc w @ rest))"
  using assms by (rule builder_message_ok)

text \<open>The allocator that gives zero bytes.\<close>

lemma alloc_ok_zero: "alloc_ok (\<lambda>n. Some (replicate n 0))"
  by (simp add: alloc_ok_def)

theorem builder_message_correct_witness:
  "\<forall>fmt b. \<exists>b1 b2 b3 err' rest.
     opo_builder_init (\<lambda>n. Some (replicate n 0)) OPO_ERR_INIT b None 2000 = Some (b1, OPO_ERR_INIT, OPO_ERR_OK) \<and>
     run_calls fmt (\<lambda>n. Some (replicate n 0)) OPO_ERR_INIT b1
       [(PushArray, None, 0), (PushInt 300, None, 0), (PushNull, Some [0x61, 0], 0)] =
       Some (b2, err', [OPO_ERR_OK, OPO_ERR_OK, OPO_ERR_ARG]) \<and>
     opo_builder_take (\<lambda>n. Some (replicate n 0)) b2 =
       Some (b3, Some (replicate 8 0 @ enc (WArr [WInt2 300]) @ rest))"
proof (intro allI)
  fix fmt b
  let ?as = "[(Begin (CArr []), None), (Add (WInt2 300), None), (Add WNull, Some (WKey1 [0x61]))]"
  let ?calls = "[(PushArray, None, 0), (PushInt 300, None, 0), (PushNull, Some [0x61, 0], 0)]"
  have key: "key_arg (Some [0x61, 0]) 0 (Some (WKey1 [0x61]))"
    by (auto simp: text_arg_def mk_key_def intro!: exI [of _ "[0x61]"])
  have calls: "list_all2 (call_means fmt) ?calls ?as"
    using key by (simp add: int_wire_def)
  have room: "fits_buffer None 2000 3 ?calls ?as" by (simp add: fits_buffer_def call_room_def)
  have closed: "close_all (fst (run_acts (Open []) ?as)) = Closed (WArr [WInt2 300])"
    by (simp add: close_all_def)
  have codes: "snd (run_acts (Open []) ?as) = [OPO_ERR_OK, OPO_ERR_OK, OPO_ERR_ARG]" by simp
  show "\<exists>b1 b2 b3 err' rest.
     opo_builder_init (\<lambda>n. Some (replicate n 0)) OPO_ERR_INIT b None 2000 = Some (b1, OPO_ERR_INIT, OPO_ERR_OK) \<and>
     run_calls fmt (\<lambda>n. Some (replicate n 0)) OPO_ERR_INIT b1 ?calls =
       Some (b2, err', [OPO_ERR_OK, OPO_ERR_OK, OPO_ERR_ARG]) \<and>
     opo_builder_take (\<lambda>n. Some (replicate n 0)) b2 =
       Some (b3, Some (replicate 8 0 @ enc (WArr [WInt2 300]) @ rest))"
    using builder_message_correct [OF alloc_ok_zero calls room _ closed, where err = OPO_ERR_INIT and b = b]
    unfolding codes by (simp add: OPO_MSG_MAX_DEPTH_def)
qed

section \<open>The calls that build a value\<close>















lemma size_int_wire:
  "bytes_at m p (enc (int_wire v)) \<Longrightarrow> opo_val_size m (Some p) = Some
     (if - 128 \<le> sint v \<and> sint v \<le> 127 then 1 else if - 32768 \<le> sint v \<and> sint v \<le> 32767 then 2
      else if - 2147483648 \<le> sint v \<and> sint v \<le> 2147483647 then 4 else 8)"
  by (auto simp: opo_val_size_def int_wire_def)

text \<open>
  C26: an integer pushed into an empty builder and read back from the message taken is the
  integer, whatever of the four widths it was stored in, and the one stored is the narrowest that
  holds it.
\<close>

theorem push_int_roundtrip:
  assumes b: "builds b (Open [])" and r: "has_room g alloc b (length (enc (int_wire v)) + n)"
    and a: "alloc_ok alloc"
  shows "\<exists>b1 b2 m. opo_builder_push_int alloc err b v None 0 = Some (b1, err, OPO_ERR_OK) \<and>
    opo_builder_take alloc b1 = Some (b2, Some m) \<and>
    opo_val_int err m (Some 8) = Some (err, v) \<and>
    opo_val_size m (Some 8) = Some
      (if - 128 \<le> sint v \<and> sint v \<le> 127 then 1 else if - 32768 \<le> sint v \<and> sint v \<le> 32767 then 2
       else if - 2147483648 \<le> sint v \<and> sint v \<le> 2147483647 then 4 else 8)"
proof -
  from push_int_item [of v] obtain fill where i: "item_push (\<lambda>alloc err b. opo_builder_push_int alloc err b v)
      (int_wire v) (length (enc (int_wire v))) fill" by blast
  have "has_room g alloc b (key_room None + length (enc (int_wire v)) + n)" using r by simp
  from item_push_step [OF i b _ this, of None 0 err] obtain b1 where
    b1: "opo_builder_push_int alloc err b v None 0 = Some (b1, err, OPO_ERR_OK)"
    "builds b1 (Closed (int_wire v))" by auto
  from take_ok [OF b1(2), of "int_wire v" alloc] a obtain b2 rest where
    b2: "opo_builder_take alloc b1 = Some (b2, Some (replicate 8 0 @ enc (int_wire v) @ rest))"
    by (auto simp: close_all_def)
  have at: "bytes_at (replicate 8 0 @ enc (int_wire v) @ rest) 8 (enc (int_wire v))"
    using bytes_at_middle [of "replicate 8 0" "enc (int_wire v)" rest] by simp
  from b1(1) b2 int_enc [OF at, of err] size_int_wire [OF at] show ?thesis by auto
qed

theorem push_int_roundtrip_witness:
  "\<exists>b1 b2 m. opo_builder_push_int (\<lambda>n. Some (replicate n 0)) OPO_ERR_INIT (fresh_builder 40) (- 300) None 0 =
       Some (b1, OPO_ERR_INIT, OPO_ERR_OK) \<and>
     opo_builder_take (\<lambda>n. Some (replicate n 0)) b1 = Some (b2, Some m) \<and>
     opo_val_int OPO_ERR_INIT m (Some 8) = Some (OPO_ERR_INIT, - 300)"
proof -
  have "has_room True (\<lambda>n. Some (replicate n 0)) (fresh_builder 40) (length (enc (int_wire (- 300))) + 0)"
    by (rule has_room_fresh) (simp_all add: int_wire_def)
  from push_int_roundtrip [OF builds_fresh this alloc_ok_zero, of OPO_ERR_INIT] show ?thesis by auto
qed

section \<open>Where the builder leaves its buffer\<close>

text \<open>
  C28: the depth check lets one container too many through.  With 512 containers open, the next
  one passes it and its offset is stored behind the end of the stack, whatever the room.
\<close>

theorem depth_check_off_by_one:
  assumes b: "builds b t" and d: "depth t = OPO_MSG_MAX_DEPTH" and m: "misplaced t k = None"
    and k: "key_arg key klen k" and r: "has_room g alloc b (key_room k + n)"
  shows "\<not> too_deep b \<and> opo_builder_push_object alloc err b key klen = None \<and>
    opo_builder_push_array alloc err b key klen = None"
proof -
  from b obtain os bs where h: "holds b os bs" "laid_out t os bs" by (auto simp: builds_def)
  have top: "btop b = OPO_MSG_MAX_DEPTH" using depth_btop [OF h] d by simp
  from check_key_ok [OF h k r, of err] m obtain b' where
    "check_key alloc err b key klen = Some (b', err, OPO_ERR_OK)" "holds b' os (bs @ opt_key k)"
    "btop b' = btop b" by auto
  moreover from this top have "push_start b' = None" by (auto simp: push_start_def holds_def)
  ultimately show ?thesis using top
    by (simp add: too_deep_def opo_builder_push_object_def opo_builder_push_array_def)
qed

text \<open>A builder with \<open>n\<close> arrays open in each other.\<close>

definition nested_builder :: "nat \<Rightarrow> builder" where
  "nested_builder n = (fresh_builder 4000)\<lparr>bhead := Some (replicate 8 0 @
       concat (replicate n (tag VAL_ARRAY # replicate 4 0)) @ replicate (4000 - (8 + n * 5)) 0),
     bcur := 8 + n * 5, btop := n,
     bstack := map (\<lambda>i. 8 + i * 5) [0..<n] @ replicate (OPO_MSG_MAX_DEPTH - n) 0\<rparr>"

lemma frames_nested:
  "frames_at (replicate n (None, CArr [])) (rev (map (\<lambda>i. 8 + i * 5) [0..<n]))
     (replicate 8 0 @ concat (replicate n (tag VAL_ARRAY # replicate 4 0)))"
proof (induction n)
  case (Suc n)
  have "misplaced (Open (replicate n (None, CArr []))) None = None" by (cases n) simp_all
  moreover have "length (concat (replicate n (tag VAL_ARRAY # replicate 4 0))) = n * 5"
    by (induction n) simp_all
  moreover have "concat (replicate (Suc n) (tag VAL_ARRAY # replicate 4 0)) =
      concat (replicate n (tag VAL_ARRAY # replicate 4 0)) @ tag VAL_ARRAY # replicate 4 0"
    by (simp flip: replicate_append_same)
  ultimately show ?case
    using frames_atI [OF Suc, of "replicate 4 0" None "CArr []"]
    by (simp del: frames_at.simps replicate.simps add: replicate.simps(2) [of n "(None, CArr [])"])
qed simp

lemma builds_nested:
  assumes "n \<le> OPO_MSG_MAX_DEPTH"
  shows "builds (nested_builder n) (Open (replicate n (None, CArr [])))"
proof -
  have len: "length (concat (replicate n (tag VAL_ARRAY # replicate 4 0))) = n * 5"
    by (induction n) simp_all
  have "holds (nested_builder n) (rev (map (\<lambda>i. 8 + i * 5) [0..<n]))
      (replicate 8 0 @ concat (replicate n (tag VAL_ARRAY # replicate 4 0)))"
    using assms len by (simp add: holds_def nested_builder_def fresh_builder_def OPO_MSG_MAX_DEPTH_def)
  with frames_nested [of n] show ?thesis by (auto simp: builds_def)
qed

theorem depth_check_off_by_one_witness:
  "opo_builder_push_array (\<lambda>_. None) OPO_ERR_INIT (nested_builder 512) None 0 = None"
proof -
  have "builds (nested_builder 512) (Open (replicate 512 (None, CArr [])))"
    by (rule builds_nested) (simp add: OPO_MSG_MAX_DEPTH_def)
  moreover have "misplaced (Open (replicate 512 (None, CArr []))) None = None"
    by (simp add: replicate.simps(2) [of 511, simplified] eval_nat_numeral)
  moreover have "has_room False (\<lambda>_. None) (nested_builder 512) (key_room None + 0)"
    by (simp add: has_room_def nested_builder_def fresh_builder_def)
  ultimately show ?thesis
    using depth_check_off_by_one [of "nested_builder 512" _ None None 0 False "\<lambda>_. None" 0 OPO_ERR_INIT]
    by (simp add: OPO_MSG_MAX_DEPTH_def)
qed

lemma check_key_none:
  assumes "builds b t" and "misplaced t None = None"
  shows "check_key alloc err b None klen = Some (b, err, OPO_ERR_OK)"
proof -
  from assms(1) obtain os bs where h: "holds b os bs" "laid_out t os bs" by (auto simp: builds_def)
  from assms(2) obtain fs where t: "t = Open fs" by (cases t) auto
  from h(1) obtain m where m: "bhead b = Some m" by (auto simp: holds_def)
  show ?thesis
  proof (cases fs)
    case Nil
    then have "btop b = 0" "bcur b = 8"
      using depth_btop [OF h] holds_length [OF h(1)] h(2) by (simp_all add: t)
    with m show ?thesis by (simp add: check_key_def)
  next
    case (Cons f fs')
    with assms(2) t obtain k ws where f: "f = (k, CArr ws)"
      by (cases f; cases "snd f") auto
    from h(2) obtain o1 os' where os: "os = o1 # os'" by (auto simp: t Cons f)
    have "frames_at ((k, CArr ws) # fs') (o1 # os') bs" using h(2) by (simp only: t Cons f os laid_out.simps)
    from frames_nth [OF this] holds_stack [of b o1 os' bs] h(1) show ?thesis
      by (simp add: os check_key_def)
  qed
qed

text \<open>
  C29: \<open>opo_builder_push_array\<close> does not make room for its header.  Where fewer than five bytes
  are left, pushing an array and closing it writes outside the buffer, even if the builder owns
  the buffer and \<open>malloc\<close> never fails.
\<close>

theorem push_array_unchecked:
  assumes b: "builds b t" and d: "depth t < OPO_MSG_MAX_DEPTH" and m: "misplaced t None = None"
    and r: "bend b < bcur b + 5"
  shows "do {
      (b, err, c) \<leftarrow> opo_builder_push_array alloc err b None klen;
      opo_builder_pop err b
    } = None"
proof -
  from b obtain os bs where h: "holds b os bs" "laid_out t os bs" by (auto simp: builds_def)
  from b m have ck: "check_key alloc err b None klen = Some (b, err, OPO_ERR_OK)"
    by (rule check_key_none)
  have deep: "\<not> too_deep b" using h(1) by (simp add: too_deep_def holds_def)
  have "btop b < OPO_MSG_MAX_DEPTH" using depth_btop [OF h] d by simp
  from push_start_ok [OF h(1) this] obtain b2 where
    b2: "push_start b = Some b2" "holds b2 (length bs # os) bs" "bend b2 = bend b" "bcur b2 = bcur b"
    by blast
  have cur: "bcur b2 = length bs" using b2(2) by (rule holds_length)
  show ?thesis
  proof (cases "bcur b2 + 1 \<le> bend b2")
    case False
    moreover from b2(2) obtain m0 where "bhead b2 = Some m0" "length m0 = bend b2"
      by (auto simp: holds_def)
    ultimately have "at_cur b2 (\<lambda>m w. put m w [tag VAL_ARRAY]) = None"
      by (simp add: at_cur_def put_def)
    then show ?thesis using deep ck b2(1) by (simp add: opo_builder_push_array_def)
  next
    case True
    with at_cur_put [OF b2(2), of "[tag VAL_ARRAY]"] obtain b3 where
      b3: "at_cur b2 (\<lambda>m w. put m w [tag VAL_ARRAY]) = Some b3"
      "holds b3 (length bs # os) (bs @ [tag VAL_ARRAY])" "bend b3 = bend b2" "bcur b3 = bcur b2 + 1"
      by fastforce
    define b4 where "b4 = b3\<lparr>bcur := bcur b3 + 4\<rparr>"
    have push: "opo_builder_push_array alloc err b None klen = Some (b4, err, OPO_ERR_OK)"
      using deep ck b2(1) b3(1) by (simp add: opo_builder_push_array_def b4_def)
    from holds_stack [OF b3(2)] have top: "0 < btop b4"
      "nth_opt (bstack b4) (btop b4 - 1) = Some (length bs)" by (simp_all add: b4_def)
    obtain m' where m': "bhead b4 = Some m'" "length m' = bend b"
      using b3(2,3) b2(3) by (auto simp: holds_def b4_def)
    have "length m' < length bs + 1 + 4" using m'(2) r b2(4) cur by simp
    then have "patch_length b4 (length bs) = None"
      by (simp add: patch_length_def m'(1) fill_uint32_put put_def)
    with push top show ?thesis by (simp add: opo_builder_pop_def)
  qed
qed

theorem push_array_unchecked_witness:
  "\<forall>alloc. do {
      (b, err, c) \<leftarrow> opo_builder_push_array alloc OPO_ERR_INIT (fresh_builder 10) None 0;
      opo_builder_pop err b
    } = None"
  using push_array_unchecked [OF builds_fresh, of 10]
  by (simp add: OPO_MSG_MAX_DEPTH_def fresh_builder_def)

text \<open>
  Growing a buffer the builder does not own loses the message: the new buffer is what
  \<open>malloc\<close> returned, and nothing of the old one is copied into it.
\<close>

theorem grow_foreign_buffer_loses_bytes:
  assumes "bhead b = Some m" and "\<not> bown b" and "bend b \<le> bcur b + sz" and "bcur b < 2 ^ 31"
    and "alloc (bend b + MSG_INC + sz) = Some fresh"
  shows "builder_assure alloc err b sz =
    Some (b\<lparr>bhead := Some fresh, bend := bend b + MSG_INC + sz\<rparr>, err, OPO_ERR_OK)"
  using assms sint_u32_len [OF assms(4)] by (simp add: builder_assure_def Let_def)

theorem grow_foreign_buffer_loses_bytes_witness:
  "\<exists>b1 b2 err' m.
     opo_builder_push_int (\<lambda>n. Some (replicate n 0)) OPO_ERR_INIT (fresh_builder 11) 5 None 0 =
       Some (b1, OPO_ERR_INIT, OPO_ERR_OK) \<and>
     builder_assure (\<lambda>n. Some (replicate n 0)) OPO_ERR_INIT b1 1 = Some (b2, err', OPO_ERR_OK) \<and>
     bhead b2 = Some m \<and> rd m 8 = Some 0"
proof -
  define b1 where "b1 = (fresh_builder 11)\<lparr>bhead := Some (replicate 8 0 @ [tag VAL_INT1, 5, 0]), bcur := 10\<rparr>"
  have "opo_builder_push_int (\<lambda>n. Some (replicate n 0)) OPO_ERR_INIT (fresh_builder 11) 5 None 0 =
      Some (b1, OPO_ERR_INIT, OPO_ERR_OK)"
    by (simp add: opo_builder_push_int_def check_key_def fresh_builder_def push_filled_def
        builder_assure_def at_cur_def put_def b1_def eval_nat_numeral)
  moreover have "builder_assure (\<lambda>n. Some (replicate n 0)) OPO_ERR_INIT b1 1 =
      Some (b1\<lparr>bhead := Some (replicate (bend b1 + MSG_INC + 1) 0), bend := bend b1 + MSG_INC + 1\<rparr>,
        OPO_ERR_INIT, OPO_ERR_OK)"
    by (rule grow_foreign_buffer_loses_bytes) (simp_all add: b1_def fresh_builder_def)
  ultimately show ?thesis by (simp add: rd_def MSG_INC_def)
qed

end
