(* ===== verification/Queue.thy ===== *)
theory Queue imports Prelude begin

text \<open>
  The message queue, \<^verbatim>\<open>queue.h\<close> and \<^verbatim>\<open>queue.c\<close>: a ring of slots with a free slot at \<open>head\<close>.  The
  operations are given here as one thread runs them; \<^verbatim>\<open>QueueRace\<close> interleaves their steps.  A
  pointer into the ring is its index, and a NULL slot is \<open>None\<close>.
\<close>

section \<open>The queue\<close>

definition NOT_WAITING :: int where "NOT_WAITING = 0"
definition WAITING :: int where "WAITING = 1"
definition NOTIFIED :: int where "NOTIFIED = 2"

text \<open>
  \<open>piped\<close> counts the bytes in the pipe behind \<open>rsock\<close> and \<open>wsock\<close>; a non-blocking write to a full
  pipe stores nothing.
\<close>

record 'a queue =
  slots :: "'a option list"
  qhead :: nat
  qtail :: nat
  pop_lock :: bool
  wait_state :: int
  rsock :: int
  wsock :: int
  piped :: nat

definition PIPE_CAPACITY :: nat where "PIPE_CAPACITY = 65536"

definition queue_init :: "nat \<Rightarrow> 'a queue" where
  "queue_init qsize =
     (let qsize = (if qsize < 4 then 4 else qsize)
      in \<lparr>slots = replicate qsize None, qhead = 0, qtail = 1, pop_lock = False,
          wait_state = 0, rsock = 0, wsock = 0, piped = 0\<rparr>)"

text \<open>The slots are freed, and the sockets to close are returned.\<close>

definition queue_cleanup :: "'a queue \<Rightarrow> 'a queue \<times> int list" where
  "queue_cleanup q =
     (q\<lparr>slots := []\<rparr>,
      (if 0 < wsock q then [wsock q] else []) @ (if 0 < rsock q then [rsock q] else []))"

text \<open>\<open>p + 1\<close>, wrapped at the end of the ring\<close>

definition next_slot :: "'a queue \<Rightarrow> nat \<Rightarrow> nat" where
  "next_slot q p = (let next = p + 1 in if length (slots q) \<le> next then 0 else next)"

section \<open>Pushing and popping\<close>

definition notify :: "'a queue \<Rightarrow> 'a queue" where
  "notify q =
     (if wsock q \<noteq> 0 \<and> wait_state q = WAITING
      then q\<lparr>piped := (if piped q < PIPE_CAPACITY then piped q + 1 else piped q), wait_state := NOTIFIED\<rparr>
      else q)"

text \<open>\<open>None\<close> is waiting for ever: with no other thread nobody moves \<open>head\<close> on.\<close>

definition queue_push :: "'a queue \<Rightarrow> 'a \<Rightarrow> 'a queue option" where
  "queue_push q item =
     (if qhead q = qtail q then None
      else let q = q\<lparr>slots := (slots q)[qtail q := Some item]\<rparr>;
               q = q\<lparr>qtail := next_slot q (qtail q)\<rparr>
           in Some (notify q))"

text \<open>
  The lock is held on no return.  Waiting for an append ends with NULL when the timeout is used up,
  as no other thread moves \<open>tail\<close>.
\<close>

definition queue_pop :: "'a queue \<Rightarrow> ('a queue \<times> 'a option) option" where
  "queue_pop q =
     (if pop_lock q then None
      else case slots q ! qhead q of
        Some item \<Rightarrow> Some (q\<lparr>slots := (slots q)[qhead q := None]\<rparr>, Some item)
      | None \<Rightarrow>
          let next = next_slot q (qhead q) in
          if qtail q = next then Some (q, None)
          else let q = q\<lparr>qhead := next\<rparr>;
                   item = slots q ! qhead q
               in Some (q\<lparr>slots := (slots q)[qhead q := None]\<rparr>, item))"

definition queue_empty :: "'a queue \<Rightarrow> bool" where
  "queue_empty q =
     (let next = next_slot q (qhead q)
      in if slots q ! qhead q = None \<and> qtail q = next then True else False)"

text \<open>\<open>pipe\<close> is the pair of descriptors the system gives, \<open>None\<close> when it fails.\<close>

definition queue_listen :: "(int \<times> int) option \<Rightarrow> 'a queue \<Rightarrow> 'a queue \<times> int" where
  "queue_listen pipe q =
     (let q = (if 0 = rsock q
               then (case pipe of
                       Some (rfd, wfd) \<Rightarrow> q\<lparr>rsock := rfd, wsock := wfd\<rparr>
                     | None \<Rightarrow> q)
               else q);
          q = q\<lparr>wait_state := WAITING\<rparr>
      in (q, rsock q))"

text \<open>The pipe is read until it is empty.\<close>

definition queue_release :: "'a queue \<Rightarrow> 'a queue" where
  "queue_release q = (let q = q\<lparr>piped := 0\<rparr> in q\<lparr>wait_state := NOT_WAITING\<rparr>)"

text \<open>\<open>(q->tail - q->head + size) % size\<close>, in C's truncating remainder of a number not negative.\<close>

definition queue_count :: "'a queue \<Rightarrow> int" where
  "queue_count q =
     (let size = int (length (slots q)) in (int (qtail q) - int (qhead q) + size) mod size)"

section \<open>The interface\<close>

text \<open>
  A bounded queue that is first in, first out.  \<open>items\<close> is what it holds, the oldest first.
\<close>

locale fifo =
  fixes push :: "'q \<Rightarrow> 'a \<Rightarrow> 'q option"
    and pop :: "'q \<Rightarrow> ('q \<times> 'a option) option"
    and empty :: "'q \<Rightarrow> bool"
    and inv :: "'q \<Rightarrow> bool"
    and items :: "'q \<Rightarrow> 'a list"
    and capacity :: "'q \<Rightarrow> nat"
  assumes push_full: "inv q \<Longrightarrow> push q x = None \<longleftrightarrow> length (items q) = capacity q"
    and push_items: "inv q \<Longrightarrow> push q x = Some q' \<Longrightarrow>
      inv q' \<and> items q' = items q @ [x] \<and> capacity q' = capacity q"
    and pop_items: "inv q \<Longrightarrow> \<exists>q'. pop q = Some (q', (case items q of [] \<Rightarrow> None | x # xs \<Rightarrow> Some x)) \<and>
      inv q' \<and> items q' = tl (items q) \<and> capacity q' = capacity q"
    and empty_items: "inv q \<Longrightarrow> empty q \<longleftrightarrow> items q = []"
begin

primrec push_all :: "'a list \<Rightarrow> 'q \<Rightarrow> 'q option" where
  "push_all [] q = Some q"
| "push_all (x # xs) q = Option.bind (push q x) (push_all xs)"

primrec pop_all :: "nat \<Rightarrow> 'q \<Rightarrow> ('q \<times> 'a option list) option" where
  "pop_all 0 q = Some (q, [])"
| "pop_all (Suc n) q = do { (q, x) \<leftarrow> pop q; (q, xs) \<leftarrow> pop_all n q; Some (q, x # xs) }"

lemma push_all_items:
  "inv q \<Longrightarrow> length (items q) + length xs \<le> capacity q \<Longrightarrow>
   \<exists>q'. push_all xs q = Some q' \<and> inv q' \<and> items q' = items q @ xs \<and> capacity q' = capacity q"
proof (induction xs arbitrary: q)
  case (Cons x xs)
  then have "push q x \<noteq> None" by (simp add: push_full)
  then obtain q' where q': "push q x = Some q'" by auto
  with Cons.prems push_items [OF Cons.prems(1) q'] Cons.IH [of q'] show ?case by auto
qed simp

lemma pop_all_items:
  "inv q \<Longrightarrow> \<exists>q'. pop_all n q = Some (q', map Some (take n (items q)) @
      replicate (n - length (items q)) None) \<and> inv q' \<and> items q' = drop n (items q)"
proof (induction n arbitrary: q)
  case (Suc n)
  from pop_items [OF Suc.prems] obtain q' where
    q': "pop q = Some (q', (case items q of [] \<Rightarrow> None | x # xs \<Rightarrow> Some x))" "inv q'"
    "items q' = tl (items q)" by blast
  with Suc.IH [OF q'(2)] show ?case by (cases "items q") auto
qed simp

text \<open>What goes in comes out in order, and then there is nothing.\<close>

lemma push_pop_order:
  assumes "inv q" and "items q = []" and "length xs \<le> capacity q"
  shows "\<exists>q1 q2. push_all xs q = Some q1 \<and>
    pop_all (length xs + 1) q1 = Some (q2, map Some xs @ [None]) \<and> empty q2"
proof -
  from push_all_items [of q xs] assms obtain q1 where
    q1: "push_all xs q = Some q1" "inv q1" "items q1 = xs" by auto
  from pop_all_items [OF q1(2), of "length xs + 1"] q1 obtain q2 where
    "pop_all (length xs + 1) q1 = Some (q2, map Some xs @ [None])" "inv q2" "items q2 = []"
    by auto
  with q1 empty_items show ?thesis by blast
qed

end

section \<open>The ring is a fifo\<close>

text \<open>
  The items lie between \<open>head\<close> and \<open>tail\<close>, \<open>used\<close> of them; the slot at \<open>head\<close> and those from
  \<open>tail\<close> on are NULL or free.
\<close>

definition used :: "'a queue \<Rightarrow> nat" where
  "used q = (qtail q + length (slots q) - qhead q - 1) mod length (slots q)"

definition queue_items :: "'a queue \<Rightarrow> 'a list" where
  "queue_items q = map (\<lambda>i. the (slots q ! ((qhead q + 1 + i) mod length (slots q)))) [0..<used q]"

definition queue_inv :: "'a queue \<Rightarrow> bool" where
  "queue_inv q \<longleftrightarrow> 2 \<le> length (slots q) \<and> qhead q < length (slots q) \<and> qtail q < length (slots q) \<and>
     \<not> pop_lock q \<and> slots q ! qhead q = None \<and>
     (\<forall>i < used q. slots q ! ((qhead q + 1 + i) mod length (slots q)) \<noteq> None)"

definition queue_capacity :: "'a queue \<Rightarrow> nat" where
  "queue_capacity q = length (slots q) - 1"

lemma mod_add_inj:
  fixes u v :: nat
  assumes "u < n" and "v < n" and "(a + u) mod n = (a + v) mod n"
  shows "u = v"
proof -
  have "x = y" if "x \<le> y" "y < n" "(a + x) mod n = (a + y) mod n" for x y
  proof -
    have "n dvd (a + y) - (a + x)" using that(3) that(1) by (metis mod_eq_dvd_iff_nat nat_add_left_cancel_le)
    then have "n dvd y - x" by simp
    with that show ?thesis using nat_dvd_not_less [of "y - x" n] by fastforce
  qed
  from this [of u v] this [of v u] assms show ?thesis by (cases "u \<le> v") auto
qed

lemma queue_bounds:
  "queue_inv q \<Longrightarrow> qhead q < length (slots q) \<and> qtail q < length (slots q) \<and> 2 \<le> length (slots q)"
  by (simp add: queue_inv_def)

lemma used_less: "queue_inv q \<Longrightarrow> used q < length (slots q)"
  unfolding used_def by (rule mod_less_divisor) (auto dest: queue_bounds)

lemma around: "h < n \<Longrightarrow> (h + 1 + (n - 1)) mod n = (h :: nat)"
  and around_tail: "h < n \<Longrightarrow> t < n \<Longrightarrow> (h + 1 + (t + n - h - 1)) mod n = (t :: nat)"
proof -
  have "h + 1 + (n - 1) = h + n" if "h < n" using that by simp
  then show "h < n \<Longrightarrow> (h + 1 + (n - 1)) mod n = h" by simp
  have "h + 1 + (t + n - h - 1) = t + n" if "h < n" "t < n" using that by simp
  then show "h < n \<Longrightarrow> t < n \<Longrightarrow> (h + 1 + (t + n - h - 1)) mod n = t" by simp
qed

lemma tail_used:
  assumes "queue_inv q"
  shows "(qhead q + 1 + used q) mod length (slots q) = qtail q"
proof -
  have h: "qhead q < length (slots q)" "qtail q < length (slots q)"
    using assms by (simp_all add: queue_inv_def)
  have "(qhead q + 1 + used q) mod length (slots q) =
      (qhead q + 1 + (qtail q + length (slots q) - qhead q - 1)) mod length (slots q)"
    unfolding used_def by (rule mod_add_right_eq)
  also have "\<dots> = qtail q" using h by (rule around_tail)
  finally show ?thesis .
qed

lemma used_unique:
  assumes "length (slots q) = n" and "qhead q < n" and "qtail q < n" and "u < n"
    and "(qhead q + 1 + u) mod n = qtail q"
  shows "used q = u"
proof -
  have "(qhead q + 1 + used q) mod n = qtail q"
  proof -
    have "(qhead q + 1 + used q) mod n = (qhead q + 1 + (qtail q + n - qhead q - 1)) mod n"
      unfolding used_def assms(1) by (rule mod_add_right_eq)
    then show ?thesis using around_tail [OF assms(2,3)] by simp
  qed
  moreover have "used q < n" using assms(1,4) by (simp add: used_def)
  ultimately show ?thesis using mod_add_inj [of "used q" n u "qhead q + 1"] assms(4,5) by simp
qed

lemma next_slot_mod: "p < length (slots q) \<Longrightarrow> next_slot q p = (p + 1) mod length (slots q)"
  by (cases "p + 1 = length (slots q)") (auto simp: next_slot_def Let_def)

text \<open>A slot the queue uses is neither the one at \<open>head\<close> nor the one at \<open>tail\<close>.\<close>

lemma used_index:
  assumes q: "queue_inv q" and i: "i < used q"
  shows "(qhead q + 1 + i) mod length (slots q) \<noteq> qtail q"
    and "(qhead q + 1 + i) mod length (slots q) \<noteq> qhead q"
proof -
  let ?n = "length (slots q)"
  note u = used_less [OF q] tail_used [OF q]
  show "(qhead q + 1 + i) mod ?n \<noteq> qtail q"
    using mod_add_inj [of i ?n "used q" "qhead q + 1"] i u by auto
  have "(qhead q + 1 + (?n - 1)) mod ?n = qhead q" using queue_bounds [OF q] by (intro around) simp
  then show "(qhead q + 1 + i) mod ?n \<noteq> qhead q"
    using mod_add_inj [of i ?n "?n - 1" "qhead q + 1"] i u by auto
qed

lemma full_iff:
  assumes "queue_inv q"
  shows "qhead q = qtail q \<longleftrightarrow> used q = length (slots q) - 1"
proof -
  let ?n = "length (slots q)"
  have h: "(qhead q + 1 + (?n - 1)) mod ?n = qhead q" "?n - 1 < ?n"
    using queue_bounds [OF assms] around [of "qhead q" ?n] by auto
  show ?thesis
    using mod_add_inj [OF used_less [OF assms] h(2), of "qhead q + 1"] tail_used [OF assms] h(1)
    by auto
qed

lemma empty_iff:
  assumes "queue_inv q"
  shows "qtail q = next_slot q (qhead q) \<longleftrightarrow> used q = 0"
proof -
  have h: "next_slot q (qhead q) = (qhead q + 1 + 0) mod length (slots q)"
    using assms by (simp add: queue_inv_def next_slot_mod)
  show ?thesis
    using mod_add_inj [OF used_less [OF assms], of 0 "qhead q + 1"] tail_used [OF assms] h
      queue_bounds [OF assms] by fastforce
qed

lemma notify_simps [simp]:
  "slots (notify q) = slots q" "qhead (notify q) = qhead q" "qtail (notify q) = qtail q"
  "pop_lock (notify q) = pop_lock q"
  by (simp_all add: notify_def)

lemma notify_abs [simp]:
  "queue_inv (notify q) = queue_inv q" "queue_items (notify q) = queue_items q"
  "queue_capacity (notify q) = queue_capacity q"
  by (simp_all add: queue_inv_def queue_items_def queue_capacity_def used_def)

lemma queue_push_ok:
  assumes q: "queue_inv q" and p: "queue_push q x = Some q'"
  shows "queue_inv q' \<and> queue_items q' = queue_items q @ [x] \<and> queue_capacity q' = queue_capacity q"
proof -
  let ?n = "length (slots q)"
  define r where "r = q\<lparr>slots := (slots q)[qtail q := Some x], qtail := next_slot q (qtail q)\<rparr>"
  from p have ne: "qhead q \<noteq> qtail q" and q': "q' = notify r"
    by (auto simp: queue_push_def Let_def r_def next_slot_def split: if_splits)
  have b: "qhead q < ?n" "qtail q < ?n" "2 \<le> ?n" "0 < ?n"
    using queue_bounds [OF q] by auto
  have u: "used q + 1 < ?n" using full_iff [OF q] ne used_less [OF q] by simp
  have t': "next_slot q (qtail q) = (qhead q + 1 + (used q + 1)) mod ?n"
    using tail_used [OF q] b by (metis add.assoc mod_add_left_eq next_slot_mod)
  have tb: "next_slot q (qtail q) < ?n"
    unfolding t' using b(4) by (rule mod_less_divisor)
  have u': "used r = used q + 1"
    by (rule used_unique [of _ ?n]) (use b u tb t' in \<open>simp_all add: r_def\<close>)
  have old: "slots r ! ((qhead q + 1 + i) mod ?n) = slots q ! ((qhead q + 1 + i) mod ?n)" if "i < used q" for i
    using used_index(1) [OF q that] by (simp add: r_def)
  have new: "slots r ! ((qhead q + 1 + used q) mod ?n) = Some x"
    unfolding tail_used [OF q] using b by (simp add: r_def)
  have "queue_inv r"
    unfolding queue_inv_def u'
  proof (intro conjI allI impI)
    show "qtail r < length (slots r)" using tb by (simp add: r_def)
    fix i assume "i < used q + 1"
    then show "slots r ! ((qhead r + 1 + i) mod length (slots r)) \<noteq> None"
      using old [of i] new q by (cases "i = used q") (auto simp: r_def queue_inv_def)
  qed (use q b ne in \<open>simp_all add: r_def queue_inv_def\<close>)
  moreover have "queue_items r = queue_items q @ [x]"
    using old new unfolding queue_items_def u' by (simp add: r_def)
  ultimately show ?thesis by (simp add: q' r_def queue_capacity_def)
qed

lemma queue_pop_ok:
  assumes q: "queue_inv q"
  shows "\<exists>q'. queue_pop q = Some (q', (case queue_items q of [] \<Rightarrow> None | x # xs \<Rightarrow> Some x)) \<and>
    queue_inv q' \<and> queue_items q' = tl (queue_items q) \<and> queue_capacity q' = queue_capacity q"
proof (cases "used q = 0")
  case True
  then show ?thesis using q empty_iff [OF q]
    by (simp add: queue_pop_def queue_items_def queue_inv_def Let_def)
next
  case False
  let ?n = "length (slots q)"
  define r where "r = q\<lparr>qhead := next_slot q (qhead q), slots := (slots q)[next_slot q (qhead q) := None]\<rparr>"
  have b: "qhead q < ?n" "qtail q < ?n" "2 \<le> ?n" "0 < ?n"
    using queue_bounds [OF q] by auto
  have h': "next_slot q (qhead q) = (qhead q + 1) mod ?n" using b by (simp add: next_slot_mod)
  have hb: "next_slot q (qhead q) < ?n"
    unfolding h' using b(4) by (rule mod_less_divisor)
  have ix: "(qhead r + 1 + i) mod ?n = (qhead q + 1 + (i + 1)) mod ?n" for i
    using mod_add_left_eq [of "qhead q + 1" ?n "1 + i"] by (simp add: r_def h')
  have u': "used r = used q - 1"
    by (rule used_unique [of _ ?n])
      (use b hb False used_less [OF q] tail_used [OF q] ix [of "used q - 1"] in \<open>simp_all add: r_def h'\<close>)
  have ne: "(qhead q + 1 + (i + 1)) mod ?n \<noteq> next_slot q (qhead q)" if "i < used q - 1" for i
  proof
    assume eq: "(qhead q + 1 + (i + 1)) mod ?n = next_slot q (qhead q)"
    have i: "i + 1 < ?n" using that used_less [OF q] by simp
    have "(qhead q + 1 + (i + 1)) mod ?n = (qhead q + 1 + 0) mod ?n"
      unfolding eq h' by simp
    then have "i + 1 = 0" by (rule mod_add_inj [OF i b(4)])
    then show False by simp
  qed
  have keep: "slots r ! ((qhead r + 1 + i) mod ?n) = slots q ! ((qhead q + 1 + (i + 1)) mod ?n)"
    if "i < used q - 1" for i
    unfolding ix using ne [OF that] by (simp add: r_def)
  have some: "slots q ! ((qhead q + 1 + i) mod ?n) \<noteq> None" if "i < used q" for i
    using q that by (simp add: queue_inv_def)
  have inv: "queue_inv r"
    unfolding queue_inv_def u'
  proof (intro conjI allI impI)
    fix i assume i: "i < used q - 1"
    show "slots r ! ((qhead r + 1 + i) mod length (slots r)) \<noteq> None"
      using keep [OF i] some [of "i + 1"] i by (simp add: r_def)
  qed (use q b h' in \<open>simp_all add: r_def queue_inv_def\<close>)
  obtain y where y: "slots q ! next_slot q (qhead q) = Some y"
    using some [of 0] False h' by auto
  have items: "queue_items q = y # queue_items r"
  proof -
    have "[0..<used q] = 0 # map (\<lambda>i. i + 1) [0..<used q - 1]"
      using False by (simp add: upt_conv_Cons map_Suc_upt)
    then show ?thesis using keep h' y unfolding queue_items_def u' by (simp add: r_def)
  qed
  have "qtail q \<noteq> next_slot q (qhead q)" using empty_iff [OF q] False by simp
  then have pop: "queue_pop q = Some (r, Some y)"
    using q y by (simp add: queue_pop_def queue_inv_def r_def Let_def)
  have "queue_capacity r = queue_capacity q" by (simp add: r_def queue_capacity_def)
  with pop inv items show ?thesis by simp
qed

interpretation ring: fifo queue_push queue_pop queue_empty queue_inv queue_items queue_capacity
proof
  show "queue_push q x = None \<longleftrightarrow> length (queue_items q) = queue_capacity q"
    if "queue_inv q" for q :: "'a queue" and x
    using full_iff [OF that] by (auto simp: queue_push_def queue_items_def queue_capacity_def Let_def)
  show "queue_empty q \<longleftrightarrow> queue_items q = []" if "queue_inv q" for q :: "'a queue"
    using empty_iff [OF that] that by (simp add: queue_empty_def queue_items_def queue_inv_def Let_def)
  show "queue_inv q' \<and> queue_items q' = queue_items q @ [x] \<and> queue_capacity q' = queue_capacity q"
    if "queue_inv q" "queue_push q x = Some q'" for q q' :: "'a queue" and x
    using that by (rule queue_push_ok)
qed (rule queue_pop_ok)

lemma init_ring [simp]:
  "queue_inv (queue_init n)" "queue_items (queue_init n) = []"
  "queue_capacity (queue_init n) = max n 4 - 1"
  by (auto simp: queue_inv_def queue_items_def queue_capacity_def used_def queue_init_def Let_def max_def)

text \<open>Many calls, each on the queue the one before it left.\<close>

fun push_list :: "'a list \<Rightarrow> 'a queue \<Rightarrow> 'a queue option" where
  "push_list [] q = Some q"
| "push_list (x # xs) q = do { q \<leftarrow> queue_push q x; push_list xs q }"

fun pop_list :: "nat \<Rightarrow> 'a queue \<Rightarrow> ('a queue \<times> 'a option list) option" where
  "pop_list 0 q = Some (q, [])"
| "pop_list (Suc n) q = do { (q, x) \<leftarrow> queue_pop q; (q, xs) \<leftarrow> pop_list n q; Some (q, x # xs) }"

lemma ring_push_all: "ring.push_all xs q = push_list xs q"
proof (induction xs arbitrary: q)
  case (Cons x xs)
  then show ?case by (cases "queue_push q x") simp_all
qed simp

lemma ring_pop_all: "ring.pop_all n q = pop_list n q"
  by (induction n arbitrary: q) simp_all

section \<open>Properties\<close>

text \<open>
  C19: a queue that satisfies the invariant holds a bounded list.  \<open>queue_push\<close> appends to it and
  waits exactly when all slots but one are used, \<open>queue_pop\<close> removes the oldest item or returns
  NULL, \<open>queue_empty\<close> tells whether it is empty, and the invariant is kept.
\<close>

theorem queue_refines_list:
  assumes "queue_inv q"
  shows "(queue_push q x = None \<longleftrightarrow> length (queue_items q) = length (slots q) - 1) \<and>
    (\<forall>q'. queue_push q x = Some q' \<longrightarrow> queue_inv q' \<and> queue_items q' = queue_items q @ [x]) \<and>
    (\<exists>q'. queue_pop q = Some (q', (case queue_items q of [] \<Rightarrow> None | y # ys \<Rightarrow> Some y)) \<and>
       queue_inv q' \<and> queue_items q' = tl (queue_items q)) \<and>
    (queue_empty q \<longleftrightarrow> queue_items q = [])"
  using ring.push_full [OF assms] ring.push_items [OF assms, of x] ring.pop_items [OF assms]
    ring.empty_items [OF assms] by (auto simp: queue_capacity_def)

theorem queue_refines_list_witness:
  "queue_pop (queue_init 4 :: nat queue) = Some (queue_init 4, None)"
proof -
  have "\<exists>q'. queue_pop (queue_init 4 :: nat queue) = Some (q', None)"
    using queue_refines_list [of "queue_init 4 :: nat queue" 0] by auto
  then show ?thesis by (auto simp: queue_pop_def queue_init_def next_slot_def)
qed

text \<open>
  C32: what is pushed on a new queue, up to its capacity of \<open>max qsize 4 - 1\<close> items, is popped in
  the same order, and the next pop finds nothing.
\<close>

theorem queue_fifo_order:
  fixes xs :: "'a list"
  assumes "length xs < max n 4"
  shows "\<exists>q1 q2. push_list xs (queue_init n) = Some q1 \<and>
    pop_list (length xs + 1) q1 = Some (q2, map Some xs @ [None]) \<and> queue_empty q2"
proof -
  have "length xs \<le> queue_capacity (queue_init n :: 'a queue)" using assms by simp
  from ring.push_pop_order [OF init_ring(1,2) this] show ?thesis
    by (simp only: ring_push_all ring_pop_all)
qed

theorem queue_fifo_order_witness:
  "\<exists>q1 q2. push_list [5, 6 :: nat] (queue_init 0) = Some q1 \<and>
     pop_list 3 q1 = Some (q2, [Some 5, Some 6, None]) \<and> queue_empty q2"
  using queue_fifo_order [of "[5, 6 :: nat]" 0] by (simp add: numeral_3_eq_3)

text \<open>
  C33: \<open>queue_count\<close> is one too high: it counts the free slot at \<open>head\<close>, so an empty queue counts
  1, and a full one 0.
\<close>

theorem queue_count_off_by_one:
  assumes "queue_inv q"
  shows "queue_count q = (if length (queue_items q) = queue_capacity q then 0
    else int (length (queue_items q)) + 1)"
proof -
  let ?n = "length (slots q)"
  have b: "qhead q < ?n" "qtail q < ?n" "2 \<le> ?n" using queue_bounds [OF assms] by auto
  have len: "length (queue_items q) = used q" by (simp add: queue_items_def)
  show ?thesis
  proof (cases "qhead q < qtail q")
    case True
    have "used q = qtail q - qhead q - 1"
      by (rule used_unique [of _ ?n]) (use b True in simp_all)
    moreover have "(int (qtail q) - int (qhead q) + int ?n) mod int ?n = int (qtail q) - int (qhead q)"
      using b True by (simp add: mod_pos_pos_trivial)
    ultimately show ?thesis using True b
      by (simp add: queue_count_def Let_def len queue_capacity_def of_nat_diff)
  next
    case False
    have u: "used q = qtail q + ?n - qhead q - 1"
      by (rule used_unique [of _ ?n]) (use b False around_tail [of "qhead q" ?n "qtail q"] in simp_all)
    show ?thesis
    proof (cases "qhead q = qtail q")
      case True
      with u b show ?thesis by (simp add: queue_count_def Let_def len queue_capacity_def)
    next
      case neq: False
      have "(int (qtail q) - int (qhead q) + int ?n) mod int ?n = int (qtail q) - int (qhead q) + int ?n"
        using b False neq by (intro mod_pos_pos_trivial) simp_all
      with False neq u b show ?thesis
        by (simp add: queue_count_def Let_def len queue_capacity_def of_nat_diff)
    qed
  qed
qed

theorem queue_count_off_by_one_witness:
  "queue_count (queue_init 8 :: nat queue) = 1"
  using queue_count_off_by_one [of "queue_init 8 :: nat queue"] by simp

end
