(* ===== verification/QueueRace.thy ===== *)
theory QueueRace imports Queue begin

text \<open>
  The steps of one pushing thread and of any number of popping threads, interleaved.  Each access
  to the shared ring is a step of its own: the atomics of \<^verbatim>\<open>queue.c\<close> are sequentially consistent,
  and a plain slot access lies between two of them.  \<open>pushed\<close> and \<open>popped\<close> record the items in the
  order they became visible and were taken; they are no part of the program.
\<close>

section \<open>Threads\<close>

text \<open>Where the pushing thread is in \<open>queue_push\<close>, and a popping thread in \<open>queue_pop\<close>.\<close>

datatype 'a producer = PIdle | PWait 'a | PStore 'a | PTail 'a | PNotify

datatype 'a consumer =
    CIdle | CSpin | CRead | CLoop nat int | CHead nat | CTake | CClear "'a option"
  | CUnlock "'a option"

record 'a race =
  ring_of :: "'a queue"
  prod :: "'a producer"
  cons :: "nat \<Rightarrow> 'a consumer"
  pushed :: "'a list"
  popped :: "'a list"

definition race_init :: "nat \<Rightarrow> 'a race" where
  "race_init n = \<lparr>ring_of = queue_init n, prod = PIdle, cons = (\<lambda>_. CIdle), pushed = [], popped = []\<rparr>"

inductive step :: "'a race \<Rightarrow> 'a race \<Rightarrow> bool" where
  push_call: "prod s = PIdle \<Longrightarrow> step s (s\<lparr>prod := PWait x\<rparr>)"
| push_sleep: "prod s = PWait x \<Longrightarrow> qhead (ring_of s) = qtail (ring_of s) \<Longrightarrow> step s s"
| push_go: "prod s = PWait x \<Longrightarrow> qhead (ring_of s) \<noteq> qtail (ring_of s) \<Longrightarrow>
    step s (s\<lparr>prod := PStore x\<rparr>)"
| push_store: "prod s = PStore x \<Longrightarrow> q = ring_of s \<Longrightarrow>
    step s (s\<lparr>ring_of := q\<lparr>slots := (slots q)[qtail q := Some x]\<rparr>, prod := PTail x\<rparr>)"
| push_tail: "prod s = PTail x \<Longrightarrow> q = ring_of s \<Longrightarrow>
    step s (s\<lparr>ring_of := q\<lparr>qtail := next_slot q (qtail q)\<rparr>, prod := PNotify, pushed := pushed s @ [x]\<rparr>)"
| push_notify: "prod s = PNotify \<Longrightarrow> step s (s\<lparr>ring_of := notify (ring_of s), prod := PIdle\<rparr>)"
| pop_call: "cons s i = CIdle \<Longrightarrow> step s (s\<lparr>cons := (cons s)(i := CSpin)\<rparr>)"
| pop_sleep: "cons s i = CSpin \<Longrightarrow> pop_lock (ring_of s) \<Longrightarrow> step s s"
| pop_locked: "cons s i = CSpin \<Longrightarrow> \<not> pop_lock (ring_of s) \<Longrightarrow>
    step s (s\<lparr>ring_of := ring_of s\<lparr>pop_lock := True\<rparr>, cons := (cons s)(i := CRead)\<rparr>)"
| pop_found: "cons s i = CRead \<Longrightarrow> slots (ring_of s) ! qhead (ring_of s) = Some x \<Longrightarrow>
    step s (s\<lparr>cons := (cons s)(i := CClear (Some x)), popped := popped s @ [x]\<rparr>)"
| pop_missing: "cons s i = CRead \<Longrightarrow> slots (ring_of s) ! qhead (ring_of s) = None \<Longrightarrow>
    step s (s\<lparr>cons := (cons s)(i := CLoop (next_slot (ring_of s) (qhead (ring_of s))) cnt)\<rparr>)"
| pop_wait: "cons s i = CLoop next cnt \<Longrightarrow> qtail (ring_of s) = next \<Longrightarrow> 0 < cnt \<Longrightarrow>
    step s (s\<lparr>cons := (cons s)(i := CLoop next (cnt - 1))\<rparr>)"
| pop_timeout: "cons s i = CLoop next cnt \<Longrightarrow> qtail (ring_of s) = next \<Longrightarrow> cnt \<le> 0 \<Longrightarrow>
    step s (s\<lparr>cons := (cons s)(i := CUnlock None)\<rparr>)"
| pop_ready: "cons s i = CLoop next cnt \<Longrightarrow> qtail (ring_of s) \<noteq> next \<Longrightarrow>
    step s (s\<lparr>cons := (cons s)(i := CHead next)\<rparr>)"
| pop_head: "cons s i = CHead next \<Longrightarrow>
    step s (s\<lparr>ring_of := ring_of s\<lparr>qhead := next\<rparr>, cons := (cons s)(i := CTake)\<rparr>)"
| pop_take: "cons s i = CTake \<Longrightarrow> item = slots (ring_of s) ! qhead (ring_of s) \<Longrightarrow>
    step s (s\<lparr>cons := (cons s)(i := CClear item),
      popped := popped s @ (case item of None \<Rightarrow> [] | Some x \<Rightarrow> [x])\<rparr>)"
| pop_clear: "cons s i = CClear item \<Longrightarrow> q = ring_of s \<Longrightarrow>
    step s (s\<lparr>ring_of := q\<lparr>slots := (slots q)[qhead q := None]\<rparr>, cons := (cons s)(i := CUnlock item)\<rparr>)"
| pop_unlock: "cons s i = CUnlock item \<Longrightarrow>
    step s (s\<lparr>ring_of := ring_of s\<lparr>pop_lock := False\<rparr>, cons := (cons s)(i := CIdle)\<rparr>)"
| listen: "step s (s\<lparr>ring_of := fst (queue_listen pipe (ring_of s))\<rparr>)"
| release: "step s (s\<lparr>ring_of := queue_release (ring_of s)\<rparr>)"

inductive reachable :: "nat \<Rightarrow> 'a race \<Rightarrow> bool" for n where
  start: "reachable n (race_init n)"
| move: "reachable n s \<Longrightarrow> step s t \<Longrightarrow> reachable n t"

section \<open>The invariant\<close>

text \<open>
  \<open>H\<close> counts how often \<open>head\<close> has moved on: item \<open>j\<close> of \<open>pushed\<close>, counted from 1, has slot
  \<open>j mod n\<close>.  \<open>holds\<close> says that a thread is inside the lock, and \<open>local\<close> what is true where it is.
\<close>

definition holds_lock :: "'a consumer \<Rightarrow> bool" where
  "holds_lock c \<longleftrightarrow> c \<noteq> CIdle \<and> c \<noteq> CSpin"

fun local :: "'a consumer \<Rightarrow> nat \<Rightarrow> nat \<Rightarrow> 'a list \<Rightarrow> 'a list \<Rightarrow> 'a option \<Rightarrow> bool" where
  "local (CLoop next cnt) H n ps qs x \<longleftrightarrow> qs = take H ps \<and> x = None \<and> next = Suc H mod n"
| "local (CHead next) H n ps qs x \<longleftrightarrow>
     qs = take H ps \<and> x = None \<and> next = Suc H mod n \<and> H < length ps"
| "local CTake H n ps qs x \<longleftrightarrow> 0 < H \<and> qs = take (H - 1) ps \<and> x = Some (ps ! (H - 1))"
| "local (CClear item) H n ps qs x \<longleftrightarrow> 0 < H \<and> qs = take H ps \<and> item = Some (ps ! (H - 1))"
| "local c H n ps qs x \<longleftrightarrow> qs = take H ps \<and> x = None"

fun prod_ok :: "'a producer \<Rightarrow> nat \<Rightarrow> nat \<Rightarrow> nat \<Rightarrow> 'a option \<Rightarrow> bool" where
  "prod_ok (PStore x) H n P y \<longleftrightarrow> P + 1 < H + n"
| "prod_ok (PTail x) H n P y \<longleftrightarrow> P + 1 < H + n \<and> y = Some x"
| "prod_ok p H n P y \<longleftrightarrow> True"

definition ring_ok :: "'a race \<Rightarrow> nat \<Rightarrow> bool" where
  "ring_ok s H \<longleftrightarrow> (let q = ring_of s; n = length (slots q); P = length (pushed s) in
     2 \<le> n \<and> qhead q = H mod n \<and> qtail q = Suc P mod n \<and> H \<le> P \<and> Suc P \<le> H + n \<and>
     (\<forall>j. H < j \<and> j \<le> P \<longrightarrow> slots q ! (j mod n) = Some (pushed s ! (j - 1))) \<and>
     prod_ok (prod s) H n P (slots q ! qtail q))"

definition lock_ok :: "'a race \<Rightarrow> nat \<Rightarrow> nat \<Rightarrow> bool" where
  "lock_ok s H owner \<longleftrightarrow> (let q = ring_of s in
     (\<forall>i. i \<noteq> owner \<longrightarrow> \<not> holds_lock (cons s i)) \<and> (pop_lock q \<longleftrightarrow> holds_lock (cons s owner)) \<and>
     local (cons s owner) H (length (slots q)) (pushed s) (popped s) (slots q ! qhead q))"

definition race_inv :: "'a race \<Rightarrow> bool" where
  "race_inv s \<longleftrightarrow> (\<exists>H owner. ring_ok s H \<and> lock_ok s H owner)"

lemma mod_apart:
  fixes i j n :: nat
  assumes "i < j" and "j < i + n"
  shows "i mod n \<noteq> j mod n"
proof
  assume "i mod n = j mod n"
  then have "(i + 0) mod n = (i + (j - i)) mod n" using assms(1) by simp
  then have "0 = j - i" by (rule mod_add_inj [rotated 2]) (use assms in simp_all)
  then show False using assms(1) by simp
qed

lemma index_less: "2 \<le> n \<Longrightarrow> k mod n < (n :: nat)"
  by (rule mod_less_divisor) simp

lemma race_inv_init: "race_inv (race_init n)"
  unfolding race_inv_def ring_ok_def lock_ok_def
  by (intro exI [of _ 0]) (auto simp: race_init_def queue_init_def Let_def holds_lock_def)

text \<open>The thread that holds the lock is the owner.\<close>

lemma lock_owner: "lock_ok s H owner \<Longrightarrow> holds_lock (cons s i) \<Longrightarrow> i = owner"
  by (auto simp: lock_ok_def Let_def)

lemma local_grow:
  "local c H n ps qs y \<Longrightarrow> H \<le> length ps \<Longrightarrow> local c H n (ps @ [x]) qs y"
  by (cases c) (auto simp: nth_append)

lemma race_invI: "ring_ok s H \<Longrightarrow> lock_ok s H owner \<Longrightarrow> race_inv s"
  by (auto simp: race_inv_def)

lemma push_store_inv:
  assumes r: "ring_ok s H" and l: "lock_ok s H owner" and p: "prod s = PStore x" and q: "q = ring_of s"
  shows "race_inv (s\<lparr>ring_of := q\<lparr>slots := (slots q)[qtail q := Some x]\<rparr>, prod := PTail x\<rparr>)"
proof (rule race_invI)
  let ?n = "length (slots q)" and ?P = "length (pushed s)"
  have b: "2 \<le> ?n" "qhead q = H mod ?n" "qtail q = Suc ?P mod ?n" "H \<le> ?P" "Suc ?P < H + ?n"
    using r p by (simp_all add: ring_ok_def Let_def q)
  have tn: "qtail q < ?n" unfolding b(3) using b(1) by (rule index_less)
  have apart: "j mod ?n \<noteq> qtail q" if "H \<le> j" "j \<le> ?P" for j
    unfolding b(3) using that b(5) by (intro mod_apart) simp_all
  have keep: "(slots q)[qtail q := Some x] ! (j mod ?n) = slots q ! (j mod ?n)" if "H \<le> j" "j \<le> ?P" for j
    using apart [OF that] by simp
  show "ring_ok (s\<lparr>ring_of := q\<lparr>slots := (slots q)[qtail q := Some x]\<rparr>, prod := PTail x\<rparr>) H"
    using r b tn keep by (simp add: ring_ok_def Let_def q)
  show "lock_ok (s\<lparr>ring_of := q\<lparr>slots := (slots q)[qtail q := Some x]\<rparr>, prod := PTail x\<rparr>) H owner"
    using l keep [of H] b by (simp add: lock_ok_def Let_def q)
qed

lemma push_tail_inv:
  assumes r: "ring_ok s H" and l: "lock_ok s H owner" and p: "prod s = PTail x" and q: "q = ring_of s"
  shows "race_inv (s\<lparr>ring_of := q\<lparr>qtail := next_slot q (qtail q)\<rparr>, prod := PNotify,
    pushed := pushed s @ [x]\<rparr>)"
proof (rule race_invI)
  let ?n = "length (slots q)" and ?P = "length (pushed s)"
  have b: "2 \<le> ?n" "qtail q = Suc ?P mod ?n" "H \<le> ?P" "Suc ?P < H + ?n"
    using r p by (simp_all add: ring_ok_def Let_def q)
  have last: "slots q ! (Suc ?P mod ?n) = Some x"
    using r p b(2) by (auto simp: ring_ok_def Let_def q)
  have tn: "qtail q < ?n" unfolding b(2) using b(1) by (rule index_less)
  have t: "next_slot q (qtail q) = Suc (Suc ?P) mod ?n"
    using next_slot_mod [OF tn] by (simp add: b(2) mod_Suc_eq)
  show "ring_ok (s\<lparr>ring_of := q\<lparr>qtail := next_slot q (qtail q)\<rparr>, prod := PNotify,
      pushed := pushed s @ [x]\<rparr>) H"
    using r b t last by (auto simp: ring_ok_def Let_def q nth_append less_Suc_eq_le le_Suc_eq)
  show "lock_ok (s\<lparr>ring_of := q\<lparr>qtail := next_slot q (qtail q)\<rparr>, prod := PNotify,
      pushed := pushed s @ [x]\<rparr>) H owner"
    using l b(3) by (auto simp: lock_ok_def Let_def q intro: local_grow)
qed

lemma pop_head_inv:
  assumes r: "ring_ok s H" and l: "lock_ok s H owner" and c: "cons s i = CHead next"
  shows "race_inv (s\<lparr>ring_of := ring_of s\<lparr>qhead := next\<rparr>, cons := (cons s)(i := CTake)\<rparr>)"
proof (rule race_invI)
  have i: "i = owner" using lock_owner [OF l] c by (simp add: holds_lock_def)
  have lo: "popped s = take H (pushed s)" "next = Suc H mod length (slots (ring_of s))"
    "H < length (pushed s)"
    using l c by (simp_all add: lock_ok_def Let_def i)
  show "ring_ok (s\<lparr>ring_of := ring_of s\<lparr>qhead := next\<rparr>, cons := (cons s)(i := CTake)\<rparr>) (Suc H)"
    using r lo by (cases "prod s") (auto simp: ring_ok_def Let_def)
  have "slots (ring_of s) ! next = Some (pushed s ! H)"
    using r lo by (auto simp: ring_ok_def Let_def)
  then show "lock_ok (s\<lparr>ring_of := ring_of s\<lparr>qhead := next\<rparr>, cons := (cons s)(i := CTake)\<rparr>) (Suc H) i"
    using l lo c i by (auto simp: lock_ok_def Let_def holds_lock_def)
qed

lemma pop_clear_inv:
  assumes r: "ring_ok s H" and l: "lock_ok s H owner" and c: "cons s i = CClear item" and q: "q = ring_of s"
  shows "race_inv (s\<lparr>ring_of := q\<lparr>slots := (slots q)[qhead q := None]\<rparr>,
    cons := (cons s)(i := CUnlock item)\<rparr>)"
proof (rule race_invI)
  let ?n = "length (slots q)" and ?P = "length (pushed s)"
  have i: "i = owner" using lock_owner [OF l] c by (simp add: holds_lock_def)
  have b: "2 \<le> ?n" "qhead q = H mod ?n" "qtail q = Suc ?P mod ?n" "H \<le> ?P" "Suc ?P \<le> H + ?n"
    using r by (simp_all add: ring_ok_def Let_def q)
  have hn: "qhead q < ?n" unfolding b(2) using b(1) by (rule index_less)
  have apart: "qhead q \<noteq> j mod ?n" if "H < j" "j < H + ?n" for j
    unfolding b(2) using that by (intro mod_apart) simp_all
  show "ring_ok (s\<lparr>ring_of := q\<lparr>slots := (slots q)[qhead q := None]\<rparr>,
      cons := (cons s)(i := CUnlock item)\<rparr>) H"
    using r b apart by (cases "prod s") (auto simp: ring_ok_def Let_def q)
  show "lock_ok (s\<lparr>ring_of := q\<lparr>slots := (slots q)[qhead q := None]\<rparr>,
      cons := (cons s)(i := CUnlock item)\<rparr>) H i"
    using l c i hn by (auto simp: lock_ok_def Let_def holds_lock_def q)
qed

lemma next_head:
  assumes "ring_ok s H"
  shows "next_slot (ring_of s) (qhead (ring_of s)) = Suc H mod length (slots (ring_of s))"
proof -
  have h: "qhead (ring_of s) = H mod length (slots (ring_of s))" "2 \<le> length (slots (ring_of s))"
    using assms by (simp_all add: ring_ok_def Let_def)
  have "qhead (ring_of s) < length (slots (ring_of s))"
    unfolding h(1) by (rule index_less [OF h(2)])
  then show ?thesis by (simp add: next_slot_mod) (simp add: h(1) mod_Suc_eq)
qed

lemma race_inv_step:
  assumes "step s t" and "race_inv s"
  shows "race_inv t"
proof -
  from assms(2) obtain H owner where r: "ring_ok s H" and l: "lock_ok s H owner"
    by (auto simp: race_inv_def)
  from assms(1) show ?thesis
  proof cases
    case (push_call x)
    show ?thesis by (rule race_invI [of _ H owner])
      (use r l push_call in \<open>auto simp: ring_ok_def lock_ok_def Let_def\<close>)
  next
    case (push_go x)
    then have "Suc (length (pushed s)) \<noteq> H + length (slots (ring_of s))"
      using r by (auto simp: ring_ok_def Let_def)
    then show ?thesis
      by (intro race_invI [of _ H owner]) (use r l push_go in \<open>auto simp: ring_ok_def lock_ok_def Let_def\<close>)
  next
    case (push_store x q)
    with push_store_inv [OF r l] show ?thesis by simp
  next
    case (push_tail x q)
    with push_tail_inv [OF r l] show ?thesis by simp
  next
    case push_notify
    show ?thesis by (rule race_invI [of _ H owner])
      (use r l push_notify in \<open>auto simp: ring_ok_def lock_ok_def Let_def\<close>)
  next
    case (pop_call i)
    show ?thesis by (rule race_invI [of _ H owner])
      (use r l pop_call in \<open>auto simp: ring_ok_def lock_ok_def Let_def holds_lock_def\<close>)
  next
    case (pop_locked i)
    show ?thesis by (rule race_invI [of _ H i])
      (use r l pop_locked in \<open>auto simp: ring_ok_def lock_ok_def Let_def holds_lock_def\<close>)
  next
    case (pop_head i next')
    with pop_head_inv [OF r l] show ?thesis by simp
  next
    case (pop_clear i item q)
    with pop_clear_inv [OF r l] show ?thesis by simp
  next
    case (listen pipe)
    show ?thesis by (rule race_invI [of _ H owner])
      (use r l listen in \<open>auto simp: ring_ok_def lock_ok_def Let_def queue_listen_def split: option.splits\<close>)
  next
    case release
    show ?thesis by (rule race_invI [of _ H owner])
      (use r l release in \<open>auto simp: ring_ok_def lock_ok_def Let_def queue_release_def\<close>)
  next
    case (pop_found i x)
    have i: "i = owner" using lock_owner [OF l] pop_found by (simp add: holds_lock_def)
    with l pop_found show ?thesis by (simp add: lock_ok_def Let_def)
  next
    case (pop_missing i cnt)
    have i: "i = owner" using lock_owner [OF l] pop_missing by (simp add: holds_lock_def)
    have "next_slot (ring_of s) (qhead (ring_of s)) = Suc H mod length (slots (ring_of s))"
      by (rule next_head [OF r])
    then show ?thesis
      by (intro race_invI [of _ H i])
        (use r l pop_missing i in \<open>auto simp: ring_ok_def lock_ok_def Let_def holds_lock_def\<close>)
  next
    case (pop_wait i next' cnt)
    have i: "i = owner" using lock_owner [OF l] pop_wait by (simp add: holds_lock_def)
    show ?thesis
      by (intro race_invI [of _ H i])
        (use r l pop_wait i in \<open>auto simp: ring_ok_def lock_ok_def Let_def holds_lock_def\<close>)
  next
    case (pop_timeout i next' cnt)
    have i: "i = owner" using lock_owner [OF l] pop_timeout by (simp add: holds_lock_def)
    show ?thesis
      by (intro race_invI [of _ H i])
        (use r l pop_timeout i in \<open>auto simp: ring_ok_def lock_ok_def Let_def holds_lock_def\<close>)
  next
    case (pop_ready i next' cnt)
    have i: "i = owner" using lock_owner [OF l] pop_ready by (simp add: holds_lock_def)
    have "H < length (pushed s)"
      using r l pop_ready i by (auto simp: ring_ok_def lock_ok_def Let_def le_less)
    then show ?thesis
      by (intro race_invI [of _ H i])
        (use r l pop_ready i in \<open>auto simp: ring_ok_def lock_ok_def Let_def holds_lock_def\<close>)
  next
    case (pop_take i item)
    have i: "i = owner" using lock_owner [OF l] pop_take by (simp add: holds_lock_def)
    have "take (H - 1) (pushed s) @ [pushed s ! (H - 1)] = take H (pushed s)" if "0 < H"
    proof -
      have "H - 1 < length (pushed s)" using that r by (auto simp: ring_ok_def Let_def)
      from take_Suc_conv_app_nth [OF this] that show ?thesis by simp
    qed
    then show ?thesis
      by (intro race_invI [of _ H i])
        (use r l pop_take i in \<open>auto simp: ring_ok_def lock_ok_def Let_def holds_lock_def\<close>)
  next
    case (pop_unlock i item)
    have i: "i = owner" using lock_owner [OF l] pop_unlock by (simp add: holds_lock_def)
    show ?thesis
      by (intro race_invI [of _ H i])
        (use r l pop_unlock i in \<open>auto simp: ring_ok_def lock_ok_def Let_def holds_lock_def\<close>)
  qed (use assms(2) in simp_all)
qed

lemma reachable_inv: "reachable n s \<Longrightarrow> race_inv s"
  by (induction rule: reachable.induct) (auto intro: race_inv_init race_inv_step)

section \<open>Progress\<close>

text \<open>\<open>delivers s t\<close>: the threads can go from \<open>s\<close> to \<open>t\<close>, where the oldest item was popped.\<close>

definition delivers :: "'a race \<Rightarrow> 'a race \<Rightarrow> bool" where
  "delivers s t \<longleftrightarrow> step\<^sup>*\<^sup>* s t \<and> popped t = popped s @ [pushed s ! length (popped s)]"

definition pending :: "'a race \<Rightarrow> bool" where
  "pending s \<longleftrightarrow> race_inv s \<and> length (popped s) < length (pushed s)"

lemma delivers_step:
  assumes "pending s" and "step s u" and "popped u = popped s" and "pushed u = pushed s"
    and "pending u \<Longrightarrow> \<exists>t. delivers u t"
  shows "\<exists>t. delivers s t"
proof -
  have "pending u" using assms by (auto simp: pending_def intro: race_inv_step)
  with assms show ?thesis by (auto simp: delivers_def intro: converse_rtranclp_into_rtranclp)
qed

lemma pending_owner:
  "pending s \<Longrightarrow> holds_lock (cons s i) \<Longrightarrow> \<exists>H. ring_ok s H \<and> lock_ok s H i"
  using lock_owner by (fastforce simp: pending_def race_inv_def)

lemma deliver_take:
  assumes "pending s" and c: "cons s i = CTake"
  shows "\<exists>t. delivers s t"
proof -
  obtain H where r: "ring_ok s H" and l: "lock_ok s H i"
    using pending_owner [OF assms(1), of i] c by (auto simp: holds_lock_def)
  then have h: "popped s = take (H - 1) (pushed s)" "0 < H" "H \<le> length (pushed s)"
    "slots (ring_of s) ! qhead (ring_of s) = Some (pushed s ! (H - 1))"
    using c by (auto simp: lock_ok_def ring_ok_def Let_def)
  then have "length (popped s) = H - 1" by simp
  with h pop_take [OF c refl] show ?thesis by (auto simp: delivers_def)
qed

lemma deliver_head: "pending s \<Longrightarrow> cons s i = CHead next \<Longrightarrow> \<exists>t. delivers s t"
  by (erule delivers_step, rule pop_head [where i = i]) (auto intro: deliver_take [where i = i])

lemma deliver_loop:
  assumes "pending s" and c: "cons s i = CLoop next cnt"
  shows "\<exists>t. delivers s t"
proof -
  obtain H where r: "ring_ok s H" and l: "lock_ok s H i"
    using pending_owner [OF assms(1), of i] c by (auto simp: holds_lock_def)
  then have "H < length (pushed s)" "next = Suc H mod length (slots (ring_of s))"
    using c assms(1) by (auto simp: lock_ok_def ring_ok_def Let_def pending_def)
  then have "qtail (ring_of s) \<noteq> next"
    using r mod_apart [of "Suc H" "Suc (length (pushed s))" "length (slots (ring_of s))"]
    by (auto simp: ring_ok_def Let_def)
  show ?thesis
    by (rule delivers_step [OF assms(1) pop_ready [OF c \<open>qtail (ring_of s) \<noteq> next\<close>]])
      (auto intro: deliver_head [where i = i])
qed

lemma deliver_read:
  assumes "pending s" and c: "cons s i = CRead"
  shows "\<exists>t. delivers s t"
proof -
  obtain H where "ring_ok s H" and l: "lock_ok s H i"
    using pending_owner [OF assms(1), of i] c by (auto simp: holds_lock_def)
  then have "slots (ring_of s) ! qhead (ring_of s) = None" using c by (auto simp: lock_ok_def Let_def)
  then show ?thesis
    by (intro delivers_step [OF assms(1) pop_missing [OF c]]) (auto intro: deliver_loop [where i = i])
qed

lemma deliver_spin:
  "pending s \<Longrightarrow> cons s i = CSpin \<Longrightarrow> \<not> pop_lock (ring_of s) \<Longrightarrow> \<exists>t. delivers s t"
  by (erule delivers_step, rule pop_locked [where i = i]) (auto intro: deliver_read [where i = i])

lemma deliver_idle:
  "pending s \<Longrightarrow> cons s i = CIdle \<Longrightarrow> \<not> pop_lock (ring_of s) \<Longrightarrow> \<exists>t. delivers s t"
  by (erule delivers_step, rule pop_call [where i = i]) (auto intro: deliver_spin [where i = i])

lemma deliver_unlock: "pending s \<Longrightarrow> cons s i = CUnlock item \<Longrightarrow> \<exists>t. delivers s t"
  by (erule delivers_step, rule pop_unlock [where i = i]) (auto intro: deliver_idle [where i = i])

lemma deliver_clear: "pending s \<Longrightarrow> cons s i = CClear item \<Longrightarrow> \<exists>t. delivers s t"
  by (erule delivers_step, rule pop_clear [where i = i, OF _ refl]) (auto intro: deliver_unlock [where i = i])

lemmas deliver = deliver_take deliver_head deliver_loop deliver_read deliver_spin deliver_idle
  deliver_unlock deliver_clear

section \<open>Properties\<close>

text \<open>
  C5: however the steps of one pushing and any number of popping threads interleave, what was
  popped is a prefix of what was pushed: no item is lost, duplicated or overtaken, and the ring
  never holds more items than it has slots.
\<close>

theorem race_fifo:
  assumes "reachable n s"
  shows "\<exists>rest. pushed s = popped s @ rest \<and> length rest \<le> length (slots (ring_of s))"
proof -
  from reachable_inv [OF assms] obtain H owner where r: "ring_ok s H" and l: "lock_ok s H owner"
    by (auto simp: race_inv_def)
  then obtain k where k: "popped s = take k (pushed s)" "length (pushed s) \<le> k + length (slots (ring_of s))"
    by (cases "cons s owner") (auto simp: ring_ok_def lock_ok_def Let_def)
  then have "pushed s = popped s @ drop k (pushed s)" by simp
  with k(2) show ?thesis by (intro exI [of _ "drop k (pushed s)"]) simp
qed

text \<open>
  C17: at most one thread is inside the lock of \<open>queue_pop\<close>, and the flag is set exactly while one
  is.
\<close>

theorem race_mutex:
  assumes "reachable n s"
  shows "(pop_lock (ring_of s) \<longleftrightarrow> (\<exists>i. holds_lock (cons s i))) \<and>
    (holds_lock (cons s i) \<and> holds_lock (cons s j) \<longrightarrow> i = j)"
proof -
  from reachable_inv [OF assms] obtain H owner where l: "lock_ok s H owner" by (auto simp: race_inv_def)
  have "pop_lock (ring_of s) \<longleftrightarrow> holds_lock (cons s owner)" using l by (simp add: lock_ok_def Let_def)
  moreover have "k = owner" if "holds_lock (cons s k)" for k using l that by (rule lock_owner)
  ultimately show ?thesis by blast
qed

text \<open>
  C18: the queue never deadlocks with an item in it: from every state the threads can reach, they
  can go on to one where the oldest item that was not popped is popped next.
\<close>

theorem race_delivers:
  assumes "reachable n s" and "length (popped s) < length (pushed s)"
  shows "\<exists>t. step\<^sup>*\<^sup>* s t \<and> popped t = popped s @ [pushed s ! length (popped s)]"
proof -
  have p: "pending s" using assms by (simp add: pending_def reachable_inv)
  then obtain H owner where "lock_ok s H owner" by (auto simp: pending_def race_inv_def)
  then have "pop_lock (ring_of s) \<longleftrightarrow> holds_lock (cons s owner)" by (simp add: lock_ok_def Let_def)
  then have "\<exists>t. delivers s t"
    by (cases "cons s owner") (auto simp: holds_lock_def intro: deliver [OF p])
  then show ?thesis by (simp add: delivers_def)
qed

text \<open>A run: an item is pushed on a new queue, and thread 0 pops it.\<close>

definition one_pushed :: "nat race" where
  "one_pushed = (race_init 4)\<lparr>ring_of := (queue_init 4)\<lparr>slots := [None, Some 7, None, None], qtail := 2\<rparr>,
     prod := PNotify, pushed := [7]\<rparr>"

lemma queue_init_4: "queue_init 4 =
  \<lparr>slots = [None, None, None, None], qhead = 0, qtail = 1, pop_lock = False, wait_state = 0,
   rsock = 0, wsock = 0, piped = 0\<rparr>"
  by (simp add: queue_init_def eval_nat_numeral)

lemma one_pushed_reachable: "reachable 4 one_pushed"
proof -
  let ?q = "queue_init 4 :: nat queue"
  have "reachable 4 (race_init 4 :: nat race)" by (rule start)
  then have "reachable 4 ((race_init 4)\<lparr>prod := PWait (7 :: nat)\<rparr>)"
    by (rule move) (rule push_call, simp add: race_init_def)
  then have "reachable 4 ((race_init 4)\<lparr>prod := PStore (7 :: nat)\<rparr>)"
    by (rule move) (use push_go [of "(race_init 4)\<lparr>prod := PWait (7 :: nat)\<rparr>" 7] in
      \<open>simp add: race_init_def queue_init_4\<close>)
  then have "reachable 4 ((race_init 4)\<lparr>ring_of := ?q\<lparr>slots := [None, Some 7, None, None]\<rparr>,
      prod := PTail (7 :: nat)\<rparr>)"
    by (rule move) (use push_store [of "(race_init 4)\<lparr>prod := PStore (7 :: nat)\<rparr>" 7 ?q] in
      \<open>simp add: race_init_def queue_init_4\<close>)
  then show ?thesis unfolding one_pushed_def
    by (rule move) (use push_tail [of "(race_init 4)\<lparr>ring_of := ?q\<lparr>slots := [None, Some 7, None, None]\<rparr>,
      prod := PTail (7 :: nat)\<rparr>" 7 "?q\<lparr>slots := [None, Some 7, None, None]\<rparr>"] in
      \<open>simp add: race_init_def queue_init_4 next_slot_def numeral_2_eq_2\<close>)
qed

theorem race_fifo_witness:
  "\<exists>rest. pushed one_pushed = popped one_pushed @ rest \<and> length rest \<le> length (slots (ring_of one_pushed))"
  by (rule race_fifo [OF one_pushed_reachable])

theorem race_mutex_witness: "\<not> pop_lock (ring_of one_pushed) \<and> \<not> holds_lock (cons one_pushed 0)"
  using race_mutex [OF one_pushed_reachable, of 0 0]
  by (simp add: one_pushed_def race_init_def queue_init_4)

theorem race_delivers_witness: "\<exists>t. step\<^sup>*\<^sup>* one_pushed t \<and> popped t = [7]"
proof -
  have "popped one_pushed = []" "pushed one_pushed = [7]"
    by (simp_all add: one_pushed_def race_init_def)
  then show ?thesis using race_delivers [OF one_pushed_reachable] by simp
qed

end
