(* ===== verification/OpoCodec.thy ===== *)
theory OpoCodec imports Uuid CTime begin

text \<open>
  The helpers of the JSON conversion in \<^verbatim>\<open>opo.c\<close>: its own copies of the integer, string and UUID
  codec, the recognition of a UUID and of a time in a string, and the byte counts of numbers.
\<close>

section \<open>Copies of the codec\<close>

definition read_uint16_opo :: "mem \<Rightarrow> ptr \<Rightarrow> (ptr \<times> uint16) option" where
  "read_uint16_opo m b = do {
     x \<leftarrow> rd m b;
     let num = (ucast x :: uint16);
     y \<leftarrow> rd m (b + 1);
     let num = push_bit 8 num OR ucast y;
     Some (b + 2, num)
   }"

definition read_uint32_opo :: "mem \<Rightarrow> ptr \<Rightarrow> (ptr \<times> uint32) option" where
  "read_uint32_opo m b = read_loop m b 4 0"

definition read_uint64_opo :: "mem \<Rightarrow> ptr \<Rightarrow> (ptr \<times> uint64) option" where
  "read_uint64_opo m b = read_loop m b 8 0"

definition fill_uint16_opo :: "mem \<Rightarrow> ptr \<Rightarrow> uint16 \<Rightarrow> (mem \<times> ptr) option" where
  "fill_uint16_opo m b n = put m b [ucast (drop_bit 8 n), ucast (0x00ff AND n)]"

definition fill_uint32_opo :: "mem \<Rightarrow> ptr \<Rightarrow> uint32 \<Rightarrow> (mem \<times> ptr) option" where
  "fill_uint32_opo m b n = put m b
     [ucast (drop_bit 24 n),
      ucast (0x000000ff AND drop_bit 16 n),
      ucast (0x000000ff AND drop_bit 8 n),
      ucast (0x000000ff AND n)]"

definition fill_uint64_opo :: "mem \<Rightarrow> ptr \<Rightarrow> uint64 \<Rightarrow> (mem \<times> ptr) option" where
  "fill_uint64_opo m b n = put m b
     [ucast (drop_bit 56 n),
      ucast (0x00000000000000ff AND drop_bit 48 n),
      ucast (0x00000000000000ff AND drop_bit 40 n),
      ucast (0x00000000000000ff AND drop_bit 32 n),
      ucast (0x00000000000000ff AND drop_bit 24 n),
      ucast (0x00000000000000ff AND drop_bit 16 n),
      ucast (0x00000000000000ff AND drop_bit 8 n),
      ucast (0x00000000000000ff AND n)]"

definition fill_str_opo :: "mem \<Rightarrow> ptr \<Rightarrow> cstr \<Rightarrow> nat \<Rightarrow> (mem \<times> ptr) option" where
  "fill_str_opo m w str len = do {
     (m, w) \<leftarrow>
       (if len \<le> 0x000000ff then put m w [tag VAL_STR1, of_nat len]
        else if len \<le> 0x0000ffff then do {
          (m, w) \<leftarrow> put m w [tag VAL_STR2];
          fill_uint16_opo m w (of_nat len)
        }
        else do {
          (m, w) \<leftarrow> put m w [tag VAL_STR4];
          fill_uint32_opo m w (of_nat len)
        });
     bs \<leftarrow> rd_range str 0 len;
     (m, w) \<leftarrow> put m w bs;
     put m w [0]
   }"

definition fill_key_opo :: "mem \<Rightarrow> ptr \<Rightarrow> cstr \<Rightarrow> nat \<Rightarrow> (mem \<times> ptr) option" where
  "fill_key_opo m w str len = do {
     (m, w) \<leftarrow>
       (if len \<le> 0x000000ff then put m w [tag VAL_KEY1, of_nat len]
        else do {
          (m, w) \<leftarrow> put m w [tag VAL_KEY2];
          fill_uint16_opo m w (of_nat len)
        });
     bs \<leftarrow> rd_range str 0 len;
     (m, w) \<leftarrow> put m w bs;
     put m w [0]
   }"

fun fill_uuid_loop_opo ::
    "mem \<Rightarrow> ptr \<Rightarrow> cstr \<Rightarrow> ptr \<Rightarrow> nat \<Rightarrow> nat \<Rightarrow> byte \<Rightarrow> (mem \<times> ptr) option" where
  "fill_uuid_loop_opo m w str s 0 digits b = Some (m, w)"
| "fill_uuid_loop_opo m w str s (Suc n) digits b = do {
     c \<leftarrow> rd str s;
     if 0x30 \<le> c \<and> c \<le> 0x39 \<or> 0x61 \<le> c \<and> c \<le> 0x66 then
       let b = (if 0x30 \<le> c \<and> c \<le> 0x39 then push_bit 4 b OR (c - 0x30)
                else push_bit 4 b OR (c - 0x61 + 10))
       in if digits = 0 then fill_uuid_loop_opo m w str (s + 1) n (digits + 1) b
          else do {
            (m, w) \<leftarrow> put m w [b];
            fill_uuid_loop_opo m w str (s + 1) n 0 0
          }
     else fill_uuid_loop_opo m w str (s + 1) n digits b
   }"

definition fill_uuid_opo :: "mem \<Rightarrow> ptr \<Rightarrow> cstr \<Rightarrow> (mem \<times> ptr) option" where
  "fill_uuid_opo m w str = do {
     (m, w) \<leftarrow> put m w [tag VAL_UUID];
     fill_uuid_loop_opo m w str 0 UUID_STR_LEN 0 0
   }"

section \<open>UUIDs\<close>

text \<open>The table gives the class of a character: a digit \<open>h\<close>, a dash, or neither (a dot).\<close>

definition uuid_char_map :: "byte list" where
  "uuid_char_map =
     replicate 32 0x2E @
     replicate 13 0x2E @ [0x2D] @ replicate 2 0x2E @ replicate 10 0x68 @ replicate 6 0x2E @
     replicate 32 0x2E @
     [0x2E] @ replicate 6 0x68 @ replicate 25 0x2E @
     replicate 32 0x2E @
     replicate 32 0x2E @
     replicate 32 0x2E @
     replicate 32 0x2E"

definition uuid_map :: "byte list" where
  "uuid_map = replicate 8 0x68 @ [0x2D] @ replicate 4 0x68 @ [0x2D] @ replicate 4 0x68 @ [0x2D] @
     replicate 4 0x68 @ [0x2D] @ replicate 12 0x68"

text \<open>\<open>i\<close> counts \<open>str\<close> and \<open>u\<close> on, with \<open>n\<close> characters to go.\<close>

fun detect_uuid_loop :: "cstr \<Rightarrow> nat \<Rightarrow> nat \<Rightarrow> bool option" where
  "detect_uuid_loop str i 0 = Some True"
| "detect_uuid_loop str i (Suc n) = do {
     u \<leftarrow> rd uuid_map i;
     c \<leftarrow> rd str i;
     if u \<noteq> uuid_char_map ! unat c then Some False else detect_uuid_loop str (i + 1) n
   }"

definition detect_uuid :: "cstr \<Rightarrow> nat \<Rightarrow> bool option" where
  "detect_uuid str len =
     (if UUID_STR_LEN = len then detect_uuid_loop str 0 len else Some False)"

section \<open>Times\<close>

definition NO_TIME :: uint64 where "NO_TIME = 0xffffffffffffffff"
definition TIME_STR_LEN :: nat where "TIME_STR_LEN = 30"

text \<open>The inner option is the returned pointer, with \<open>*vp\<close>, or NULL.\<close>

fun read_num_loop :: "cstr \<Rightarrow> ptr \<Rightarrow> nat \<Rightarrow> uint32 \<Rightarrow> (ptr \<times> int) option option" where
  "read_num_loop str s 0 v = Some (Some (s, sint v))"
| "read_num_loop str s (Suc len) v = do {
     c \<leftarrow> rd str s;
     if 0x30 \<le> c \<and> c \<le> 0x39 then read_num_loop str (s + 1) len (v * 10 + ucast c - 0x30)
     else Some None
   }"

definition read_num :: "cstr \<Rightarrow> ptr \<Rightarrow> nat \<Rightarrow> (ptr \<times> int) option option" where
  "read_num str s len = read_num_loop str s len 0"

text \<open>\<open>if (NULL == (s = read_num(s, len, &v))) return NO_TIME;\<close> and what follows\<close>

definition num_then ::
    "cstr \<Rightarrow> ptr \<Rightarrow> nat \<Rightarrow> (ptr \<Rightarrow> int \<Rightarrow> uint64 option) \<Rightarrow> uint64 option" where
  "num_then str s len f = do {
     r \<leftarrow> read_num str s len;
     case r of None \<Rightarrow> Some NO_TIME | Some (s, v) \<Rightarrow> f s v
   }"

text \<open>\<open>if (c != *s) return NO_TIME; s++;\<close> and what follows\<close>

definition char_then :: "byte \<Rightarrow> cstr \<Rightarrow> ptr \<Rightarrow> (ptr \<Rightarrow> uint64 option) \<Rightarrow> uint64 option" where
  "char_then c str s f = do { x \<leftarrow> rd str s; if c \<noteq> x then Some NO_TIME else f (s + 1) }"

fun nsecs_loop :: "cstr \<Rightarrow> ptr \<Rightarrow> nat \<Rightarrow> int64 \<Rightarrow> (ptr \<times> int64) option option" where
  "nsecs_loop str s 0 nsecs = Some (Some (s, nsecs))"
| "nsecs_loop str s (Suc i) nsecs = do {
     c \<leftarrow> rd str s;
     if 0x30 \<le> c \<and> c \<le> 0x39 then nsecs_loop str (s + 1) i (nsecs * 10 + ucast c - 0x30)
     else Some None
   }"

text \<open>The fields of \<open>tm\<close> are the variables of the same names.\<close>

definition time_parse :: "cstr \<Rightarrow> nat \<Rightarrow> uint64 option" where
  "time_parse str len =
     num_then str 0 4 (\<lambda>s year.
       let year = year - 1900 in
       char_then 0x2D str s (\<lambda>s. num_then str s 2 (\<lambda>s mon.
         let mon = mon - 1 in
         char_then 0x2D str s (\<lambda>s. num_then str s 2 (\<lambda>s mday.
         char_then 0x54 str s (\<lambda>s. num_then str s 2 (\<lambda>s hour.
         char_then 0x3A str s (\<lambda>s. num_then str s 2 (\<lambda>s min.
         char_then 0x3A str s (\<lambda>s. num_then str s 2 (\<lambda>s sec.
         char_then 0x2E str s (\<lambda>s. do {
           r \<leftarrow> nsecs_loop str s 9 0;
           case r of
             None \<Rightarrow> Some NO_TIME
           | Some (s, nsecs) \<Rightarrow> do {
               c \<leftarrow> rd str s;
               if 0x5A \<noteq> c then Some NO_TIME
               else
                 let secs = timegm \<lparr>tm_year = year, tm_mon = mon, tm_mday = mday,
                       tm_hour = hour, tm_min = min, tm_sec = sec\<rparr>
                 in Some (word_of_int secs * 1000000000 + nsecs)
             }
         }))))))))))))"

section \<open>Byte counts\<close>

definition isize_bytes :: "int64 \<Rightarrow> nat" where
  "isize_bytes n =
     (if - 128 \<le> sint n \<and> sint n \<le> 127 then 1
      else if - 32768 \<le> sint n \<and> sint n \<le> 32767 then 2
      else if - 2147483648 \<le> sint n \<and> sint n \<le> 2147483647 then 4
      else 8)"

definition size_bytes :: "uint64 \<Rightarrow> nat" where
  "size_bytes n =
     (if n \<le> 0x00000000000000ff then 1
      else if n \<le> 0x000000000000ffff then 2
      else if n \<le> 0x00000000ffffffff then 4
      else 8)"

section \<open>The copies are the originals\<close>

lemma codec_copies:
  "read_uint16_opo = read_uint16" "read_uint32_opo = read_uint32" "read_uint64_opo = read_uint64"
  "fill_uint16_opo = fill_uint16" "fill_uint32_opo = fill_uint32" "fill_uint64_opo = fill_uint64"
  by (intro ext; simp add: read_uint16_opo_def read_uint16_def read_uint32_opo_def read_uint32_def
      read_uint64_opo_def read_uint64_def fill_uint16_opo_def fill_uint16_def fill_uint32_opo_def
      fill_uint32_def fill_uint64_opo_def fill_uint64_def)+

lemma text_copies: "fill_str_opo = fill_str" "fill_key_opo = fill_key"
  by (intro ext; simp add: fill_str_opo_def fill_str_def fill_key_opo_def fill_key_def codec_copies)+

lemma fill_uuid_loop_copy: "fill_uuid_loop_opo m w str s n d b = fill_uuid_loop m w str s n d b"
proof (induction n arbitrary: m w s d b)
  case (Suc n)
  show ?case
  proof (cases "rd str s")
    case (Some c)
    then show ?thesis
      by (cases "hex_digit c") (auto simp: hex_digit_def Let_def Suc.IH split: if_splits)
  qed simp
qed simp

lemma fill_uuid_copy: "fill_uuid_opo = fill_uuid"
  by (intro ext) (simp add: fill_uuid_opo_def fill_uuid_def fill_uuid_loop_copy)

section \<open>Recognising a UUID\<close>

lemma uuid_char_map_table:
  "uuid_char_map = map (\<lambda>n. if 48 \<le> n \<and> n \<le> 57 \<or> 97 \<le> n \<and> n \<le> 102 then 0x68
     else if n = 45 then 0x2D else 0x2E) [0..<256]"
  by code_simp

lemma uuid_char_map_class:
  "uuid_char_map ! unat c =
     (if hex_digit c \<noteq> None then 0x68 else if c = (0x2D :: byte) then 0x2D else 0x2E)"
proof -
  have "unat c < 256" using unsigned_less [of c] by simp
  moreover have "(c = 0x2D) = (unat c = 45)" by (simp add: word_unat_eq_iff)
  ultimately show ?thesis
    unfolding uuid_char_map_table by (auto simp: hex_digit_def word_le_nat_alt)
qed

lemma detect_uuid_loop_iff:
  "i + n = 36 \<Longrightarrow> 36 \<le> length str \<Longrightarrow>
   detect_uuid_loop str i n = Some (map (\<lambda>c. uuid_char_map ! unat c) (take n (drop i str)) = drop i uuid_map)"
proof (induction n arbitrary: i)
  case 0
  then show ?case by (simp add: uuid_map_def)
next
  case (Suc n)
  have len: "length uuid_map = 36" by (simp add: uuid_map_def)
  have i: "i < length str" "i < length uuid_map" using Suc.prems len by simp_all
  then have "drop i str = str ! i # drop (Suc i) str" "drop i uuid_map = uuid_map ! i # drop (Suc i) uuid_map"
    by (simp_all add: Cons_nth_drop_Suc)
  with Suc i show ?case by (auto simp: rd_def)
qed

lemma hex_text:
  "\<forall>c \<in> set cs. hex_digit c \<noteq> None \<Longrightarrow>
   \<exists>n < 16 ^ length cs. cs = digits_exact 16 (length cs) n"
proof (induction cs rule: rev_induct)
  case (snoc c cs)
  then obtain n where n: "n < 16 ^ length cs" "cs = digits_exact 16 (length cs) n" by auto
  from snoc.prems have "hex_digit c \<noteq> None" by simp
  then have "\<exists>d < 16. c = digit_char d"
  proof (cases "0x30 \<le> c \<and> c \<le> 0x39")
    case True
    then have "48 \<le> unat c" "unat c \<le> 57" by (simp_all add: word_le_nat_alt)
    moreover from this have "c = digit_char (unat c - 48)"
      by (simp add: digit_char_def word_unat_eq_iff unat_of_nat unat_word_ariths)
    ultimately show ?thesis by (intro exI [of _ "unat c - 48"]) simp
  next
    case False
    with \<open>hex_digit c \<noteq> None\<close> have "0x61 \<le> c" "c \<le> 0x66" by (auto simp: hex_digit_def split: if_splits)
    then have "97 \<le> unat c" "unat c \<le> 102" by (simp_all add: word_le_nat_alt)
    moreover from this have "c = digit_char (unat c - 87)"
      by (simp add: digit_char_def word_unat_eq_iff unat_of_nat unat_word_ariths)
    ultimately show ?thesis by (intro exI [of _ "unat c - 87"]) simp
  qed
  then obtain d where d: "d < 16" "c = digit_char d" by blast
  have "digits_exact 16 (Suc (length cs)) (n * 16 + d) = cs @ [c]"
    using d n by (simp only: digits_exact_snoc) simp
  moreover have "n * 16 + d < 16 ^ Suc (length cs)" using n(1) d(1) by simp
  ultimately show ?case by (intro exI [of _ "n * 16 + d"]) (simp del: digits_exact.simps)
qed simp

lemma unat_mask:
  "unat ((x :: uint64) AND 0xFFFF) = unat x mod 2 ^ 16"
  "unat ((x :: uint64) AND 0x0000FFFFFFFFFFFF) = unat x mod 2 ^ 48"
  by (simp_all only: mask_take_bit unsigned_take_bit_eq) (simp_all only: take_bit_eq_mod)

lemma word_of_parts:
  assumes "a < 2 ^ 32" and "b < 2 ^ 16" and "c < 2 ^ 16"
  shows "\<exists>x :: uint64. unat (drop_bit 32 x) = a \<and> unat (drop_bit 16 x AND 0xFFFF) = b \<and> unat (x AND 0xFFFF) = c"
proof -
  define n where "n = (a * 2 ^ 16 + b) * 2 ^ 16 + c"
  have n: "n < 2 ^ 64" using assms by (simp add: n_def)
  have n': "n div 2 ^ 16 = a * 2 ^ 16 + b" "n mod 2 ^ 16 = c"
    unfolding n_def using assms(3) by (simp_all only: div_mult_self3 mod_mult_self3) simp_all
  have "n div 2 ^ 32 = n div 2 ^ 16 div 2 ^ 16" by (simp add: div_mult2_eq [symmetric])
  then have d: "n div 2 ^ 32 = a" using n'(1) assms(2) by simp
  have u: "unat (of_nat n :: uint64) = n" using n by (simp add: unat_of_nat_len)
  have "unat (drop_bit 16 (of_nat n :: uint64) AND 0xFFFF) = b"
    using n'(1) assms(2) by (simp only: unat_mask unat_drop_bit u) simp
  with u d n'(2) show ?thesis
    by (intro exI [of _ "of_nat n"]) (simp only: unat_mask unat_drop_bit)
qed

lemma word_of_parts2:
  assumes "a < 2 ^ 16" and "b < 2 ^ 48"
  shows "\<exists>x :: uint64. unat (drop_bit 48 x) = a \<and> unat (x AND 0x0000FFFFFFFFFFFF) = b"
proof -
  define n where "n = a * 2 ^ 48 + b"
  have n: "n < 2 ^ 64" "n div 2 ^ 48 = a" "n mod 2 ^ 48 = b" using assms by (simp_all add: n_def)
  have u: "unat (of_nat n :: uint64) = n" using n(1) by (simp add: unat_of_nat_len)
  with n(2,3) show ?thesis
    by (intro exI [of _ "of_nat n"]) (simp only: unat_mask unat_drop_bit)
qed

definition char_class :: "byte \<Rightarrow> byte" where
  "char_class c = uuid_char_map ! unat c"

lemma char_class:
  "char_class c = 0x68 \<longleftrightarrow> hex_digit c \<noteq> None" "char_class c = 0x2D \<longleftrightarrow> c = 0x2D"
  by (auto simp: char_class_def uuid_char_map_class hex_digit_def)

lemma map_class_hex:
  "map char_class cs = replicate n 0x68 \<longleftrightarrow> length cs = n \<and> (\<forall>c \<in> set cs. hex_digit c \<noteq> None)"
proof -
  have "map char_class cs = replicate n 0x68 \<longleftrightarrow> length cs = n \<and> (\<forall>c \<in> set cs. char_class c = 0x68)"
  proof (induction cs arbitrary: n)
    case (Cons c cs)
    then show ?case by (cases n) auto
  qed auto
  then show ?thesis by (simp only: char_class)
qed

lemma map_class_append:
  "map char_class s = xs @ 0x2D # ys \<longleftrightarrow>
   (\<exists>a b. s = a @ 0x2D # b \<and> map char_class a = xs \<and> map char_class b = ys)"
proof
  assume "map char_class s = xs @ 0x2D # ys"
  then obtain a b' where s: "s = a @ b'" "map char_class a = xs" "map char_class b' = 0x2D # ys"
    by (auto simp: map_eq_append_conv)
  then obtain b where "b' = 0x2D # b" "map char_class b = ys"
    by (auto simp: map_eq_Cons_conv char_class)
  with s show "\<exists>a b. s = a @ 0x2D # b \<and> map char_class a = xs \<and> map char_class b = ys" by blast
next
  have "char_class 0x2D = 0x2D" by (simp only: char_class)
  moreover assume "\<exists>a b. s = a @ 0x2D # b \<and> map char_class a = xs \<and> map char_class b = ys"
  ultimately show "map char_class s = xs @ 0x2D # ys" by auto
qed

lemma hex_digits_exact: "\<forall>c \<in> set (digits_exact 16 k n). hex_digit c \<noteq> None"
  by (induction k) (simp_all add: hex_digit_char)

text \<open>A string is recognised exactly when it starts with the text of a UUID.\<close>

lemma detect_uuid_text:
  assumes "length s = 36"
  shows "detect_uuid (s @ t) 36 = Some (\<exists>hi lo. s = uuid_text hi lo)"
proof -
  have loop: "detect_uuid (s @ t) 36 = Some (map char_class s = uuid_map)"
    using assms detect_uuid_loop_iff [of 0 36 "s @ t"] by (simp add: detect_uuid_def UUID_STR_LEN_def char_class_def [abs_def])
  have "map char_class s = uuid_map \<longleftrightarrow> (\<exists>hi lo. s = uuid_text hi lo)"
  proof
    assume "map char_class s = uuid_map"
    then obtain a b c d e where s: "s = a @ [0x2D] @ b @ [0x2D] @ c @ [0x2D] @ d @ [0x2D] @ e"
      and l: "length a = 8" "length b = 4" "length c = 4" "length d = 4" "length e = 12"
      and h: "\<forall>x \<in> set (a @ b @ c @ d @ e). hex_digit x \<noteq> None"
      unfolding uuid_map_def append_Cons append_Nil map_class_append map_class_hex
      by (auto simp: ball_Un)
    have "\<exists>n < 16 ^ 8. a = digits_exact 16 8 n" "\<exists>n < 16 ^ 4. b = digits_exact 16 4 n"
      "\<exists>n < 16 ^ 4. c = digits_exact 16 4 n" "\<exists>n < 16 ^ 4. d = digits_exact 16 4 n"
      "\<exists>n < 16 ^ 12. e = digits_exact 16 12 n"
      using h unfolding set_append by (intro hex_text [of a, unfolded l] hex_text [of b, unfolded l] hex_text [of c, unfolded l]
        hex_text [of d, unfolded l] hex_text [of e, unfolded l], blast)+
    then obtain na nb nc nd ne where n: "a = digits_exact 16 8 na" "b = digits_exact 16 4 nb"
      "c = digits_exact 16 4 nc" "d = digits_exact 16 4 nd" "e = digits_exact 16 12 ne"
      and "na < 16 ^ 8" "nb < 16 ^ 4" "nc < 16 ^ 4" "nd < 16 ^ 4" "ne < 16 ^ 12" by blast
    then have bd: "na < 2 ^ 32" "nb < 2 ^ 16" "nc < 2 ^ 16" "nd < 2 ^ 16" "ne < 2 ^ 48" by simp_all
    from word_of_parts [OF bd(1-3)] word_of_parts2 [OF bd(4,5)] obtain hi lo :: uint64 where
      "unat (drop_bit 32 hi) = na" "unat (drop_bit 16 hi AND 0xFFFF) = nb" "unat (hi AND 0xFFFF) = nc"
      "unat (drop_bit 48 lo) = nd" "unat (lo AND 0x0000FFFFFFFFFFFF) = ne" by blast
    then have "s = uuid_text hi lo" by (simp only: uuid_text_exact s n)
    then show "\<exists>hi lo. s = uuid_text hi lo" by blast
  next
    assume "\<exists>hi lo. s = uuid_text hi lo"
    then obtain hi lo where "s = uuid_text hi lo" by blast
    moreover have "map char_class (digits_exact 16 k n) = replicate k 0x68" for k n
      unfolding map_class_hex using hex_digits_exact by simp
    ultimately show "map char_class s = uuid_map"
      by (simp only: uuid_text_exact map_append list.map uuid_map_def iffD2 [OF char_class(2) refl])
  qed
  with loop show ?thesis by simp
qed

section \<open>Reading a time\<close>

lemma digit_char_10:
  assumes "d < 10"
  shows "0x30 \<le> digit_char d" "digit_char d \<le> 0x39"
    "ucast (digit_char d) = (0x30 + of_nat d :: 'a::len word)"
proof -
  have u: "unat (digit_char d) = 48 + d"
    using assms by (simp add: digit_char_def unat_word_ariths unat_of_nat)
  show "0x30 \<le> digit_char d" "digit_char d \<le> 0x39" using u assms by (simp_all add: word_le_nat_alt)
  have "(ucast (digit_char d) :: 'a word) = of_nat (unat (digit_char d))" by simp
  then show "ucast (digit_char d) = (0x30 + of_nat d :: 'a word)" by (simp add: u)
qed

lemma mod_digit: "n mod 10 ^ Suc w = n div 10 ^ w mod 10 * 10 ^ w + n mod (10 ^ w :: nat)"
  by (metis add.commute mod_mult2_eq mult.commute power_Suc2)

lemma read_num_digits:
  "bytes_at s p (digits_exact 10 k n) \<Longrightarrow>
   read_num_loop s p k v = Some (Some (p + k, sint (v * 10 ^ k + of_nat (n mod 10 ^ k))))"
proof (induction k arbitrary: p v)
  case (Suc k)
  define d where "d = n div 10 ^ k mod 10"
  have d: "d < 10" by (simp add: d_def)
  have "(v * 10 + of_nat d) * 10 ^ k + of_nat (n mod 10 ^ k) =
      v * 10 ^ Suc k + of_nat (n mod 10 ^ Suc k)"
    unfolding mod_digit d_def [symmetric] by (simp add: algebra_simps)
  with Suc show ?case by (simp add: digit_char_10 [OF d] flip: d_def)
qed simp

lemma nsecs_digits:
  "bytes_at s p (digits_exact 10 k n) \<Longrightarrow>
   nsecs_loop s p k v = Some (Some (p + k, v * 10 ^ k + of_nat (n mod 10 ^ k)))"
proof (induction k arbitrary: p v)
  case (Suc k)
  define d where "d = n div 10 ^ k mod 10"
  have d: "d < 10" by (simp add: d_def)
  have "(v * 10 + of_nat d) * 10 ^ k + of_nat (n mod 10 ^ k) =
      v * 10 ^ Suc k + of_nat (n mod 10 ^ Suc k)"
    unfolding mod_digit d_def [symmetric] by (simp add: algebra_simps)
  with Suc show ?case by (simp add: digit_char_10 [OF d] flip: d_def)
qed simp

lemma num_then_digits:
  assumes "bytes_at s p (digits_exact 10 k (nat i))" and "0 \<le> i" and "i < 10 ^ k" and "k \<le> 9"
  shows "num_then s p k f = f (p + k) i"
proof -
  have k: "nat i < 10 ^ k" using assms(2,3) by (simp add: nat_less_iff)
  moreover have "(10 :: nat) ^ k \<le> 10 ^ 9" using assms(4) by (intro power_increasing) simp_all
  ultimately have "nat i < 10 ^ 9" by (rule less_le_trans)
  with k have "sint (of_nat (nat i) :: uint32) = i" "nat i mod 10 ^ k = nat i"
    using assms(2) sint_u32_len [of "nat i"] by simp_all
  with read_num_digits [OF assms(1), of 0] show ?thesis by (simp add: num_then_def read_num_def)
qed

lemma char_then_at: "rd s p = Some c \<Longrightarrow> char_then c s p f = f (p + 1)"
  by (simp add: char_then_def)

text \<open>The text of a time is fixed: 30 characters for a year of four digits.\<close>

lemma fmt_int_exact: "0 \<le> i \<Longrightarrow> i < 10 ^ w \<Longrightarrow> 0 < w \<Longrightarrow> fmt_int w i = digits_exact 10 w (nat i)"
  by (simp add: fmt_int_def fmt_pad_exact nat_less_iff)

definition time_fields :: "nat \<Rightarrow> nat \<Rightarrow> nat \<Rightarrow> nat \<Rightarrow> nat \<Rightarrow> nat \<Rightarrow> nat \<Rightarrow> cstr" where
  "time_fields y mo d h mi s n =
     digits_exact 10 4 y @ [0x2D] @ digits_exact 10 2 mo @ [0x2D] @
     digits_exact 10 2 d @ [0x54] @ digits_exact 10 2 h @ [0x3A] @
     digits_exact 10 2 mi @ [0x3A] @ digits_exact 10 2 s @ [0x2E] @
     digits_exact 10 9 n @ [0x5A]"

lemma length_time_fields [simp]: "length (time_fields y mo d h mi s n) = 30"
  by (simp add: time_fields_def)

lemma time_parse_fields:
  assumes "y < 10 ^ 4" "mo < 10 ^ 2" "d < 10 ^ 2" "h < 10 ^ 2" "mi < 10 ^ 2" "s < 10 ^ 2" "n < 10 ^ 9"
  shows "time_parse (time_fields y mo d h mi s n @ r) len = Some (word_of_int
    (timegm \<lparr>tm_year = int y - 1900, tm_mon = int mo - 1, tm_mday = int d, tm_hour = int h,
       tm_min = int mi, tm_sec = int s\<rparr> * 1000000000 + int n))"
proof -
  define str where "str = time_fields y mo d h mi s n @ r"
  have "bytes_at str 0 (time_fields y mo d h mi s n)" unfolding str_def by (rule bytes_at_start)
  note at = this [unfolded time_fields_def bytes_at_append bytes_at_Cons length_digits_exact, simplified]
  have num:
    "num_then str 0 4 f = f 4 (int y)" "num_then str 5 2 f = f 7 (int mo)"
    "num_then str 8 2 f = f 10 (int d)" "num_then str 11 2 f = f 13 (int h)"
    "num_then str 14 2 f = f 16 (int mi)" "num_then str 17 2 f = f 19 (int s)" for f
    using at assms num_then_digits [of str 0 4 "int y" f] num_then_digits [of str 5 2 "int mo" f]
      num_then_digits [of str 8 2 "int d" f] num_then_digits [of str 11 2 "int h" f]
      num_then_digits [of str 14 2 "int mi" f] num_then_digits [of str 17 2 "int s" f] by simp_all
  have chr:
    "char_then 0x2D str 4 g = g 5" "char_then 0x2D str 7 g = g 8" "char_then 0x54 str 10 g = g 11"
    "char_then 0x3A str 13 g = g 14" "char_then 0x3A str 16 g = g 17" "char_then 0x2E str 19 g = g 20" for g
    using at by (simp_all add: char_then_at)
  have "nsecs_loop str 20 9 0 = Some (Some (29, of_nat n))" "rd str 29 = Some 0x5A"
    using at nsecs_digits [of str 20 9 n 0] assms(7) by simp_all
  then show ?thesis
    unfolding time_parse_def str_def [symmetric] num chr Let_def by simp
qed

text \<open>The text of a time of \<open>gmtime_r\<close> is one of these.\<close>

lemma time_text_fields:
  assumes "gmtime t = Some tm" and "- 1900 \<le> tm_year tm" and "tm_year tm < 8100"
    and "0 \<le> frac" and "frac < 1000000000"
  shows "time_text tm frac = time_fields (nat (1900 + tm_year tm)) (nat (1 + tm_mon tm))
     (nat (tm_mday tm)) (nat (tm_hour tm)) (nat (tm_min tm)) (nat (tm_sec tm)) (nat frac)"
  using gmtime_fields [OF assms(1)] assms(2-) by (simp add: time_text_def time_fields_def fmt_int_exact)

lemma time_parse_text:
  assumes "gmtime t = Some tm" and "- 1900 \<le> tm_year tm" and "tm_year tm < 8100"
    and "0 \<le> frac" and "frac < 1000000000"
  shows "time_parse (time_text tm frac @ r) len = Some (word_of_int (t * 1000000000 + frac))"
proof -
  have tm: "\<lparr>tm_year = tm_year tm, tm_mon = tm_mon tm, tm_mday = tm_mday tm, tm_hour = tm_hour tm,
      tm_min = tm_min tm, tm_sec = tm_sec tm\<rparr> = tm" by (cases tm) simp
  show ?thesis
    unfolding time_text_fields [OF assms]
    using gmtime_fields [OF assms(1)] assms(2-) timegm_gmtime [OF assms(1)]
    by (subst time_parse_fields) (simp_all add: nat_less_iff tm)
qed

text \<open>On any 30 characters \<open>time_parse\<close> stays among them.\<close>

lemma read_num_loop_append:
  "p + n \<le> length s \<Longrightarrow> read_num_loop (s @ r) p n v = read_num_loop s p n v \<and>
   (\<exists>x. read_num_loop s p n v = Some (map_option (Pair (p + n)) x))"
proof (induction n arbitrary: p v)
  case (Suc n)
  then have "rd s p = Some (s ! p)" "rd (s @ r) p = rd s p" by (simp_all add: rd_def nth_append)
  with Suc.prems Suc.IH [of "Suc p"] show ?case by (auto intro: exI [of _ None])
qed (auto intro: exI [of _ "Some x" for x])

lemma nsecs_loop_append:
  "p + n \<le> length s \<Longrightarrow> nsecs_loop (s @ r) p n v = nsecs_loop s p n v \<and>
   (\<exists>x. nsecs_loop s p n v = Some (map_option (Pair (p + n)) x))"
proof (induction n arbitrary: p v)
  case (Suc n)
  then have "rd s p = Some (s ! p)" "rd (s @ r) p = rd s p" by (simp_all add: rd_def nth_append)
  with Suc.prems Suc.IH [of "Suc p"] show ?case by (auto intro: exI [of _ None])
qed (auto intro: exI [of _ "Some x" for x])

lemma num_then_append:
  assumes "p + n \<le> length s" and "\<And>v. f (p + n) v = g (p + n) v \<and> g (p + n) v \<noteq> None"
  shows "num_then (s @ r) p n f = num_then s p n g \<and> num_then s p n g \<noteq> None"
proof -
  from read_num_loop_append [OF assms(1), of r 0] obtain x where
    "read_num (s @ r) p n = Some (map_option (Pair (p + n)) x)" "read_num s p n = Some (map_option (Pair (p + n)) x)"
    by (auto simp: read_num_def)
  with assms(2) show ?thesis by (cases x) (auto simp: num_then_def)
qed

lemma char_then_append:
  "p < length s \<Longrightarrow> f (p + 1) = g (p + 1) \<and> g (p + 1) \<noteq> None \<Longrightarrow>
   char_then c (s @ r) p f = char_then c s p g \<and> char_then c s p g \<noteq> None"
  by (auto simp: char_then_def rd_def nth_append)

lemma time_parse_append:
  assumes "length s = 30"
  shows "time_parse (s @ r) len = time_parse s len \<and> time_parse s len \<noteq> None"
proof -
  obtain x where x: "nsecs_loop (s @ r) 20 9 0 = Some (map_option (Pair 29) x)"
    "nsecs_loop s 20 9 0 = Some (map_option (Pair 29) x)"
    using nsecs_loop_append [of 20 9 s r 0] assms by auto
  have "rd (s @ r) 29 = rd s 29" "rd s 29 \<noteq> None" using assms by (simp_all add: rd_def nth_append)
  then obtain z where z: "rd (s @ r) 29 = Some z" "rd s 29 = Some z" by auto
  show ?thesis
    unfolding time_parse_def Let_def
    by (rule num_then_append char_then_append | simp add: assms)+ (cases x; simp add: x z)
qed

section \<open>Writing a time\<close>

text \<open>
  The text of \<open>VAL_TIME\<close> in \<open>opo_val_to_ojc\<close>: \<open>nsec\<close> is unsigned here, and so are its division and
  the difference.  The product \<open>(int64_t)t * 1000000000LL\<close> is signed: where it is no \<open>int64_t\<close> the
  code is undefined.  \<open>time_product\<close> is it, and \<open>time_string_opo\<close> the text where it is defined.
\<close>

definition time_product :: "uint64 \<Rightarrow> int option" where
  "time_product nsec =
     (let k = sint (nsec div 1000000000) * 1000000000
      in if - (2 ^ 63) \<le> k \<and> k < 2 ^ 63 then Some k else None)"

definition time_string_opo :: "uint64 \<Rightarrow> cstr option" where
  "time_string_opo nsec =
     (let t = sint (nsec div 1000000000);
          frac = sint (nsec - word_of_int (t * 1000000000))
      in map_option (\<lambda>tm. time_text tm frac) (gmtime t))"

lemma time_string_opo_unsigned:
  "time_string_opo nsec = map_option (\<lambda>tm. time_text tm (uint nsec mod 1000000000)) (gmtime (uint nsec div 1000000000))"
proof -
  have u: "0 \<le> uint nsec" "uint nsec < 2 ^ 64" using uint_lt2p [of nsec] by simp_all
  have "uint (nsec div 1000000000) = uint nsec div 1000000000" by (simp add: uint_div_distrib)
  moreover have "uint nsec div 1000000000 < 2 ^ 63" using u(2) by simp
  ultimately have t: "sint (nsec div 1000000000) = uint nsec div 1000000000"
    using sint_uint [of "nsec div 1000000000"] u(1) by (simp add: signed_take_bit_int_eq_self)
  have "nsec - word_of_int (uint nsec div 1000000000) * 1000000000 =
      word_of_int (uint nsec - uint nsec div 1000000000 * 1000000000)" by simp
  also have "uint nsec - uint nsec div 1000000000 * 1000000000 = uint nsec mod 1000000000"
    by (rule minus_div_mult_eq_mod)
  finally have "sint (nsec - word_of_int (uint nsec div 1000000000 * 1000000000)) = uint nsec mod 1000000000"
    by (simp add: signed_of_int signed_take_bit_int_eq_self)
  with t show ?thesis by (simp only: time_string_opo_def Let_def)
qed

lemma time_string_opo_Some:
  "\<exists>tm. gmtime (uint nsec div 1000000000) = Some tm \<and> 1970 \<le> 1900 + tm_year tm \<and> tm_year tm < 8100 \<and>
     time_string_opo nsec = Some (time_text tm (uint nsec mod 1000000000))"
proof -
  have u: "0 \<le> uint nsec div 1000000000" "uint nsec div 1000000000 < 18446744074"
    using uint_lt2p [of nsec] by (simp_all add: pos_imp_zdiv_nonneg_iff)
  then obtain tm where tm: "gmtime (uint nsec div 1000000000) = Some tm"
    using gmtime_near [of "uint nsec div 1000000000"] by auto
  have "0 \<le> uint nsec div 1000000000 div 86400" using u(1) by (simp add: pos_imp_zdiv_nonneg_iff)
  with gmtime_year [OF tm] gmtime_epoch [OF tm] u
  have "1970 \<le> 1900 + tm_year tm" "tm_year tm < 8100" by simp_all
  with tm show ?thesis by (simp add: time_string_opo_unsigned)
qed

lemma time_string_opo_text:
  "\<exists>s. time_string_opo nsec = Some s \<and> length s = 30 \<and> time_parse (s @ r) len = Some nsec"
proof -
  from time_string_opo_Some [of nsec] obtain tm where
    tm: "gmtime (uint nsec div 1000000000) = Some tm" "- 1900 \<le> tm_year tm" "tm_year tm < 8100"
    and s: "time_string_opo nsec = Some (time_text tm (uint nsec mod 1000000000))" by auto
  note text_facts = time_text_fields [OF tm] time_parse_text [OF tm]
  have "uint nsec div 1000000000 * 1000000000 + uint nsec mod 1000000000 = uint nsec"
    by (rule div_mult_mod_eq)
  then have "(word_of_int (uint nsec div 1000000000 * 1000000000 + uint nsec mod 1000000000) :: uint64) = nsec"
    by (simp only: word_of_int_uint)
  with s text_facts show ?thesis by (simp del: of_int_add)
qed

section \<open>Properties\<close>

text \<open>
  C37: the number \<^verbatim>\<open>opo.c\<close> writes with its own functions is the one \<^verbatim>\<open>val.c\<close> reads there, in each of
  the three widths, and the pointers end behind it; the bytes before and behind it stay.
\<close>

theorem codec_roundtrip:
  assumes "fill_uint16_opo m p a = Some (m1, q1)" and "fill_uint32_opo m p b = Some (m2, q2)"
    and "fill_uint64_opo m p c = Some (m3, q3)"
  shows "read_uint16 m1 p = Some (q1, a) \<and> read_uint32 m2 p = Some (q2, b) \<and> read_uint64 m3 p = Some (q3, c) \<and>
    take p m1 = take p m \<and> take p m2 = take p m \<and> take p m3 = take p m \<and>
    drop q1 m1 = drop q1 m \<and> drop q2 m2 = drop q2 m \<and> drop q3 m3 = drop q3 m"
proof -
  note f = assms [unfolded codec_copies]
  have "take p m' = take p m \<and> drop q m' = drop q m" if "put m p xs = Some (m', q)" for m' q xs
    using that by (auto simp: put_def split: if_splits)
  with f show ?thesis
    by (simp add: u16.read_fill [OF f(1)] u32.read_fill [OF f(2)] u64.read_fill [OF f(3)]
        fill_uint16_put fill_uint32_put fill_uint64_put)
qed

theorem codec_roundtrip_witness:
  "\<exists>m q. fill_uint32_opo (9 # replicate 8 0 @ [9]) 1 0x12345678 = Some (m, q) \<and> read_uint32 m 1 = Some (q, 0x12345678) \<and>
    take 1 m = [9]"
proof -
  let ?m = "9 # replicate 8 0 @ [9] :: mem"
  have "\<exists>m1 q1 m2 q2 m3 q3. fill_uint16_opo ?m 1 5 = Some (m1, q1) \<and> fill_uint32_opo ?m 1 0x12345678 = Some (m2, q2) \<and>
      fill_uint64_opo ?m 1 5 = Some (m3, q3)"
    by (simp add: codec_copies fill_uint16_put fill_uint32_put fill_uint64_put put_def)
  then obtain m1 q1 m2 q2 m3 q3 where f: "fill_uint16_opo ?m 1 5 = Some (m1, q1)"
    "fill_uint32_opo ?m 1 0x12345678 = Some (m2, q2)" "fill_uint64_opo ?m 1 5 = Some (m3, q3)" by blast
  from codec_roundtrip [OF f] f(2) show ?thesis by (intro exI [of _ m2] exI [of _ q2]) simp
qed

text \<open>
  C34: \<open>detect_uuid\<close> accepts exactly the 36 characters that are the text of some UUID, in lower
  case, so no string is stored as a UUID that does not print as the same string.
\<close>

theorem detect_uuid_correct:
  assumes "length s = 36"
  shows "detect_uuid (s @ t) 36 = Some (\<exists>hi lo. s = uuid_text hi lo)"
  using assms by (rule detect_uuid_text)

theorem detect_uuid_correct_witness:
  "detect_uuid (uuid_text 1 2 @ [0]) 36 = Some True \<and> detect_uuid (replicate 36 0x66 @ [0]) 36 = Some False"
proof -
  have "replicate 36 0x66 \<noteq> uuid_text hi lo" for hi lo
  proof
    assume "replicate 36 0x66 = uuid_text hi lo"
    then have "0x2D \<in> set (replicate 36 (0x66 :: byte))" by (simp add: uuid_text_exact)
    then show False by simp
  qed
  then show ?thesis
    using detect_uuid_correct [of "uuid_text 1 2" "[0]"] detect_uuid_correct [of "replicate 36 0x66" "[0]"]
    by auto
qed

text \<open>
  \<open>time_parse\<close> reads any thirteen fields of digits, whether they name a month or a day or
  not, and returns the nanoseconds since the epoch of the time \<open>timegm\<close> makes of them, in 64 bits.
\<close>

theorem time_parse_correct:
  assumes "y < 10 ^ 4" "mo < 10 ^ 2" "d < 10 ^ 2" "h < 10 ^ 2" "mi < 10 ^ 2" "s < 10 ^ 2" "n < 10 ^ 9"
  shows "time_parse (time_fields y mo d h mi s n @ r) len = Some (word_of_int
    (timegm \<lparr>tm_year = int y - 1900, tm_mon = int mo - 1, tm_mday = int d, tm_hour = int h,
       tm_min = int mi, tm_sec = int s\<rparr> * 1000000000 + int n))"
  using assms by (rule time_parse_fields)

theorem time_parse_correct_witness:
  "time_parse (time_fields 2017 13 1 0 0 0 5 @ [0]) 30 = time_parse (time_fields 2018 1 1 0 0 0 5 @ [0]) 30"
  using time_parse_correct [of 2017 13 1 0 0 0 5 "[0]" 30] time_parse_correct [of 2018 1 1 0 0 0 5 "[0]" 30]
  by (simp add: timegm_def year_start_def month_start_def)

text \<open>
  C35: the text \<open>opo_val_to_ojc\<close> makes of a time has the 30 characters \<open>wire_size\<close> looks for, and
  \<open>time_parse\<close> reads it back as the same time, for every 64-bit number; where \<open>time_product\<close> has none
  the code is undefined before it gets to the text.
\<close>

theorem time_text_roundtrip:
  "\<exists>s. time_string_opo nsec = Some s \<and> length s = TIME_STR_LEN \<and> time_parse (s @ r) len = Some nsec"
  using time_string_opo_text [of nsec r len] by (simp add: TIME_STR_LEN_def)

text \<open>
  A time before the epoch does not survive: its text is read as a negative number of
  nanoseconds, which \<open>opo_val_to_ojc\<close> takes for an unsigned one.  With the product wrapped, as
  compilers have it, it prints a year after 2261.
\<close>

theorem time_before_epoch:
  assumes "gmtime t = Some tm" and "- 1900 \<le> tm_year tm" and "t < 0"
    and "0 \<le> frac" and "frac < 1000000000" and "- (2 ^ 63) \<le> t * 1000000000 + frac"
  shows "\<exists>nsec tm' frac'. time_parse (time_text tm frac @ r) len = Some nsec \<and>
    time_string_opo nsec = Some (time_text tm' frac') \<and>
    1900 + tm_year tm < 1970 \<and> 2262 \<le> 1900 + tm_year tm'"
proof -
  let ?nsec = "word_of_int (t * 1000000000 + frac) :: uint64"
  have y: "tm_year tm < 70" using gmtime_epoch [OF assms(1)] assms(3) by simp
  then have p: "time_parse (time_text tm frac @ r) len = Some ?nsec"
    using assms by (intro time_parse_text) simp_all
  have "uint ?nsec = (t * 1000000000 + frac + 2 ^ 64) mod 2 ^ 64"
    unfolding uint_word_of_int by simp
  also have "\<dots> = t * 1000000000 + frac + 2 ^ 64" using assms(3-6) by (intro mod_pos_pos_trivial) simp_all
  finally have "9223372036 \<le> uint ?nsec div 1000000000" using assms(6) by simp
  then have d: "106751 \<le> uint ?nsec div 1000000000 div 86400" by simp
  from time_string_opo_Some [of ?nsec] obtain tm' where
    tm': "gmtime (uint ?nsec div 1000000000) = Some tm'"
    "time_string_opo ?nsec = Some (time_text tm' (uint ?nsec mod 1000000000))" by auto
  from gmtime_year(2) [OF tm'(1)] d have "2262 \<le> 1900 + tm_year tm'" by simp
  with p tm'(2) y show ?thesis by auto
qed

theorem time_before_epoch_witness:
  "\<exists>nsec tm' frac'. time_parse (time_fields 1969 12 31 23 59 58 0 @ [0]) 30 = Some nsec \<and>
     time_string_opo nsec = Some (time_text tm' frac') \<and> 2262 \<le> 1900 + tm_year tm'"
proof -
  have g: "gmtime (- 2) = Some \<lparr>tm_year = 69, tm_mon = 11, tm_mday = 31, tm_hour = 23, tm_min = 59, tm_sec = 58\<rparr>"
    by (simp add: gmtime_def year_of_day_def year_start_def month_of_day_def month_start_def leap_def)
  have txt_eq: "time_text \<lparr>tm_year = 69, tm_mon = 11, tm_mday = 31, tm_hour = 23, tm_min = 59, tm_sec = 58\<rparr> 0 =
      time_fields 1969 12 31 23 59 58 0"
    by (subst time_text_fields [OF g]) simp_all
  show ?thesis
    using time_before_epoch [OF g, of 0 "[0]" 30] unfolding txt_eq by fastforce
qed

end
