(* ===== verification/OpoWrite.thy ===== *)
theory OpoWrite imports OpoCodec Fill begin

text \<open>
  From JSON to a message, the encoding half of \<^verbatim>\<open>opo.c\<close>.  The JSON library is not part of the
  repository: the functions of it the code calls are the fields of \<open>ojc_api\<close>, over any type of
  values, and \<open>json_at\<close> says which JSON value they show.
\<close>

section \<open>The JSON library\<close>

text \<open>\<open>OJC_OTHER\<close> stands for the types the code does not name.\<close>

datatype ojcValType =
    OJC_NULL | OJC_TRUE | OJC_FALSE | OJC_STRING | OJC_NUMBER | OJC_FIXNUM | OJC_DECIMAL
  | OJC_ARRAY | OJC_OBJECT | OJC_WORD | OJC_OTHER

text \<open>
  A string is the object its pointer points into, from the pointer on; \<open>None\<close> is NULL.  Lengths
  are C integers that are not negative.
\<close>

record 'v ojc_api =
  ojc_type :: "'v \<Rightarrow> ojcValType"
  ojc_str :: "'v \<Rightarrow> cstr"
  ojc_str_len :: "'v \<Rightarrow> nat"
  ojc_number :: "'v \<Rightarrow> cstr"
  ojc_number_len :: "'v \<Rightarrow> nat"
  ojc_int :: "'v \<Rightarrow> int64"
  ojc_double :: "'v \<Rightarrow> double"
  ojc_word :: "'v \<Rightarrow> cstr"
  ojc_members :: "'v \<Rightarrow> 'v option"
  ojc_next :: "'v \<Rightarrow> 'v option"
  ojc_key :: "'v \<Rightarrow> cstr"
  ojc_key_len :: "'v \<Rightarrow> nat"

section \<open>Sizes\<close>

text \<open>The conditions of the string branches, which read the string only when its length fits.\<close>

definition uuid_string :: "cstr \<Rightarrow> nat \<Rightarrow> bool option" where
  "uuid_string str len = (if UUID_STR_LEN = len then detect_uuid str UUID_STR_LEN else Some False)"

definition time_string_value :: "cstr \<Rightarrow> nat \<Rightarrow> uint64 option option" where
  "time_string_value str len =
     (if TIME_STR_LEN = len then do {
        t \<leftarrow> time_parse str TIME_STR_LEN;
        Some (if NO_TIME \<noteq> t then Some t else None)
      }
      else Some None)"

definition decimal_text :: "double_fmt \<Rightarrow> double \<Rightarrow> cstr" where
  "decimal_text fmt d = (if whole fmt d then fmt_1f fmt d else fmt_15g fmt d)"

definition size_scalar :: "'v ojc_api \<Rightarrow> double_fmt \<Rightarrow> 'v \<Rightarrow> nat \<Rightarrow> nat option" where
  "size_scalar A fmt val sz =
     (case ojc_type A val of
        OJC_STRING \<Rightarrow> do {
          let str = ojc_str A val;
          let len = ojc_str_len A val;
          u \<leftarrow> uuid_string str len;
          if u then Some (sz + 16)
          else do {
            t \<leftarrow> time_string_value str len;
            case t of
              Some t \<Rightarrow> Some (sz + 8)
            | None \<Rightarrow> Some (sz + (len + size_bytes (of_nat len) + 1))
          }
        }
      | OJC_NUMBER \<Rightarrow>
          let len = ojc_number_len A val in Some (sz + (len + size_bytes (of_nat len) + 1))
      | OJC_FIXNUM \<Rightarrow> Some (sz + isize_bytes (ojc_int A val))
      | OJC_DECIMAL \<Rightarrow>
          let sz = sz + 1 in Some (sz + length (decimal_text fmt (ojc_double A val)))
      | OJC_WORD \<Rightarrow> do {
          len \<leftarrow> strlen (ojc_word A val);
          Some (sz + (len + size_bytes (of_nat len) + 1))
        }
      | _ \<Rightarrow> Some sz)"

text \<open>The fuel bounds the depth of the value and the number of members of each container.\<close>

fun wire_size :: "'v ojc_api \<Rightarrow> double_fmt \<Rightarrow> nat \<Rightarrow> 'v \<Rightarrow> nat outcome"
  and size_elements :: "'v ojc_api \<Rightarrow> double_fmt \<Rightarrow> nat \<Rightarrow> 'v option \<Rightarrow> nat \<Rightarrow> nat outcome"
  and size_members :: "'v ojc_api \<Rightarrow> double_fmt \<Rightarrow> nat \<Rightarrow> 'v option \<Rightarrow> nat \<Rightarrow> nat outcome" where
  "wire_size A fmt 0 val = Out_Of_Fuel"
| "wire_size A fmt (Suc n) val =
     (let sz = 1 in
      if ojc_type A val = OJC_ARRAY then size_elements A fmt n (ojc_members A val) (sz + 4)
      else if ojc_type A val = OJC_OBJECT then size_members A fmt n (ojc_members A val) (sz + 4)
      else outcome_of (size_scalar A fmt val sz))"
| "size_elements A fmt 0 m sz = Out_Of_Fuel"
| "size_elements A fmt (Suc n) m sz =
     (case m of
        None \<Rightarrow> Return sz
      | Some m \<Rightarrow> obind (wire_size A fmt n m) (\<lambda>k.
          size_elements A fmt n (ojc_next A m) (sz + k)))"
| "size_members A fmt 0 m sz = Out_Of_Fuel"
| "size_members A fmt (Suc n) m sz =
     (case m of
        None \<Rightarrow> Return sz
      | Some m \<Rightarrow>
          let len = ojc_key_len A m;
              sz = sz + (len + size_bytes (of_nat len) + 2)
          in obind (wire_size A fmt n m) (\<lambda>k. size_members A fmt n (ojc_next A m) (sz + k)))"

section \<open>Filling\<close>

definition fill_scalar ::
    "'v ojc_api \<Rightarrow> double_fmt \<Rightarrow> 'v \<Rightarrow> mem \<Rightarrow> ptr \<Rightarrow> (mem \<times> ptr) option" where
  "fill_scalar A fmt val m w =
     (case ojc_type A val of
        OJC_NULL \<Rightarrow> put m w [tag VAL_NULL]
      | OJC_TRUE \<Rightarrow> put m w [tag VAL_TRUE]
      | OJC_FALSE \<Rightarrow> put m w [tag VAL_FALSE]
      | OJC_STRING \<Rightarrow> do {
          let str = ojc_str A val;
          let len = ojc_str_len A val;
          u \<leftarrow> uuid_string str len;
          if u then fill_uuid_opo m w str
          else do {
            t \<leftarrow> time_string_value str len;
            case t of
              Some t \<Rightarrow> do { (m, w) \<leftarrow> put m w [tag VAL_TIME]; fill_uint64_opo m w t }
            | None \<Rightarrow> fill_str_opo m w str len
          }
        }
      | OJC_NUMBER \<Rightarrow> fill_str_opo m w (ojc_number A val) (ojc_number_len A val)
      | OJC_FIXNUM \<Rightarrow>
          let i = ojc_int A val in
          if - 128 \<le> sint i \<and> sint i \<le> 127 then put m w [tag VAL_INT1, scast i]
          else if - 32768 \<le> sint i \<and> sint i \<le> 32767 then do {
            (m, w) \<leftarrow> put m w [tag VAL_INT2];
            fill_uint16_opo m w (scast i)
          }
          else if - 2147483648 \<le> sint i \<and> sint i \<le> 2147483647 then do {
            (m, w) \<leftarrow> put m w [tag VAL_INT4];
            fill_uint32_opo m w (scast i)
          }
          else do {
            (m, w) \<leftarrow> put m w [tag VAL_INT8];
            fill_uint64_opo m w i
          }
      | OJC_DECIMAL \<Rightarrow> do {
          (m, w) \<leftarrow> put m w [tag VAL_DEC];
          let str = decimal_text fmt (ojc_double A val);
          let cnt = length str;
          (m, w) \<leftarrow> put m w [of_nat cnt];
          if cnt < 63 then put m w str else None
        }
      | OJC_WORD \<Rightarrow> do {
          let str = ojc_word A val;
          len \<leftarrow> strlen str;
          fill_str_opo m w str len
        }
      | _ \<Rightarrow> Some (m, w))"

fun wire_fill :: "'v ojc_api \<Rightarrow> double_fmt \<Rightarrow> nat \<Rightarrow> 'v \<Rightarrow> mem \<Rightarrow> ptr \<Rightarrow> (mem \<times> ptr) outcome"
  and fill_elements :: "'v ojc_api \<Rightarrow> double_fmt \<Rightarrow> nat \<Rightarrow> 'v option \<Rightarrow> mem \<Rightarrow> ptr \<Rightarrow> (mem \<times> ptr) outcome"
  and fill_members :: "'v ojc_api \<Rightarrow> double_fmt \<Rightarrow> nat \<Rightarrow> 'v option \<Rightarrow> mem \<Rightarrow> ptr \<Rightarrow> (mem \<times> ptr) outcome" where
  "wire_fill A fmt 0 val m w = Out_Of_Fuel"
| "wire_fill A fmt (Suc n) val m w =
     (if ojc_type A val = OJC_ARRAY then
        obind (outcome_of (put m w [tag VAL_ARRAY])) (\<lambda>(m, w).
          let start = w; w = w + 4 in
          obind (fill_elements A fmt n (ojc_members A val) m w) (\<lambda>(m, w).
            obind (outcome_of (fill_uint32_opo m start (of_nat (w - start - 4)))) (\<lambda>(m, _).
              Return (m, w))))
      else if ojc_type A val = OJC_OBJECT then
        obind (outcome_of (put m w [tag VAL_OBJ])) (\<lambda>(m, w).
          let start = w; w = w + 4 in
          obind (fill_members A fmt n (ojc_members A val) m w) (\<lambda>(m, w).
            obind (outcome_of (fill_uint32_opo m start (of_nat (w - start - 4)))) (\<lambda>(m, _).
              Return (m, w))))
      else outcome_of (fill_scalar A fmt val m w))"
| "fill_elements A fmt 0 e m w = Out_Of_Fuel"
| "fill_elements A fmt (Suc n) e m w =
     (case e of
        None \<Rightarrow> Return (m, w)
      | Some e \<Rightarrow> obind (wire_fill A fmt n e m w) (\<lambda>(m, w).
          fill_elements A fmt n (ojc_next A e) m w))"
| "fill_members A fmt 0 e m w = Out_Of_Fuel"
| "fill_members A fmt (Suc n) e m w =
     (case e of
        None \<Rightarrow> Return (m, w)
      | Some e \<Rightarrow>
          let key = ojc_key A e; len = ojc_key_len A e in
          obind (outcome_of (fill_key_opo m w key len)) (\<lambda>(m, w).
            obind (wire_fill A fmt n e m w) (\<lambda>(m, w).
              fill_members A fmt n (ojc_next A e) m w)))"

section \<open>Messages\<close>

definition opo_ojc_msg_size :: "'v ojc_api \<Rightarrow> double_fmt \<Rightarrow> nat \<Rightarrow> 'v option \<Rightarrow> nat outcome" where
  "opo_ojc_msg_size A fmt n msg =
     (case msg of
        None \<Rightarrow> Return 0
      | Some v \<Rightarrow> obind (wire_size A fmt n v) (\<lambda>size. Return (size + 8)))"

definition opo_ojc_fill_msg :: "'v ojc_api \<Rightarrow> double_fmt \<Rightarrow> nat \<Rightarrow> 'v \<Rightarrow> mem \<Rightarrow> mem outcome" where
  "opo_ojc_fill_msg A fmt n val buf =
     obind (outcome_of (put buf 0 (replicate 8 0))) (\<lambda>(buf, w).
       obind (wire_fill A fmt n val buf 8) (\<lambda>(buf, w). Return buf))"

definition opo_ojc_to_msg ::
    "allocator \<Rightarrow> opoErr \<Rightarrow> 'v ojc_api \<Rightarrow> double_fmt \<Rightarrow> nat \<Rightarrow> 'v option \<Rightarrow> (opoErr \<times> mem option) outcome" where
  "opo_ojc_to_msg alloc err A fmt n val =
     (case val of
        None \<Rightarrow> Return (err, None)
      | Some val \<Rightarrow> obind (wire_size A fmt n val) (\<lambda>size.
          case alloc (size + 8) of
            None \<Rightarrow> Return (err_set err OPO_ERR_MEMORY (''failed to allocate memory for a message '' @
              dec_text size @ '' bytes long''), None)
          | Some w \<Rightarrow> obind (outcome_of (put w 0 (replicate 8 0))) (\<lambda>(w, _).
              obind (wire_fill A fmt n val w 8) (\<lambda>(w, _). Return (err, Some w)))))"

section \<open>JSON values\<close>

datatype json =
    JNull | JBool bool | JStr "byte list" | JNum "byte list" | JFix int64 | JDec double
  | JWord "byte list" | JArr "json list" | JObj "(byte list \<times> json) list"

text \<open>The characters of a string with a length, and of a null-terminated one\<close>

definition text_len :: "cstr \<Rightarrow> nat \<Rightarrow> byte list \<Rightarrow> bool" where
  "text_len str len s \<longleftrightarrow> len = length s \<and> take (length s) str = s"

definition text_null :: "cstr \<Rightarrow> byte list \<Rightarrow> bool" where
  "text_null str s \<longleftrightarrow> 0 \<notin> set s \<and> take (length s + 1) str = s @ [0]"

fun json_at :: "'v ojc_api \<Rightarrow> json \<Rightarrow> 'v \<Rightarrow> bool"
  and elements_at :: "'v ojc_api \<Rightarrow> json list \<Rightarrow> 'v option \<Rightarrow> bool"
  and members_at :: "'v ojc_api \<Rightarrow> (byte list \<times> json) list \<Rightarrow> 'v option \<Rightarrow> bool" where
  "json_at A JNull v \<longleftrightarrow> ojc_type A v = OJC_NULL"
| "json_at A (JBool b) v \<longleftrightarrow> ojc_type A v = (if b then OJC_TRUE else OJC_FALSE)"
| "json_at A (JStr s) v \<longleftrightarrow> ojc_type A v = OJC_STRING \<and> text_len (ojc_str A v) (ojc_str_len A v) s"
| "json_at A (JNum s) v \<longleftrightarrow> ojc_type A v = OJC_NUMBER \<and> text_len (ojc_number A v) (ojc_number_len A v) s"
| "json_at A (JFix i) v \<longleftrightarrow> ojc_type A v = OJC_FIXNUM \<and> ojc_int A v = i"
| "json_at A (JDec d) v \<longleftrightarrow> ojc_type A v = OJC_DECIMAL \<and> ojc_double A v = d"
| "json_at A (JWord s) v \<longleftrightarrow> ojc_type A v = OJC_WORD \<and> text_null (ojc_word A v) s"
| "json_at A (JArr js) v \<longleftrightarrow> ojc_type A v = OJC_ARRAY \<and> elements_at A js (ojc_members A v)"
| "json_at A (JObj kvs) v \<longleftrightarrow> ojc_type A v = OJC_OBJECT \<and> members_at A kvs (ojc_members A v)"
| "elements_at A [] e \<longleftrightarrow> e = None"
| "elements_at A (j # js) e \<longleftrightarrow>
     (case e of None \<Rightarrow> False | Some e \<Rightarrow> json_at A j e \<and> elements_at A js (ojc_next A e))"
| "members_at A [] e \<longleftrightarrow> e = None"
| "members_at A ((k, j) # kvs) e \<longleftrightarrow>
     (case e of None \<Rightarrow> False | Some e \<Rightarrow> text_len (ojc_key A e) (ojc_key_len A e) k \<and> json_at A j e \<and>
        members_at A kvs (ojc_next A e))"

fun json_fuel :: "json \<Rightarrow> nat"
  and elements_fuel :: "json list \<Rightarrow> nat"
  and members_fuel :: "(byte list \<times> json) list \<Rightarrow> nat" where
  "json_fuel (JArr js) = Suc (elements_fuel js)"
| "json_fuel (JObj kvs) = Suc (members_fuel kvs)"
| "json_fuel _ = 1"
| "elements_fuel [] = 1"
| "elements_fuel (j # js) = Suc (max (json_fuel j) (elements_fuel js))"
| "members_fuel [] = 1"
| "members_fuel ((k, j) # kvs) = Suc (max (json_fuel j) (members_fuel kvs))"

section \<open>The value on the wire\<close>

text \<open>A string that is the text of a UUID or of a time is stored as such.\<close>

definition uuid_of_text :: "byte list \<Rightarrow> (uint64 \<times> uint64) option" where
  "uuid_of_text s =
     (if length s = 36 \<and> detect_uuid s 36 = Some True then do {
        (p, hi) \<leftarrow> read_uint64 (pack (nibbles s)) 0;
        (p, lo) \<leftarrow> read_uint64 (pack (nibbles s)) p;
        Some (hi, lo)
      }
      else None)"

definition time_of_text :: "byte list \<Rightarrow> uint64 option" where
  "time_of_text s = (if length s = 30 then Option.bind (time_string_value s 30) (\<lambda>t. t) else None)"

definition string_wire :: "byte list \<Rightarrow> wire" where
  "string_wire s =
     (case uuid_of_text s of
        Some (hi, lo) \<Rightarrow> WUuid hi lo
      | None \<Rightarrow> (case time_of_text s of Some t \<Rightarrow> WTime t | None \<Rightarrow> str_wire s))"

fun wire_of :: "double_fmt \<Rightarrow> json \<Rightarrow> wire"
  and wires_of :: "double_fmt \<Rightarrow> json list \<Rightarrow> wire list"
  and members_of :: "double_fmt \<Rightarrow> (byte list \<times> json) list \<Rightarrow> (wkey \<times> wire) list" where
  "wire_of fmt JNull = WNull"
| "wire_of fmt (JBool b) = WBool b"
| "wire_of fmt (JStr s) = string_wire s"
| "wire_of fmt (JNum s) = str_wire s"
| "wire_of fmt (JFix i) = int_wire i"
| "wire_of fmt (JDec d) = WDec (decimal_text fmt d)"
| "wire_of fmt (JWord s) = str_wire s"
| "wire_of fmt (JArr js) = WArr (wires_of fmt js)"
| "wire_of fmt (JObj kvs) = WObj (members_of fmt kvs)"
| "wires_of fmt [] = []"
| "wires_of fmt (j # js) = wire_of fmt j # wires_of fmt js"
| "members_of fmt [] = []"
| "members_of fmt ((k, j) # kvs) = (mk_key k, wire_of fmt j) # members_of fmt kvs"

text \<open>What the format has room for: the lengths of strings, keys and decimals.\<close>

fun fits :: "double_fmt \<Rightarrow> json \<Rightarrow> bool"
  and all_fit :: "double_fmt \<Rightarrow> json list \<Rightarrow> bool"
  and members_fit :: "double_fmt \<Rightarrow> (byte list \<times> json) list \<Rightarrow> bool" where
  "fits fmt (JStr s) \<longleftrightarrow> length s < 2 ^ 31"
| "fits fmt (JNum s) \<longleftrightarrow> length s < 2 ^ 31"
| "fits fmt (JWord s) \<longleftrightarrow> length s < 2 ^ 31"
| "fits fmt (JDec d) \<longleftrightarrow> length (decimal_text fmt d) < 63"
| "fits fmt (JArr js) \<longleftrightarrow> all_fit fmt js"
| "fits fmt (JObj kvs) \<longleftrightarrow> members_fit fmt kvs"
| "fits fmt _ \<longleftrightarrow> True"
| "all_fit fmt [] \<longleftrightarrow> True"
| "all_fit fmt (j # js) \<longleftrightarrow> fits fmt j \<and> all_fit fmt js"
| "members_fit fmt [] \<longleftrightarrow> True"
| "members_fit fmt ((k, j) # kvs) \<longleftrightarrow> length k < 2 ^ 16 \<and> fits fmt j \<and> members_fit fmt kvs"

section \<open>What a scalar is stored as\<close>

lemma text_lenD: "text_len str len s \<Longrightarrow> len = length s \<and> (\<exists>t. str = s @ t) \<and> rd_range str 0 (length s) = Some s"
proof -
  assume "text_len str len s"
  then have t: "len = length s" "take (length s) str = s" by (simp_all add: text_len_def)
  from t(2) have "str = s @ drop (length s) str" by (metis append_take_drop_id)
  moreover from t(2) have "length s \<le> length str" by (metis length_take min.cobounded1)
  ultimately show ?thesis using t by (auto simp: rd_range_def)
qed

lemma text_nullD: "text_null str s \<Longrightarrow> strlen str = Some (length s) \<and> rd_range str 0 (length s) = Some s"
proof -
  assume t: "text_null str s"
  then have "str = s @ 0 # drop (length s + 1) str"
    by (metis append_take_drop_id append_assoc append_Cons append_Nil text_null_def)
  with t show ?thesis
    by (metis append_eq_conv_conj le_add1 length_append rd_range_def strlen_append text_null_def
        add_0 drop0)
qed

lemma uuid_of_text_text [simp]: "uuid_of_text (uuid_text hi lo) = Some (hi, lo)"
proof -
  have "read_uint64 (be_bytes 8 hi @ be_bytes 8 lo) 0 = Some (8, hi)"
    using u64.read_at [of "be_bytes 8 hi @ be_bytes 8 lo" 0 hi] bytes_at_start by simp
  moreover have "read_uint64 (be_bytes 8 hi @ be_bytes 8 lo) 8 = Some (16, lo)"
    using u64.read_at [of "be_bytes 8 hi @ be_bytes 8 lo" 8 lo] by (simp add: bytes_at_def)
  ultimately show ?thesis
    using detect_uuid_text [of "uuid_text hi lo" "[]"] by (auto simp: uuid_of_text_def nibbles_uuid_text)
qed

lemma uuid_of_text_iff: "uuid_of_text s = Some (hi, lo) \<longleftrightarrow> s = uuid_text hi lo"
proof
  assume u: "uuid_of_text s = Some (hi, lo)"
  then have "length s = 36" "detect_uuid s 36 = Some True" by (auto simp: uuid_of_text_def split: if_splits)
  then obtain h l where "s = uuid_text h l" using detect_uuid_text [of s "[]"] by auto
  with u show "s = uuid_text hi lo" by simp
qed simp

lemma uuid_string_text: "uuid_string (s @ t) (length s) = Some (uuid_of_text s \<noteq> None)"
proof (cases "length s = 36")
  case True
  have "uuid_of_text s \<noteq> None \<longleftrightarrow> (\<exists>hi lo. s = uuid_text hi lo)"
    using uuid_of_text_iff [of s] by auto
  with True detect_uuid_text [OF True, of t] show ?thesis by (simp add: uuid_string_def UUID_STR_LEN_def)
qed (simp add: uuid_string_def UUID_STR_LEN_def uuid_of_text_def)

lemma time_string_text: "time_string_value (s @ t) (length s) = Some (time_of_text s)"
proof (cases "length s = 30")
  case True
  from time_parse_append [OF True, of t 30] obtain x where
    "time_parse (s @ t) 30 = Some x" "time_parse s 30 = Some x" by auto
  with True show ?thesis by (simp add: time_string_value_def time_of_text_def TIME_STR_LEN_def)
qed (simp add: time_string_value_def time_of_text_def TIME_STR_LEN_def)

lemma size_bytes_len: "n < 2 ^ 32 \<Longrightarrow> size_bytes (of_nat n) = (if n \<le> 0xff then 1 else if n \<le> 0xffff then 2 else 4)"
  by (simp add: size_bytes_def word_le_nat_alt unat_of_nat_len)

lemma length_str: "length s < 2 ^ 32 \<Longrightarrow>
    Suc (length s + size_bytes (of_nat (length s)) + 1) = length (enc (str_wire s))"
  by (simp add: size_bytes_len str_wire_def)

lemma length_key: "length k < 2 ^ 16 \<Longrightarrow>
    length k + size_bytes (of_nat (length k)) + 2 = length (enc_key (mk_key k))"
  by (simp add: size_bytes_len mk_key_def)

definition scalar_json :: "json \<Rightarrow> bool" where
  "scalar_json j \<longleftrightarrow> (case j of JArr js \<Rightarrow> False | JObj kvs \<Rightarrow> False | _ \<Rightarrow> True)"

lemma size_scalar_ok:
  assumes "json_at A j v" and "fits fmt j" and "scalar_json j"
  shows "size_scalar A fmt v 1 = Some (length (enc (wire_of fmt j)))"
proof (cases j)
  case (JStr s)
  with assms have t: "text_len (ojc_str A v) (ojc_str_len A v) s" and ty: "ojc_type A v = OJC_STRING"
    and l: "length s < 2 ^ 31" by simp_all
  from text_lenD [OF t] obtain r where str: "ojc_str A v = s @ r" "ojc_str_len A v = length s" by blast
  have l': "length s < 2 ^ 32" using l by simp
  show ?thesis
    using ty str JStr length_str [OF l'] uuid_string_text [of s r] time_string_text [of s r]
    by (cases "uuid_of_text s"; cases "time_of_text s") (auto simp: size_scalar_def string_wire_def)
next
  case (JNum s)
  with assms length_str [of s] show ?thesis by (auto simp: size_scalar_def text_len_def)
next
  case (JWord s)
  with assms have t: "text_null (ojc_word A v) s" and ty: "ojc_type A v = OJC_WORD"
    and l: "length s < 2 ^ 32" by simp_all
  from text_nullD [OF t] ty length_str [OF l] JWord show ?thesis by (simp add: size_scalar_def)
next
  case (JFix i)
  with assms show ?thesis by (simp add: size_scalar_def isize_bytes_def int_wire_def)
qed (use assms in \<open>simp_all add: size_scalar_def scalar_json_def\<close>)

lemma fill_scalar_ok:
  assumes "json_at A j v" and "fits fmt j" and "scalar_json j"
  shows "fill_scalar A fmt v m w = put m w (enc (wire_of fmt j))"
proof (cases j)
  case (JStr s)
  with assms have t: "text_len (ojc_str A v) (ojc_str_len A v) s" and ty: "ojc_type A v = OJC_STRING"
    by simp_all
  from text_lenD [OF t] obtain r where str: "ojc_str A v = s @ r" "ojc_str_len A v = length s" by blast
  show ?thesis
  proof (cases "uuid_of_text s")
    case None
    then show ?thesis
      using ty str JStr text_lenD [OF t] uuid_string_text [of s r] time_string_text [of s r]
      by (cases "time_of_text s")
        (simp_all add: fill_scalar_def string_wire_def text_copies codec_copies fill_str_put fill_uint64_put put_put)
  next
    case (Some u)
    then obtain hi lo where u: "uuid_of_text s = Some (hi, lo)" by (cases u) auto
    then have "s = uuid_text hi lo" by (simp add: uuid_of_text_iff)
    with u ty str JStr uuid_string_text [of s r] show ?thesis
      by (simp add: fill_scalar_def string_wire_def fill_uuid_copy fill_uuid_text)
  qed
next
  case (JNum s)
  with assms have t: "text_len (ojc_number A v) (ojc_number_len A v) s" and ty: "ojc_type A v = OJC_NUMBER"
    by simp_all
  from text_lenD [OF t] ty JNum show ?thesis by (simp add: fill_scalar_def text_copies fill_str_put)
next
  case (JWord s)
  with assms have t: "text_null (ojc_word A v) s" and ty: "ojc_type A v = OJC_WORD" by simp_all
  from text_nullD [OF t] ty JWord show ?thesis by (simp add: fill_scalar_def text_copies fill_str_put)
next
  case (JFix i)
  with assms show ?thesis
    by (simp add: fill_scalar_def int_wire_def codec_copies fill_uint16_put fill_uint32_put fill_uint64_put
        put_put numeral_2_eq_2 Let_def)
next
  case (JDec d)
  with assms show ?thesis by (simp add: fill_scalar_def put_put put_put_bind Let_def)
qed (use assms in \<open>simp_all add: fill_scalar_def scalar_json_def\<close>)

lemma scalar_type: "json_at A j v \<Longrightarrow> scalar_json j \<Longrightarrow> ojc_type A v \<noteq> OJC_ARRAY \<and> ojc_type A v \<noteq> OJC_OBJECT"
  by (cases j) (auto simp: scalar_json_def)

section \<open>The size is that of the encoding\<close>

lemma wire_size_scalar:
  "json_at A j v \<Longrightarrow> fits fmt j \<Longrightarrow> json_fuel j \<le> n \<Longrightarrow> scalar_json j \<Longrightarrow>
   wire_size A fmt n v = Return (length (enc (wire_of fmt j)))"
  using scalar_type [of A j v] size_scalar_ok [of A j v fmt]
  by (cases n; cases j) (simp_all add: scalar_json_def)

lemma wire_size_ok:
  "json_at A j v \<Longrightarrow> fits fmt j \<Longrightarrow> json_fuel j \<le> n \<Longrightarrow>
     wire_size A fmt n v = Return (length (enc (wire_of fmt j)))"
  "elements_at A js e \<Longrightarrow> all_fit fmt js \<Longrightarrow> elements_fuel js \<le> n \<Longrightarrow>
     size_elements A fmt n e k = Return (k + length (enc_elements (wires_of fmt js)))"
  "members_at A kvs e \<Longrightarrow> members_fit fmt kvs \<Longrightarrow> members_fuel kvs \<le> n \<Longrightarrow>
     size_members A fmt n e k = Return (k + length (enc_members (members_of fmt kvs)))"
proof (induction A j v and A js e and A kvs e arbitrary: n and n k and n k
    rule: json_at_elements_at_members_at.induct)
  case (8 A js v)
  then show ?case by (cases n) simp_all
next
  case (9 A kvs v)
  then show ?case by (cases n) simp_all
next
  case (11 A j js e)
  then show ?case by (cases n; cases e) simp_all
next
  case (13 A key j kvs e)
  then show ?case using length_key [of key] by (cases n; cases e) (auto simp: text_len_def Let_def)
next
  case (10 A e)
  then show ?case by (cases n) simp_all
next
  case (12 A e)
  then show ?case by (cases n) simp_all
qed (rule wire_size_scalar; simp add: scalar_json_def)+

section \<open>The bytes are those of the encoding\<close>

lemma put_middle: "length b = length bs \<Longrightarrow> put (a @ b @ c) (length a) bs = Some (a @ bs @ c, length a + length bs)"
  by (simp add: put_def)

text \<open>A container: the tag, the members behind a gap, and their length stored in the gap.\<close>

lemma put_container:
  assumes fit: "w + 5 + length body \<le> length m" and len: "length len = 4"
  obtains m1 m2 m3 where "put m w [t] = Some (m1, w + 1)" and "length m1 = length m"
    and "put m1 (w + 5) body = Some (m2, w + 5 + length body)"
    and "put m2 (w + 1) len = Some (m3, w + 5)"
    and "put m w (t # len @ body) = Some (m3, w + 5 + length body)"
proof -
  define a b c d e where "a = take w m" and "b = take 1 (drop w m)" and "c = take 4 (drop (w + 1) m)"
    and "d = take (length body) (drop (w + 5) m)" and "e = drop (w + 5 + length body) m"
  have l: "length a = w" "length b = 1" "length c = 4" "length d = length body"
    using fit by (simp_all add: a_def b_def c_def d_def)
  have "drop (w + 5) m = d @ e"
    unfolding d_def e_def by (metis append_take_drop_id drop_drop add.commute)
  moreover have "drop (w + 1) m = c @ drop (w + 5) m"
  proof -
    have "drop (w + 5) m = drop 4 (drop (w + 1) m)" by (simp add: add.commute)
    then show ?thesis unfolding c_def by (metis append_take_drop_id)
  qed
  moreover have "drop w m = b @ drop (w + 1) m"
  proof -
    have "drop (w + 1) m = drop 1 (drop w m)" by (simp add: add.commute)
    then show ?thesis unfolding b_def by (metis append_take_drop_id)
  qed
  ultimately have m: "m = a @ b @ c @ d @ e" unfolding a_def by (metis append_take_drop_id)
  have 1: "put m w [t] = Some (a @ [t] @ c @ d @ e, w + 1)"
    using put_middle [of b "[t]" a "c @ d @ e"] l by (simp add: m)
  have 2: "put (a @ [t] @ c @ d @ e) (w + 5) body = Some (a @ [t] @ c @ body @ e, w + 5 + length body)"
    using put_middle [of d body "a @ [t] @ c" e] l by simp
  have 3: "put (a @ [t] @ c @ body @ e) (w + 1) len = Some (a @ [t] @ len @ body @ e, w + 5)"
    using put_middle [of c len "a @ [t]" "body @ e"] l len by simp
  have 4: "put m w (t # len @ body) = Some (a @ [t] @ len @ body @ e, w + 5 + length body)"
    using put_middle [of "b @ c @ d" "t # len @ body" a e] l len by (simp add: m)
  have "length (a @ [t] @ c @ d @ e) = length m" using l by (simp add: m)
  from that [OF 1 this 2 3 4] show thesis .
qed

lemma wire_fill_scalar:
  "json_at A j v \<Longrightarrow> fits fmt j \<Longrightarrow> json_fuel j \<le> n \<Longrightarrow> scalar_json j \<Longrightarrow>
   wire_fill A fmt n v m w = outcome_of (put m w (enc (wire_of fmt j)))"
  using scalar_type [of A j v] fill_scalar_ok [of A j v fmt m w]
  by (cases n; cases j) (simp_all add: scalar_json_def)

lemma put_fits: "w + length bs \<le> length m \<Longrightarrow> \<exists>m'. put m w bs = Some (m', w + length bs) \<and> length m' = length m"
  by (simp add: put_def)

lemma put_two:
  assumes "w + length (xs @ ys) \<le> length m"
  shows "\<exists>m'. put m w xs = Some (m', w + length xs) \<and> length m' = length m \<and>
    put m' (w + length xs) ys = put m w (xs @ ys)"
  using put_fits [of w xs m] assms put_put [of m w xs ys] by auto

lemma wire_fill_ok:
  "json_at A j v \<Longrightarrow> fits fmt j \<Longrightarrow> json_fuel j \<le> n \<Longrightarrow> w + length (enc (wire_of fmt j)) \<le> length m \<Longrightarrow>
     wire_fill A fmt n v m w = outcome_of (put m w (enc (wire_of fmt j)))"
  "elements_at A js e \<Longrightarrow> all_fit fmt js \<Longrightarrow> elements_fuel js \<le> n \<Longrightarrow>
     w + length (enc_elements (wires_of fmt js)) \<le> length m \<Longrightarrow>
     fill_elements A fmt n e m w = outcome_of (put m w (enc_elements (wires_of fmt js)))"
  "members_at A kvs e \<Longrightarrow> members_fit fmt kvs \<Longrightarrow> members_fuel kvs \<le> n \<Longrightarrow>
     w + length (enc_members (members_of fmt kvs)) \<le> length m \<Longrightarrow>
     fill_members A fmt n e m w = outcome_of (put m w (enc_members (members_of fmt kvs)))"
proof (induction A j v and A js e and A kvs e arbitrary: n m w and n m w and n m w
    rule: json_at_elements_at_members_at.induct)
  case (8 A js v)
  let ?body = "enc_elements (wires_of fmt js)"
  from 8(5) have fit: "w + 5 + length ?body \<le> length m" by simp
  obtain k where n: "n = Suc k" "elements_fuel js \<le> k" using 8(4) by (cases n) auto
  show ?case
  proof (rule put_container [OF fit, of "be_bytes 4 (of_nat (length ?body) :: uint32)" "tag VAL_ARRAY"])
    fix m1 m2 m3
    assume p: "put m w [tag VAL_ARRAY] = Some (m1, w + 1)" "length m1 = length m"
      "put m1 (w + 5) ?body = Some (m2, w + 5 + length ?body)"
      "put m2 (w + 1) (be_bytes 4 (of_nat (length ?body) :: uint32)) = Some (m3, w + 5)"
      "put m w (tag VAL_ARRAY # be_bytes 4 (of_nat (length ?body) :: uint32) @ ?body) = Some (m3, w + 5 + length ?body)"
    have "fill_elements A fmt k (ojc_members A v) m1 (w + 5) = outcome_of (put m1 (w + 5) ?body)"
      using 8 n fit p(2) by (intro 8(1)) simp_all
    with p show ?thesis using 8(2) by (simp add: n codec_copies fill_uint32_put Let_def add.commute [of w 5])
  qed simp
next
  case (9 A kvs v)
  let ?body = "enc_members (members_of fmt kvs)"
  from 9(5) have fit: "w + 5 + length ?body \<le> length m" by simp
  obtain k where n: "n = Suc k" "members_fuel kvs \<le> k" using 9(4) by (cases n) auto
  show ?case
  proof (rule put_container [OF fit, of "be_bytes 4 (of_nat (length ?body) :: uint32)" "tag VAL_OBJ"])
    fix m1 m2 m3
    assume p: "put m w [tag VAL_OBJ] = Some (m1, w + 1)" "length m1 = length m"
      "put m1 (w + 5) ?body = Some (m2, w + 5 + length ?body)"
      "put m2 (w + 1) (be_bytes 4 (of_nat (length ?body) :: uint32)) = Some (m3, w + 5)"
      "put m w (tag VAL_OBJ # be_bytes 4 (of_nat (length ?body) :: uint32) @ ?body) = Some (m3, w + 5 + length ?body)"
    have "fill_members A fmt k (ojc_members A v) m1 (w + 5) = outcome_of (put m1 (w + 5) ?body)"
      using 9 n fit p(2) by (intro 9(1)) simp_all
    with p show ?thesis using 9(2) by (simp add: n codec_copies fill_uint32_put Let_def add.commute [of w 5])
  qed simp
next
  case (11 A j js e)
  then obtain e' k where e: "e = Some e'" and n: "n = Suc k" by (cases e; cases n) auto
  let ?x = "enc (wire_of fmt j)" and ?ys = "enc_elements (wires_of fmt js)"
  from put_two [of w ?x ?ys m] 11(6) obtain m' where m': "put m w ?x = Some (m', w + length ?x)"
    "length m' = length m" "put m' (w + length ?x) ?ys = put m w (?x @ ?ys)" by auto
  have "wire_fill A fmt k e' m w = outcome_of (put m w ?x)"
    using 11(3-6) e n by (intro 11(1)) simp_all
  moreover have "fill_elements A fmt k (ojc_next A e') m' (w + length ?x) = outcome_of (put m' (w + length ?x) ?ys)"
    using 11(3-6) e n m'(2) by (intro 11(2)) simp_all
  ultimately show ?case by (simp add: e n m')
next
  case (13 A key j kvs e)
  then obtain e' k where e: "e = Some e'" and n: "n = Suc k" by (cases e; cases n) auto
  let ?k = "enc_key (mk_key key)" and ?x = "enc (wire_of fmt j)" and ?ys = "enc_members (members_of fmt kvs)"
  from 13(3) e have t: "text_len (ojc_key A e') (ojc_key_len A e') key" by simp
  from put_two [of w ?k "?x @ ?ys" m] 13(6) obtain m1 where m1: "put m w ?k = Some (m1, w + length ?k)"
    "length m1 = length m" "put m1 (w + length ?k) (?x @ ?ys) = put m w (?k @ ?x @ ?ys)" by auto
  from put_two [of "w + length ?k" ?x ?ys m1] 13(6) m1(2) obtain m2 where
    m2: "put m1 (w + length ?k) ?x = Some (m2, w + length ?k + length ?x)" "length m2 = length m"
    "put m2 (w + length ?k + length ?x) ?ys = put m1 (w + length ?k) (?x @ ?ys)" by auto
  have "fill_key_opo m w (ojc_key A e') (ojc_key_len A e') = put m w ?k"
    using text_lenD [OF t] by (simp add: text_copies fill_key_put)
  moreover have "wire_fill A fmt k e' m1 (w + length ?k) = outcome_of (put m1 (w + length ?k) ?x)"
    using 13(3-6) e n m1(2) by (intro 13(1)) simp_all
  moreover have "fill_members A fmt k (ojc_next A e') m2 (w + length ?k + length ?x) =
      outcome_of (put m2 (w + length ?k + length ?x) ?ys)"
    using 13(3-6) e n m2(2) by (intro 13(2)) simp_all
  ultimately show ?case by (simp add: e n m1 m2 Let_def)
next
  case (10 A e)
  then show ?case by (cases n) simp_all
next
  case (12 A e)
  then show ?case by (cases n) simp_all
qed (rule wire_fill_scalar; simp add: scalar_json_def)+

section \<open>The encoding is well-formed\<close>

lemma wf_string_wire: "length s < 2 ^ 31 \<Longrightarrow> wf_wire (string_wire s)"
  by (auto simp: string_wire_def wf_str_wire split: option.splits)

lemma wf_wire_of:
  "fits fmt j \<Longrightarrow> length (enc (wire_of fmt j)) < 2 ^ 32 \<Longrightarrow> wf_wire (wire_of fmt j)"
  "all_fit fmt js \<Longrightarrow> length (enc_elements (wires_of fmt js)) < 2 ^ 32 \<Longrightarrow>
     \<forall>w \<in> set (wires_of fmt js). wf_wire w"
  "members_fit fmt kvs \<Longrightarrow> length (enc_members (members_of fmt kvs)) < 2 ^ 32 \<Longrightarrow>
     \<forall>(k, w) \<in> set (members_of fmt kvs). wf_key k \<and> wf_wire w"
  by (induction fmt j and fmt js and fmt kvs rule: fits_all_fit_members_fit.induct)
    (auto simp: wf_string_wire wf_str_wire wf_mk_key)

section \<open>A library of plain trees\<close>

text \<open>
  An instance of the interface, for the examples: a value is the list of itself and the members
  behind it, each with its key.
\<close>

definition tree_type :: "json \<Rightarrow> ojcValType" where
  "tree_type j = (case j of JNull \<Rightarrow> OJC_NULL | JBool b \<Rightarrow> if b then OJC_TRUE else OJC_FALSE
     | JStr s \<Rightarrow> OJC_STRING | JNum s \<Rightarrow> OJC_NUMBER | JFix i \<Rightarrow> OJC_FIXNUM | JDec d \<Rightarrow> OJC_DECIMAL
     | JWord s \<Rightarrow> OJC_WORD | JArr js \<Rightarrow> OJC_ARRAY | JObj kvs \<Rightarrow> OJC_OBJECT)"

definition tree_text :: "json \<Rightarrow> byte list" where
  "tree_text j = (case j of JStr s \<Rightarrow> s | JNum s \<Rightarrow> s | JWord s \<Rightarrow> s | _ \<Rightarrow> [])"

definition tree_list :: "(byte list \<times> json) list \<Rightarrow> (byte list \<times> json) list option" where
  "tree_list xs = (if xs = [] then None else Some xs)"

definition tree_api :: "(byte list \<times> json) list ojc_api" where
  "tree_api = \<lparr>ojc_type = (\<lambda>v. tree_type (snd (hd v))),
     ojc_str = (\<lambda>v. tree_text (snd (hd v)) @ [0]), ojc_str_len = (\<lambda>v. length (tree_text (snd (hd v)))),
     ojc_number = (\<lambda>v. tree_text (snd (hd v)) @ [0]), ojc_number_len = (\<lambda>v. length (tree_text (snd (hd v)))),
     ojc_int = (\<lambda>v. case snd (hd v) of JFix i \<Rightarrow> i | _ \<Rightarrow> 0),
     ojc_double = (\<lambda>v. case snd (hd v) of JDec d \<Rightarrow> d | _ \<Rightarrow> 0),
     ojc_word = (\<lambda>v. tree_text (snd (hd v)) @ [0]),
     ojc_members = (\<lambda>v. case snd (hd v) of JArr js \<Rightarrow> tree_list (map (Pair []) js) | JObj kvs \<Rightarrow> tree_list kvs | _ \<Rightarrow> None),
     ojc_next = (\<lambda>v. tree_list (tl v)),
     ojc_key = (\<lambda>v. fst (hd v) @ [0]), ojc_key_len = (\<lambda>v. length (fst (hd v)))\<rparr>"

text \<open>No word holds a null.\<close>

fun plain :: "json \<Rightarrow> bool"
  and all_plain :: "json list \<Rightarrow> bool"
  and members_plain :: "(byte list \<times> json) list \<Rightarrow> bool" where
  "plain (JWord s) \<longleftrightarrow> 0 \<notin> set s"
| "plain (JArr js) \<longleftrightarrow> all_plain js"
| "plain (JObj kvs) \<longleftrightarrow> members_plain kvs"
| "plain _ \<longleftrightarrow> True"
| "all_plain [] \<longleftrightarrow> True"
| "all_plain (j # js) \<longleftrightarrow> plain j \<and> all_plain js"
| "members_plain [] \<longleftrightarrow> True"
| "members_plain ((k, j) # kvs) \<longleftrightarrow> plain j \<and> members_plain kvs"

lemma tree_json_at:
  "plain j \<Longrightarrow> json_at tree_api j ((k, j) # r)"
  "all_plain js \<Longrightarrow> elements_at tree_api js (tree_list (map (Pair []) js))"
  "members_plain kvs \<Longrightarrow> members_at tree_api kvs (tree_list kvs)"
  by (induction j and js and kvs arbitrary: k r rule: plain_all_plain_members_plain.induct)
    (auto simp: tree_api_def tree_type_def tree_text_def tree_list_def text_len_def text_null_def)

lemma to_msg_ok:
  assumes "json_at A j v" and "fits fmt j" and "json_fuel j \<le> n"
    and "alloc (8 + length (enc (wire_of fmt j))) = Some m" and "length m = 8 + length (enc (wire_of fmt j))"
  shows "opo_ojc_to_msg alloc err A fmt n (Some v) = Return (err, Some (replicate 8 0 @ enc (wire_of fmt j)))"
proof -
  let ?bs = "enc (wire_of fmt j)"
  have m1: "put m 0 (replicate 8 0) = Some (replicate 8 0 @ drop 8 m, 8)" using assms(5) by (simp add: put_def)
  have "wire_fill A fmt n v (replicate 8 0 @ drop 8 m) 8 = outcome_of (put (replicate 8 0 @ drop 8 m) 8 ?bs)"
    using assms by (intro wire_fill_ok) simp_all
  also have "put (replicate 8 0 @ drop 8 m) 8 ?bs = Some (replicate 8 0 @ ?bs, 8 + length ?bs)"
    using assms(5) put_middle [of "drop 8 m" ?bs "replicate 8 0" "[]"] by simp
  finally show ?thesis
    using m1 wire_size_ok(1) [OF assms(1-3)] assms(4) by (simp add: opo_ojc_to_msg_def add.commute)
qed

section \<open>Properties\<close>

text \<open>
  C8: \<open>opo_ojc_to_msg\<close> returns a message with the id 0 whose value is the encoding of the JSON
  value, without a store outside the memory allocated for it, which it fills to the last byte.
\<close>

theorem ojc_to_msg_correct:
  assumes "json_at A j v" and "fits fmt j" and "json_fuel j \<le> n"
    and "alloc (8 + length (enc (wire_of fmt j))) = Some m" and "length m = 8 + length (enc (wire_of fmt j))"
  shows "opo_ojc_to_msg alloc err A fmt n (Some v) = Return (err, Some (replicate 8 0 @ enc (wire_of fmt j)))"
  using assms by (rule to_msg_ok)

theorem ojc_to_msg_correct_witness:
  "\<exists>fmt. opo_ojc_to_msg (\<lambda>n. Some (replicate n 0xFF)) OPO_ERR_INIT tree_api fmt 5
      (Some [([], JArr [JFix 5, JStr [0x61]])]) =
    Return (OPO_ERR_INIT, Some (replicate 8 0 @ enc (WArr [WInt1 5, WStr1 [0x61]])))"
proof -
  define fmt where "fmt = \<lparr>whole = (\<lambda>_. True), fmt_1f = (\<lambda>_. []), fmt_15g = (\<lambda>_. [])\<rparr>"
  have w: "wire_of fmt (JArr [JFix 5, JStr [0x61]]) = WArr [WInt1 5, WStr1 [0x61]]"
    by (simp add: int_wire_def string_wire_def uuid_of_text_def time_of_text_def str_wire_def)
  have "json_at tree_api (JArr [JFix 5, JStr [0x61]]) [([], JArr [JFix 5, JStr [0x61]])]"
    by (intro tree_json_at) simp
  then show ?thesis
    using ojc_to_msg_correct [of tree_api "JArr [JFix 5, JStr [0x61]]" "[([], JArr [JFix 5, JStr [0x61]])]" fmt 5
        "\<lambda>n. Some (replicate n 0xFF)" _ OPO_ERR_INIT] unfolding w by (intro exI [of _ fmt]) simp
qed

text \<open>
  \<open>opo_ojc_msg_size\<close> is the size \<open>opo_msg_bsize\<close> reads from the message \<open>opo_ojc_to_msg\<close> makes of
  the same value.
\<close>

theorem ojc_msg_size_correct:
  assumes "json_at A j v" and "fits fmt j" and "json_fuel j \<le> n" and "length (enc (wire_of fmt j)) < 2 ^ 32"
  shows "\<exists>k. opo_ojc_msg_size A fmt n (Some v) = Return k \<and>
    opo_msg_bsize (replicate 8 0 @ enc (wire_of fmt j)) 0 = Some k"
proof -
  have "wf_wire (wire_of fmt j)" using assms(2,4) by (rule wf_wire_of)
  then have "opo_msg_bsize (replicate 8 0 @ enc (wire_of fmt j)) 0 = Some (8 + length (enc (wire_of fmt j)))"
    by (rule msg_bsize_enc [of _ "replicate 8 0"]) (simp, rule bytes_at_whole)
  with wire_size_ok(1) [OF assms(1-3)] show ?thesis by (simp add: opo_ojc_msg_size_def)
qed

theorem ojc_msg_size_correct_witness:
  "\<exists>fmt k. opo_ojc_msg_size tree_api fmt 9 (Some [([], JObj [([0x61], JBool True)])]) = Return k \<and>
     opo_msg_bsize (replicate 8 0 @ enc (WObj [(WKey1 [0x61], WBool True)])) 0 = Some k"
proof -
  define fmt where "fmt = \<lparr>whole = (\<lambda>_. True), fmt_1f = (\<lambda>_. []), fmt_15g = (\<lambda>_. [])\<rparr>"
  have w: "wire_of fmt (JObj [([0x61], JBool True)]) = WObj [(WKey1 [0x61], WBool True)]"
    by (simp add: mk_key_def)
  have "json_at tree_api (JObj [([0x61], JBool True)]) [([], JObj [([0x61], JBool True)])]"
    by (intro tree_json_at) simp
  then show ?thesis
    using ojc_msg_size_correct [of tree_api "JObj [([0x61], JBool True)]" _ fmt 9]
    unfolding w by (intro exI [of _ fmt]) simp
qed

end
