(* ===== verification/OpoRead.thy ===== *)
theory OpoRead imports OpoWrite begin

text \<open>
  From a message to JSON, the decoding half of \<^verbatim>\<open>opo.c\<close>.  The library's values are mutable: its
  functions act on a store \<open>'h\<close>, and \<open>ojc_store\<close> states what the code relies on, in terms of a
  view of the store as nodes with their members.
\<close>

section \<open>The JSON library\<close>

text \<open>A string argument is a pointer and a length, which says up to the null when it is 0.\<close>

record ('h, 'v) ojc_maker =
  ojc_ok :: int
  ojc_parse_err :: int
  ojc_type_in :: "'h \<Rightarrow> 'v \<Rightarrow> ojcValType"
  ojc_create_null :: "'h \<Rightarrow> 'h \<times> 'v"
  ojc_create_bool :: "bool \<Rightarrow> 'h \<Rightarrow> 'h \<times> 'v"
  ojc_create_int :: "int64 \<Rightarrow> 'h \<Rightarrow> 'h \<times> 'v"
  ojc_create_str :: "cstr \<Rightarrow> int \<Rightarrow> 'h \<Rightarrow> 'h \<times> 'v"
  ojc_create_double :: "double \<Rightarrow> 'h \<Rightarrow> 'h \<times> 'v"
  ojc_create_object :: "'h \<Rightarrow> 'h \<times> 'v"
  ojc_create_array :: "'h \<Rightarrow> 'h \<times> 'v"
  ojc_object_nappend :: "'v \<Rightarrow> cstr \<Rightarrow> int \<Rightarrow> 'v \<Rightarrow> 'h \<Rightarrow> 'h"
  ojc_array_append :: "'v \<Rightarrow> 'v \<Rightarrow> 'h \<Rightarrow> 'h"

section \<open>The decoder\<close>

text \<open>
  \<open>pstack\<close> is the stack of open containers up to \<open>cur\<close>, the innermost first, each with its \<open>end\<close>;
  \<open>pkey\<close> is \<open>key\<close> with \<open>klen\<close>, both pointing into the message.
\<close>

record 'v parse_ctx =
  ptop :: "'v option"
  pstack :: "('v \<times> ptr) list"
  pkey :: "(ptr \<times> int) option"

type_synonym ('h, 'v) parse_state = "opoErr \<times> 'v parse_ctx \<times> 'h"

definition push_parse_value ::
    "('h, 'v) ojc_maker \<Rightarrow> mem \<Rightarrow> opoErr \<Rightarrow> 'v parse_ctx \<Rightarrow> 'v \<Rightarrow> 'h \<Rightarrow> int \<times> ('h, 'v) parse_state" where
  "push_parse_value A m err pc val h =
     (case pstack pc of
        (parent, _) # _ \<Rightarrow>
          if ojc_type_in A h parent = OJC_OBJECT then
            (case pkey pc of
               None \<Rightarrow> (case opo_err_set err OPO_ERR_PARSE ''missing key'' of (err, c) \<Rightarrow> (c, err, pc, h))
             | Some (key, klen) \<Rightarrow>
                 (OPO_ERR_OK, err, pc\<lparr>pkey := None\<rparr>, ojc_object_nappend A parent (drop key m) klen val h))
          else (OPO_ERR_OK, err, pc, ojc_array_append A parent val h)
      | [] \<Rightarrow> (OPO_ERR_OK, err, pc\<lparr>ptop := Some val\<rparr>, h))"

text \<open>
  The value a scalar branch of the \<open>switch\<close> creates, \<open>None\<close> when \<open>gmtime_r\<close> fails, and the
  pointer behind it.  \<open>val\<close> is behind the tag.
\<close>

definition scalar_ojc ::
    "(cstr \<Rightarrow> double) \<Rightarrow> ('h, 'v) ojc_maker \<Rightarrow> mem \<Rightarrow> ValType \<Rightarrow> ptr \<Rightarrow> (('h \<Rightarrow> 'h \<times> 'v) option \<times> ptr) option" where
  "scalar_ojc strtod A m t val =
     (case t of
        VAL_NULL \<Rightarrow> Some (Some (ojc_create_null A), val)
      | VAL_TRUE \<Rightarrow> Some (Some (ojc_create_bool A True), val)
      | VAL_FALSE \<Rightarrow> Some (Some (ojc_create_bool A False), val)
      | VAL_INT1 \<Rightarrow> do { b \<leftarrow> rd m val; Some (Some (ojc_create_int A (scast b)), val + 1) }
      | VAL_INT2 \<Rightarrow> do { (val, num) \<leftarrow> read_uint16_opo m val; Some (Some (ojc_create_int A (scast num)), val) }
      | VAL_INT4 \<Rightarrow> do { (val, num) \<leftarrow> read_uint32_opo m val; Some (Some (ojc_create_int A (scast num)), val) }
      | VAL_INT8 \<Rightarrow> do { (val, num) \<leftarrow> read_uint64_opo m val; Some (Some (ojc_create_int A num), val) }
      | VAL_STR1 \<Rightarrow> do {
          len \<leftarrow> rd m val;
          let val = val + 1;
          Some (Some (ojc_create_str A (drop val m) (uint len)), val + (unat len + 1))
        }
      | VAL_STR2 \<Rightarrow> do {
          (val, len) \<leftarrow> read_uint16_opo m val;
          Some (Some (ojc_create_str A (drop val m) (uint len)), val + (unat len + 1))
        }
      | VAL_STR4 \<Rightarrow> do {
          (val, len) \<leftarrow> read_uint32_opo m val;
          Some (Some (ojc_create_str A (drop val m) (sint len)), val + unat (len + 1))
        }
      | VAL_DEC \<Rightarrow> do {
          len \<leftarrow> rd m val;
          let val = val + 1;
          buf \<leftarrow> rd_range m val (unat len);
          let d = strtod (buf @ [0]);
          Some (Some (ojc_create_double A d), val + unat len)
        }
      | VAL_UUID \<Rightarrow> do {
          (val, hi) \<leftarrow> read_uint64_opo m val;
          (val, lo) \<leftarrow> read_uint64_opo m val;
          let buf = uuid_text hi lo @ [0];
          Some (Some (ojc_create_str A buf (int UUID_STR_LEN)), val)
        }
      | VAL_TIME \<Rightarrow> do {
          (val, nsec) \<leftarrow> read_uint64_opo m val;
          _ \<leftarrow> time_product nsec;
          Some (case time_string_opo nsec of
              None \<Rightarrow> None
            | Some s \<Rightarrow> let buf = s @ [0] in Some (ojc_create_str A buf (int TIME_STR_LEN)), val)
        }
      | _ \<Rightarrow> Some (None, val))"

text \<open>The branches of an object and of an array, with the function that creates one.\<close>

definition open_ojc ::
    "('h, 'v) ojc_maker \<Rightarrow> mem \<Rightarrow> ('h \<Rightarrow> 'h \<times> 'v) \<Rightarrow> ('h, 'v) parse_state \<Rightarrow> ptr \<Rightarrow>
     (('h, 'v) parse_state \<times> ptr) option" where
  "open_ojc A m create s val =
     (case s of (err, pc, h) \<Rightarrow>
        if OPO_MSG_MAX_DEPTH \<le> length (pstack pc) then
          Some ((err_set err (ojc_parse_err A) ''too deeply nested'', pc, h), val)
        else
          case create h of (h, obj) \<Rightarrow> do {
            (val, size) \<leftarrow> read_uint32_opo m val;
            case push_parse_value A m err pc obj h of (c, err, pc, h) \<Rightarrow>
              Some ((err, if OPO_ERR_OK = c then pc\<lparr>pstack := (obj, val + unat size) # pstack pc\<rparr> else pc, h), val)
          })"

text \<open>One round of the loop, behind the tag.\<close>

definition to_ojc_item ::
    "(cstr \<Rightarrow> double) \<Rightarrow> ('h, 'v) ojc_maker \<Rightarrow> mem \<Rightarrow> ValType option \<Rightarrow> ('h, 'v) parse_state \<Rightarrow> ptr \<Rightarrow>
     (('h, 'v) parse_state \<times> ptr) option" where
  "to_ojc_item strtod A m t s val =
     (case s of (err, pc, h) \<Rightarrow>
      case t of
        None \<Rightarrow> Some ((err_set err (ojc_parse_err A) ''corrupt message format'', pc, h), val)
      | Some t \<Rightarrow>
          if t = VAL_KEY1 then do {
            len \<leftarrow> rd m val;
            let val = val + 1;
            Some ((err, pc\<lparr>pkey := Some (val, uint len)\<rparr>, h), val + (unat len + 1))
          }
          else if t = VAL_KEY2 then do {
            (val, len) \<leftarrow> read_uint16_opo m val;
            Some ((err, pc\<lparr>pkey := Some (val, uint len)\<rparr>, h), val + (unat len + 1))
          }
          else if t = VAL_OBJ then open_ojc A m (ojc_create_object A) (err, pc, h) val
          else if t = VAL_ARRAY then open_ojc A m (ojc_create_array A) (err, pc, h) val
          else do {
            (create, val) \<leftarrow> scalar_ojc strtod A m t val;
            case create of
              None \<Rightarrow> Some ((err_set err (ojc_parse_err A) ''invalid time'', pc, h), val)
            | Some create \<Rightarrow> (case create h of (h, v) \<Rightarrow>
                Some (snd (push_parse_value A m err pc v h), val))
          })"

definition pop_ojc :: "'v parse_ctx \<Rightarrow> ptr \<Rightarrow> 'v parse_ctx" where
  "pop_ojc pc val =
     (case pstack pc of
        (_, e) # st \<Rightarrow> if e \<le> val then pc\<lparr>pstack := st\<rparr> else pc
      | [] \<Rightarrow> pc)"

lemma scalar_ojc_le: "scalar_ojc strtod A m t val = Some (c, val') \<Longrightarrow> val \<le> val'"
  unfolding scalar_ojc_def codec_copies
  by (cases t) (auto split: option.splits simp: bind_eq_Some_conv u16.read_iff u32.read_iff u64.read_iff)

lemma open_ojc_le: "open_ojc A m create s val = Some (s', val') \<Longrightarrow> val \<le> val'"
  by (cases s; cases "create (snd (snd s))"; cases "push_parse_value A m (fst s) (fst (snd s)) (snd (create (snd (snd s)))) (fst (create (snd (snd s))))")
    (auto simp: open_ojc_def codec_copies bind_eq_Some_conv u32.read_iff split: if_splits)

lemma to_ojc_item_le: "to_ojc_item strtod A m t s val = Some (s', val') \<Longrightarrow> val \<le> val'"
proof (cases "\<exists>u. t = Some u \<and> u \<notin> {VAL_KEY1, VAL_KEY2, VAL_OBJ, VAL_ARRAY}")
  case True
  then obtain u where t: "t = Some u" "u \<notin> {VAL_KEY1, VAL_KEY2, VAL_OBJ, VAL_ARRAY}" by blast
  assume "to_ojc_item strtod A m t s val = Some (s', val')"
  with t show ?thesis
    by (cases s) (auto simp: to_ojc_item_def bind_eq_Some_conv case_prod_beta split: option.splits
        dest: scalar_ojc_le)
next
  case False
  assume "to_ojc_item strtod A m t s val = Some (s', val')"
  with False show ?thesis
    by (cases s) (auto simp: to_ojc_item_def codec_copies bind_eq_Some_conv u16.read_iff
        split: option.splits dest: open_ojc_le)
qed

text \<open>Every round reads a tag inside the message, so the loop ends on any bytes.\<close>

function to_ojc_loop ::
    "(cstr \<Rightarrow> double) \<Rightarrow> ('h, 'v) ojc_maker \<Rightarrow> mem \<Rightarrow> ptr \<Rightarrow> ptr \<Rightarrow> ('h, 'v) parse_state \<Rightarrow>
     ('h, 'v) parse_state option" where
  "to_ojc_loop strtod A m fin val s =
     (if val < fin then
        (case s of (err, pc, h) \<Rightarrow>
          let pc = pop_ojc pc val in do {
            t \<leftarrow> rd m val;
            (s, val) \<leftarrow> to_ojc_item strtod A m (switch_tag t) (err, pc, h) (val + 1);
            if ojc_ok A \<noteq> ecode (fst s) then Some s
            else to_ojc_loop strtod A m fin val s
          })
      else Some s)"
  by pat_completeness auto

termination
proof (relation "measure (\<lambda>(strtod, A, m, fin, val, s). length m - val)", goal_cases)
  case 1
  show ?case by simp
next
  case 2
  then show ?case by (auto dest!: rd_Some_less to_ojc_item_le)
qed

declare to_ojc_loop.simps [simp del]

definition opo_val_to_ojc ::
    "(cstr \<Rightarrow> double) \<Rightarrow> ('h, 'v) ojc_maker \<Rightarrow> mem \<Rightarrow> opoErr \<Rightarrow> ptr \<Rightarrow> 'h \<Rightarrow> (opoErr \<times> 'h \<times> 'v option) option" where
  "opo_val_to_ojc strtod A m err val h = do {
     k \<leftarrow> opo_val_bsize m (Some val);
     let ctx = \<lparr>ptop = None, pstack = [], pkey = None\<rparr>;
     (err, ctx, h) \<leftarrow> to_ojc_loop strtod A m (val + k) val (err, ctx, h);
     Some (err, h, ptop ctx)
   }"

definition opo_msg_to_ojc ::
    "(cstr \<Rightarrow> double) \<Rightarrow> ('h, 'v) ojc_maker \<Rightarrow> mem \<Rightarrow> opoErr \<Rightarrow> ptr \<Rightarrow> 'h \<Rightarrow> (opoErr \<times> 'h \<times> 'v option) option" where
  "opo_msg_to_ojc strtod A m err msg h = opo_val_to_ojc strtod A m err (msg + 8) h"

end
