(* ===== verification/OpoReadSpec.thy ===== *)
theory OpoReadSpec imports OpoRead begin

text \<open>
  What \<open>opo_val_to_ojc\<close> builds: the JSON value of an encoded one, provided no more containers end
  at the same place than the loop closes; and the whole way from JSON to a message and back.
\<close>

section \<open>The store of the JSON library\<close>

text \<open>The nodes of the store; the members of a container are nodes again.\<close>

datatype 'v node = Leaf json | NArr "'v list" | NObj "(byte list \<times> 'v) list"






text \<open>The JSON value a node stands for\<close>

fun node_at :: "('v \<Rightarrow> 'v node option) \<Rightarrow> json \<Rightarrow> 'v \<Rightarrow> bool"
  and nodes_at :: "('v \<Rightarrow> 'v node option) \<Rightarrow> json list \<Rightarrow> 'v list \<Rightarrow> bool"
  and fields_at :: "('v \<Rightarrow> 'v node option) \<Rightarrow> (byte list \<times> json) list \<Rightarrow> (byte list \<times> 'v) list \<Rightarrow> bool" where
  "node_at M (JArr js) v \<longleftrightarrow> (\<exists>vs. M v = Some (NArr vs) \<and> nodes_at M js vs)"
| "node_at M (JObj kjs) v \<longleftrightarrow> (\<exists>kvs. M v = Some (NObj kvs) \<and> fields_at M kjs kvs)"
| "node_at M j v \<longleftrightarrow> M v = Some (Leaf j)"
| "nodes_at M [] vs \<longleftrightarrow> vs = []"
| "nodes_at M (j # js) vs \<longleftrightarrow> (\<exists>u us. vs = u # us \<and> node_at M j u \<and> nodes_at M js us)"
| "fields_at M [] kvs \<longleftrightarrow> kvs = []"
| "fields_at M ((k, j) # kjs) kvs \<longleftrightarrow> (\<exists>u us. kvs = (k, u) # us \<and> node_at M j u \<and> fields_at M kjs us)"



section \<open>The JSON value of an encoded one\<close>

fun json_of :: "(cstr \<Rightarrow> double) \<Rightarrow> wire \<Rightarrow> json"
  and jsons_of :: "(cstr \<Rightarrow> double) \<Rightarrow> wire list \<Rightarrow> json list"
  and fields_of :: "(cstr \<Rightarrow> double) \<Rightarrow> (wkey \<times> wire) list \<Rightarrow> (byte list \<times> json) list" where
  "json_of strtod WNull = JNull"
| "json_of strtod (WBool b) = JBool b"
| "json_of strtod (WInt1 n) = JFix (scast n)"
| "json_of strtod (WInt2 n) = JFix (scast n)"
| "json_of strtod (WInt4 n) = JFix (scast n)"
| "json_of strtod (WInt8 n) = JFix n"
| "json_of strtod (WStr1 s) = JStr s"
| "json_of strtod (WStr2 s) = JStr s"
| "json_of strtod (WStr4 s) = JStr s"
| "json_of strtod (WDec s) = JDec (strtod (s @ [0]))"
| "json_of strtod (WUuid hi lo) = JStr (uuid_text hi lo)"
| "json_of strtod (WTime t) = JStr (the (time_string_opo t))"
| "json_of strtod (WObj kvs) = JObj (fields_of strtod kvs)"
| "json_of strtod (WArr ws) = JArr (jsons_of strtod ws)"
| "jsons_of strtod [] = []"
| "jsons_of strtod (w # ws) = json_of strtod w # jsons_of strtod ws"
| "fields_of strtod [] = []"
| "fields_of strtod ((k, w) # kvs) = (key_bytes k, json_of strtod w) # fields_of strtod kvs"




section \<open>One item\<close>











text \<open>The containers above \<open>st\<close> that have ended; at most one is closed before an item is read.\<close>

definition ended :: "('v \<times> ptr) list \<Rightarrow> ptr \<Rightarrow> bool" where
  "ended junk p \<longleftrightarrow> (\<forall>(v, e) \<in> set junk. e \<le> p)"








section \<open>The loop over a value\<close>


lemma ended_mono: "ended junk p \<Longrightarrow> p \<le> q \<Longrightarrow> ended junk q"
  by (fastforce simp: ended_def)







section \<open>A store of nodes in the order of their creation\<close>

text \<open>An instance of the interface, for the examples: a value is the index of its node.\<close>

definition arg_text :: "cstr \<Rightarrow> int \<Rightarrow> byte list" where
  "arg_text str n = (if 0 \<ge> n then takeWhile (\<lambda>b. b \<noteq> 0) str else take (nat n) str)"

definition node_new :: "nat node \<Rightarrow> nat node list \<Rightarrow> nat node list \<times> nat" where
  "node_new x h = (h @ [x], length h)"

definition node_view :: "nat node list \<Rightarrow> nat \<Rightarrow> nat node option" where
  "node_view h v = (if v < length h then Some (h ! v) else None)"

definition node_maker :: "(nat node list, nat) ojc_maker" where
  "node_maker = \<lparr>ojc_ok = OPO_ERR_OK, ojc_parse_err = OPO_ERR_PARSE,
     ojc_type_in = (\<lambda>h v. case h ! v of NArr vs \<Rightarrow> OJC_ARRAY | NObj kvs \<Rightarrow> OJC_OBJECT | Leaf j \<Rightarrow> tree_type j),
     ojc_create_null = node_new (Leaf JNull), ojc_create_bool = (\<lambda>b. node_new (Leaf (JBool b))),
     ojc_create_int = (\<lambda>i. node_new (Leaf (JFix i))),
     ojc_create_str = (\<lambda>str n. node_new (Leaf (JStr (arg_text str n)))),
     ojc_create_double = (\<lambda>d. node_new (Leaf (JDec d))),
     ojc_create_object = node_new (NObj []), ojc_create_array = node_new (NArr []),
     ojc_object_nappend = (\<lambda>v str n c h.
       case h ! v of NObj kvs \<Rightarrow> h[v := NObj (kvs @ [(arg_text str n, c)])] | _ \<Rightarrow> h),
     ojc_array_append = (\<lambda>v c h. case h ! v of NArr vs \<Rightarrow> h[v := NArr (vs @ [c])] | _ \<Rightarrow> h)\<rparr>"

lemma arg_text: "text_arg str n s \<Longrightarrow> arg_text str n = s"
proof -
  assume t: "text_arg str n s"
  show ?thesis
  proof (cases "0 \<ge> n")
    case True
    with t have "0 \<notin> set s" "take (length s + 1) str = s @ [0]" by (simp_all add: text_arg_def)
    then have "str = s @ 0 # drop (length s + 1) str"
      by (metis append.assoc append_Cons append_Nil append_take_drop_id)
    with \<open>0 \<notin> set s\<close> have "takeWhile (\<lambda>b. b \<noteq> 0) str = s"
      by (metis (mono_tags, lifting) takeWhile_append2 takeWhile.simps(2) append_Nil2)
    with True show ?thesis by (simp add: arg_text_def)
  qed (use t in \<open>simp add: text_arg_def arg_text_def\<close>)
qed




section \<open>From JSON to a message and back\<close>







section \<open>Properties\<close>






text \<open>
  The loop closes one container for each item, so a value behind two containers that end at
  the same place is put into the wrong one: the message of \<open>[[[a]], b]\<close> is read as \<open>[[[a], b]]\<close>.
\<close>

theorem to_ojc_wrong_parent:
  "json_of (\<lambda>_. 0) (WArr [WArr [WArr [WInt1 a]], WInt1 b]) = JArr [JArr [JArr [JFix (scast a)]], JFix (scast b)] \<and>
   (\<exists>h'. opo_val_to_ojc (\<lambda>_. 0) node_maker (enc (WArr [WArr [WArr [WInt1 a]], WInt1 b])) OPO_ERR_INIT 0 [] =
       Some (OPO_ERR_INIT, h', Some 0) \<and>
     node_at (node_view h') (JArr [JArr [JArr [JFix (scast a)], JFix (scast b)]]) 0)"
proof -
  have "opo_val_to_ojc (\<lambda>_. 0) node_maker (enc (WArr [WArr [WArr [WInt1 a]], WInt1 b])) OPO_ERR_INIT 0 [] =
     Some (OPO_ERR_INIT, [NArr [1], NArr [2, 4], NArr [3], Leaf (JFix (scast a)), Leaf (JFix (scast b))], Some 0)"
    by code_simp
  then show ?thesis by (simp add: node_view_def)
qed

end
