(* ===== verification/Client.thy ===== *)
theory Client imports Queue Builder begin

text \<open>
  The client, \<^verbatim>\<open>client.h\<close> and \<^verbatim>\<open>client.c\<close>: its struct, the ring of queries, and the functions of the
  calling threads and of the receiving one, each as one thread runs it while the others rest.  A
  pointer to a query is its index in the ring \<open>q\<close>, a message is the object \<open>malloc\<close> returned for
  it, and \<open>None\<close> is an access outside an object, a call of a NULL function or a wait nobody ends.
  What the code does to the outside is kept beside the struct: the calls of the callbacks in
  \<open>calls\<close> and the bytes written to the socket in \<open>sent\<close>.
\<close>

section \<open>The data\<close>

datatype QueryState = Q_CLEAR | Q_SENT | Q_READY | Q_TAKEN

text \<open>A callback is a name \<open>'cb\<close> and a context an address \<open>'x\<close>, both \<open>None\<close> when NULL.\<close>

record ('cb, 'x) query =
  q_id :: uint64
  q_cb :: "'cb option"
  q_ctx :: "'x option"
  q_when :: double
  q_state :: QueryState
  q_resp :: "mem option"

datatype ('cb, 'x) event =
    Status bool int string
  | Response 'cb uint64 "mem option" "'x option"

text \<open>
  \<open>has_status\<close> tells whether \<open>status_callback\<close> is set, \<open>on_query\<close> is \<open>query_callback\<close>, and
  \<open>wake_bytes\<close> counts the bytes in the pipe from \<open>c_wsock\<close> to \<open>c_rsock\<close>.  \<open>take_lock\<close>, which no
  function uses, and the thread are left out.
\<close>

record ('cb, 'x) client =
  active :: bool
  sock :: int
  timeout :: double
  next_id :: uint64
  has_status :: bool
  on_query :: "'cb option"
  query_ctx :: "'x option"
  async_queue :: "mem queue"
  pending :: int64
  ring :: "('cb, 'x) query list"
  pending_max :: nat
  head :: nat
  tail :: nat
  on_deck :: nat
  head_lock :: bool
  tail_lock :: bool
  waiting :: int
  c_rsock :: int
  c_wsock :: int
  wake_bytes :: nat
  sent :: mem
  calls :: "('cb, 'x) event list"

type_synonym ('cb, 'x) client_op = "('cb, 'x) client \<Rightarrow> ('cb, 'x) client option"

definition EAGAIN :: int where "EAGAIN = 11"

text \<open>\<open>0.0 < d\<close> and \<open>0.0 <= d\<close> on the bits of a double; both are false for a NaN.\<close>

definition positive :: "double \<Rightarrow> bool" where
  "positive d \<longleftrightarrow> d \<noteq> 0 \<and> d \<le> 0x7FF0000000000000"

definition not_negative :: "double \<Rightarrow> bool" where
  "not_negative d \<longleftrightarrow> d \<le> 0x7FF0000000000000 \<or> d = 0x8000000000000000"

section \<open>Queries of the ring\<close>

definition query_at :: "('cb, 'x) client \<Rightarrow> nat \<Rightarrow> ('cb, 'x) query option" where
  "query_at c i = (if i < length (ring c) then Some (ring c ! i) else None)"

definition set_query :: "nat \<Rightarrow> ('cb, 'x) query \<Rightarrow> ('cb, 'x) client \<Rightarrow> ('cb, 'x) client" where
  "set_query i q c = c\<lparr>ring := (ring c)[i := q]\<rparr>"

definition query_set_state :: "('cb, 'x) query \<Rightarrow> QueryState \<Rightarrow> ('cb, 'x) query" where
  "query_set_state q state = q\<lparr>q_state := state\<rparr>"

text \<open>The pointer moved on, back to the start of the ring at its end.\<close>

definition ring_next :: "('cb, 'x) client \<Rightarrow> nat \<Rightarrow> nat" where
  "ring_next c i = (if length (ring c) \<le> i + 1 then 0 else i + 1)"

section \<open>Callbacks\<close>

definition call_status :: "bool \<Rightarrow> int \<Rightarrow> string \<Rightarrow> ('cb, 'x) client_op" where
  "call_status connected code msg c =
     (if has_status c then Some (c\<lparr>calls := calls c @ [Status connected code msg]\<rparr>) else None)"

text \<open>The formatted text goes through a buffer of 256 bytes.\<close>

definition status_callback :: "bool \<Rightarrow> int \<Rightarrow> string \<Rightarrow> ('cb, 'x) client_op" where
  "status_callback connected code text =
     call_status connected code (c_string (fst (vsnprintf (replicate 256 (CHR 0x00)) text)))"

text \<open>The callers that test \<open>status_callback\<close> for NULL\<close>

definition notify_status :: "bool \<Rightarrow> int \<Rightarrow> string \<Rightarrow> ('cb, 'x) client \<Rightarrow> ('cb, 'x) client" where
  "notify_status connected code msg c =
     (if has_status c then c\<lparr>calls := calls c @ [Status connected code msg]\<rparr> else c)"

section \<open>Waiting\<close>

text \<open>
  With no pipe it only sleeps; otherwise it empties the pipe.  \<open>waiting\<close> is what it was again
  afterwards.
\<close>

definition wait_for_ready :: "('cb, 'x) client \<Rightarrow> ('cb, 'x) client" where
  "wait_for_ready c =
     (if 0 = c_rsock c then c
      else let c = c\<lparr>waiting := waiting c + 1\<rparr>;
               c = (if 0 < wake_bytes c then c\<lparr>wake_bytes := 0\<rparr> else c)
           in c\<lparr>waiting := waiting c - 1\<rparr>)"

definition wake_ready :: "('cb, 'x) client \<Rightarrow> ('cb, 'x) client" where
  "wake_ready c =
     (if 0 = c_wsock c \<or> 0 \<ge> waiting c then c
      else c\<lparr>wake_bytes := (if wake_bytes c < PIPE_CAPACITY then wake_bytes c + 1 else wake_bytes c)\<rparr>)"

text \<open>
  The query taken, if any.  Waiting for the head to be ready ends when the timeout is used up, as
  no other thread makes it ready; every round of it leaves the client as the first one does.
\<close>

definition take_next_ready :: "('cb, 'x) client \<Rightarrow> double \<Rightarrow> (('cb, 'x) client \<times> nat option) option" where
  "take_next_ready c wait =
     (if head_lock c then None
      else do {
        h \<leftarrow> query_at c (head c);
        if Q_READY \<noteq> q_state h then
          (if positive wait then Some (wait_for_ready c, None) else Some (c, None))
        else do {
          let q = head c;
          let c = c\<lparr>head := ring_next c (head c)\<rparr>;
          Some (set_query q (query_set_state h Q_TAKEN) c, Some q)
        }
      })"

section \<open>Responses\<close>

text \<open>
  The search goes round the ring from \<open>on_deck\<close> to \<open>tail\<close>; \<open>looped\<close> ends it when it misses the tail.
\<close>

function pending_loop :: "('cb, 'x) client \<Rightarrow> uint64 \<Rightarrow> nat \<Rightarrow> bool \<Rightarrow> nat option option" where
  "pending_loop c mid q looped =
     (case query_at c q of
        None \<Rightarrow> None
      | Some r \<Rightarrow>
          if q_id r = mid then Some (Some q)
          else let q = q + 1 in
            if length (ring c) \<le> q then
              (if looped then Some None
               else let q = 0 in if q \<noteq> tail c then pending_loop c mid q True else Some None)
            else if q \<noteq> tail c then pending_loop c mid q looped else Some None)"
  by pat_completeness auto

termination
  by (relation "measure (\<lambda>(c, mid, q, looped). (if looped then 0 else length (ring c)) + (length (ring c) - q))")
    (auto simp: query_at_def split: if_splits)

declare pending_loop.simps [simp del]

definition pending_find :: "('cb, 'x) client \<Rightarrow> uint64 \<Rightarrow> nat option option" where
  "pending_find c mid = pending_loop c mid (on_deck c) False"

text \<open>A C string literal\<close>

definition c_text :: "string \<Rightarrow> cstr" where
  "c_text s = map (\<lambda>c. of_char c) s @ [0]"

text \<open>The message made up for a query without a response; the codes of the builder are ignored.\<close>

definition lost_message :: "allocator \<Rightarrow> uint64 \<Rightarrow> mem option option" where
  "lost_message alloc mid = do {
     let b = \<lparr>bhead = None, bend = 0, bcur = 0, bown = False, btop = 0, bstack = []\<rparr>;
     (b, err, _) \<leftarrow> opo_builder_init alloc OPO_ERR_INIT b (Some (replicate 1024 0)) 1024;
     (b, err, _) \<leftarrow> opo_builder_push_object alloc err b None 0;
     (b, err, _) \<leftarrow> opo_builder_push_int alloc err b (word_of_int OPO_ERR_LOST) (Some (c_text ''code'')) 4;
     (b, err, _) \<leftarrow> opo_builder_push_string alloc err b (c_text ''no response'') (- 1) (Some (c_text ''error'')) 5;
     (b, _) \<leftarrow> opo_builder_finish b;
     m \<leftarrow> bhead b;
     m \<leftarrow> opo_msg_set_id m 0 mid;
     (_, msg) \<leftarrow> opo_builder_take alloc (b\<lparr>bhead := Some m\<rparr>);
     Some msg
   }"

text \<open>The query \<open>on_deck\<close> gets the made up message, unless nobody is called for it.\<close>

definition lose_query :: "allocator \<Rightarrow> uint64 \<Rightarrow> ('cb, 'x) client_op" where
  "lose_query alloc mid c = do {
     r \<leftarrow> query_at c (on_deck c);
     case q_cb r of
       None \<Rightarrow> Some c
     | Some _ \<Rightarrow> do {
         msg \<leftarrow> lost_message alloc mid;
         Some (set_query (on_deck c) (query_set_state (r\<lparr>q_resp := msg\<rparr>) Q_READY) c)
       }
   }"

lemma lose_query_keeps:
  "lose_query alloc mid c = Some c' \<Longrightarrow> length (ring c') = length (ring c) \<and> on_deck c' = on_deck c"
  by (auto simp: lose_query_def set_query_def bind_eq_Some_conv split: option.splits)

definition step_on_deck :: "('cb, 'x) client \<Rightarrow> ('cb, 'x) client" where
  "step_on_deck c = c\<lparr>on_deck := ring_next c (on_deck c)\<rparr>"

function lose_until :: "allocator \<Rightarrow> uint64 \<Rightarrow> nat \<Rightarrow> ('cb, 'x) client_op" where
  "lose_until alloc mid q c =
     (if q = on_deck c then Some c
      else if length (ring c) \<le> q then None
      else do {
        c \<leftarrow> lose_query alloc mid c;
        lose_until alloc mid q (step_on_deck c)
      })"
  by pat_completeness auto

termination
proof (relation "measure (\<lambda>(alloc, mid, q, c).
    if on_deck c \<le> q then q - on_deck c else q + length (ring c) - on_deck c)", goal_cases)
  case 1
  show ?case by simp
next
  case (2 alloc mid q c c')
  have "on_deck c < length (ring c)"
    using 2(3) by (auto simp: lose_query_def query_at_def bind_eq_Some_conv split: if_splits)
  with lose_query_keeps [OF 2(3)] 2(1,2) show ?case by (auto simp: step_on_deck_def ring_next_def)
qed

declare lose_until.simps [simp del]

text \<open>The response is stored, if the query waits for one, and \<open>on_deck\<close> moves on.\<close>

definition store_response :: "uint64 \<Rightarrow> mem \<Rightarrow> nat \<Rightarrow> ('cb, 'x) client_op" where
  "store_response mid msg q c = do {
     r \<leftarrow> query_at c q;
     if Q_SENT \<noteq> q_state r then
       status_callback True OPO_ERR_TOO_MANY (''Duplicate response to query '' @ dec_text (unat mid) @ ''.'') c
     else do {
       let c = set_query q (query_set_state (r\<lparr>q_resp := Some msg\<rparr>) Q_READY) c;
       let c = step_on_deck c;
       Some (wake_ready c)
     }
   }"

definition process_msg :: "allocator \<Rightarrow> mem \<Rightarrow> ('cb, 'x) client_op" where
  "process_msg alloc msg c = do {
     mid \<leftarrow> opo_msg_id msg 0;
     d \<leftarrow> query_at c (on_deck c);
     found \<leftarrow> (if mid \<noteq> q_id d then pending_find c mid else Some (Some (on_deck c)));
     case found of
       None \<Rightarrow> status_callback True OPO_ERR_NOT_FOUND (''Pending query '' @ dec_text (unat mid) @ '' not found.'') c
     | Some q \<Rightarrow> do {
         c \<leftarrow> lose_until alloc mid q c;
         store_response mid msg q c
       }
   }"

section \<open>The receiving thread\<close>

text \<open>
  \<open>buf\<close> holds the \<open>bcnt\<close> bytes kept from earlier rounds; \<open>part\<close> is the message being filled, with
  the \<open>mcnt\<close> bytes it has and the \<open>msize\<close> it will have; \<open>incoming\<close> is what the server has sent and
  the socket still holds.
\<close>

record receiver =
  buf :: mem
  part :: "(mem \<times> nat) option"
  incoming :: mem

definition BUF_SIZE :: nat where "BUF_SIZE = 4096"

text \<open>What one round sees: the result of \<open>poll\<close>, of \<open>recv\<close> when there is input, and the events.\<close>

datatype reception = Received nat | Recv_Failed int

datatype round =
    Poll_Failed int
  | Poll_Quiet
  | Poll_Event "reception option" bool bool bool

text \<open>\<open>recv\<close> hands over at most \<open>n\<close> bytes, as many as there are and as there is room for.\<close>

definition recv :: "nat \<Rightarrow> nat \<Rightarrow> receiver \<Rightarrow> mem \<times> receiver" where
  "recv n room r = (let cnt = min n room in (take cnt (incoming r), r\<lparr>incoming := drop cnt (incoming r)\<rparr>))"

definition deliver :: "allocator \<Rightarrow> mem \<Rightarrow> ('cb, 'x) client_op" where
  "deliver alloc msg c =
     (case on_query c of
        None \<Rightarrow> process_msg alloc msg c
      | Some _ \<Rightarrow> do { q \<leftarrow> queue_push (async_queue c) msg; Some (c\<lparr>async_queue := q\<rparr>) })"

lemma opo_msg_bsize_ge: "opo_msg_bsize m p = Some n \<Longrightarrow> 8 \<le> n"
  by (auto simp: opo_msg_bsize_def bind_eq_Some_conv)

text \<open>The loop over the messages in the buffer; 8 bytes of id, 1 of type and 4 of length make 13.\<close>

function take_msgs ::
    "allocator \<Rightarrow> ('cb, 'x) client \<Rightarrow> receiver \<Rightarrow> (('cb, 'x) client \<times> receiver) option" where
  "take_msgs alloc c r =
     (if 13 \<le> length (buf r) then do {
        sz \<leftarrow> opo_msg_bsize (buf r) 0;
        case alloc sz of
          None \<Rightarrow> Some (notify_status True OPO_ERR_MEMORY
            (''failed to allocate memory for message of size '' @ dec_text sz @ ''.'') c, r)
        | Some _ \<Rightarrow>
            if sz \<le> length (buf r) then do {
              let msg = take sz (buf r);
              c \<leftarrow> deliver alloc msg c;
              take_msgs alloc c (r\<lparr>buf := drop sz (buf r)\<rparr>)
            }
            else Some (c, r\<lparr>buf := [], part := Some (buf r, sz)\<rparr>)
      }
      else Some (c, r))"
  by pat_completeness auto

termination
  by (relation "measure (\<lambda>(alloc, c, r). length (buf r))") (auto dest!: opo_msg_bsize_ge)

declare take_msgs.simps [simp del]

definition close_sock :: "('cb, 'x) client \<Rightarrow> ('cb, 'x) client" where
  "close_sock c = c\<lparr>sock := 0\<rparr>"

definition read_failed :: "(int \<Rightarrow> string) \<Rightarrow> int \<Rightarrow> string" where
  "read_failed strerror errno = ''read failed. '' @ strerror errno @ ''.''"

definition on_input ::
    "allocator \<Rightarrow> (int \<Rightarrow> string) \<Rightarrow> reception \<Rightarrow> ('cb, 'x) client \<Rightarrow> receiver \<Rightarrow>
     (('cb, 'x) client \<times> receiver) option" where
  "on_input alloc strerror i c r =
     (case part r of
        None \<Rightarrow>
          (case i of
             Recv_Failed errno \<Rightarrow>
               Some (if active c then notify_status False errno ''read failed'' c else c, r)
           | Received n \<Rightarrow>
               case recv n (BUF_SIZE - length (buf r)) r of (bs, r) \<Rightarrow>
                 if bs = [] then
                   let c = (if active c \<and> 0 < sock c then notify_status False OPO_ERR_READ ''connection closed'' c else c)
                   in Some (close_sock c, r)
                 else take_msgs alloc c (r\<lparr>buf := buf r @ bs\<rparr>))
      | Some (msg, msize) \<Rightarrow>
          (case i of
             Recv_Failed errno \<Rightarrow>
               Some (close_sock (notify_status False errno (read_failed strerror errno) c), r)
           | Received n \<Rightarrow>
               case recv n (msize - length msg) r of (bs, r) \<Rightarrow>
                 let msg = msg @ bs in
                 if msize = length msg then do { c \<leftarrow> deliver alloc msg c; Some (c, r\<lparr>part := None\<rparr>) }
                 else Some (c, r\<lparr>part := Some (msg, msize)\<rparr>)))"

definition on_hangup ::
    "(int \<Rightarrow> string) \<Rightarrow> int \<Rightarrow> bool \<Rightarrow> bool \<Rightarrow> bool \<Rightarrow> ('cb, 'x) client \<Rightarrow> receiver \<Rightarrow> ('cb, 'x) client" where
  "on_hangup strerror errno pollerr pollhup pollnval c r =
     (if pollerr \<or> pollhup \<or> pollnval then
        if buf r = [] \<and> part r = None then
          close_sock (if active c then notify_status False OPO_ERR_OK ''connection closed'' c else c)
        else if pollhup \<or> pollnval then
          close_sock (notify_status False OPO_ERR_READ ''closed with outstanding responses'' c)
        else close_sock (notify_status False errno (''socket error. '' @ strerror errno @ ''.'') c)
      else c)"

text \<open>One round of the loop; the flag says whether it goes on.  \<open>errno\<close> is its value at the hang-up.\<close>

definition recv_round ::
    "allocator \<Rightarrow> (int \<Rightarrow> string) \<Rightarrow> int \<Rightarrow> round \<Rightarrow> ('cb, 'x) client \<Rightarrow> receiver \<Rightarrow>
     (bool \<times> ('cb, 'x) client \<times> receiver) option" where
  "recv_round alloc strerror errno e c r =
     (case e of
        Poll_Failed i \<Rightarrow>
          if EAGAIN = i then Some (True, c, r)
          else Some (False, notify_status False i ''connection polling error'' c, r)
      | Poll_Quiet \<Rightarrow> Some (True, c, r)
      | Poll_Event i pollerr pollhup pollnval \<Rightarrow> do {
          (c, r) \<leftarrow> (case i of Some i \<Rightarrow> on_input alloc strerror i c r | None \<Rightarrow> Some (c, r));
          Some (True, on_hangup strerror errno pollerr pollhup pollnval c r, r)
        })"

text \<open>The loop over the rounds the outside gives; the thread starts with nothing received.\<close>

primrec recv_rounds ::
    "allocator \<Rightarrow> (int \<Rightarrow> string) \<Rightarrow> int \<Rightarrow> round list \<Rightarrow> ('cb, 'x) client \<Rightarrow> receiver \<Rightarrow>
     (('cb, 'x) client \<times> receiver) option" where
  "recv_rounds alloc strerror errno [] c r = Some (c, r)"
| "recv_rounds alloc strerror errno (e # es) c r =
     (if active c then do {
        (go, c, r) \<leftarrow> recv_round alloc strerror errno e c r;
        if go then recv_rounds alloc strerror errno es c r else Some (c, r)
      }
      else Some (c, r))"

definition recv_loop ::
    "allocator \<Rightarrow> (int \<Rightarrow> string) \<Rightarrow> int \<Rightarrow> round list \<Rightarrow> mem \<Rightarrow> ('cb, 'x) client \<Rightarrow>
     (('cb, 'x) client \<times> receiver) option" where
  "recv_loop alloc strerror errno rounds stream c =
     recv_rounds alloc strerror errno rounds c \<lparr>buf = [], part = None, incoming = stream\<rparr>"

section \<open>Queries\<close>

text \<open>
  \<open>write\<close> on the socket: how many bytes it takes, with the \<open>errno\<close> of a failure.  Whatever is not
  the whole message is an error, also a part of it, which stays sent.
\<close>

type_synonym writer = "mem \<Rightarrow> int \<times> int"

definition send_query ::
    "writer \<Rightarrow> (int \<Rightarrow> string) \<Rightarrow> opoErr \<Rightarrow> mem \<Rightarrow> ('cb, 'x) client \<Rightarrow> (opoErr \<times> ('cb, 'x) client) option" where
  "send_query wr strerror err msg c =
     (case wr msg of (n, errno) \<Rightarrow>
        let c = c\<lparr>sent := sent c @ take (nat n) msg\<rparr> in
        if int (length msg) \<noteq> n then do {
          (err, _) \<leftarrow> opo_err_no strerror errno err (Some ''write failed'');
          Some (err, c)
        }
        else Some (err, c))"

text \<open>
  The result is the client, the error, the caller's message, which gets the id, and the reference.
  A full ring or too many pending queries stay so while nobody else runs: with a ring the function
  gives up when the timeout is used up, without one it waits for ever.
\<close>

definition opo_client_query ::
    "writer \<Rightarrow> (int \<Rightarrow> string) \<Rightarrow> double \<Rightarrow> opoErr \<Rightarrow> ('cb, 'x) client \<Rightarrow> mem \<Rightarrow> 'cb option \<Rightarrow> 'x option \<Rightarrow>
     (('cb, 'x) client \<times> opoErr \<times> mem \<times> uint64) option" where
  "opo_client_query wr strerror now err c query cb ctx = do {
     sz \<leftarrow> opo_msg_bsize query 0;
     if on_query c \<noteq> None then do {
       let qid = next_id c;
       let c = c\<lparr>next_id := next_id c + 1\<rparr>;
       let count = pending c;
       let c = c\<lparr>pending := pending c + 1\<rparr>;
       if pending_max c < unat count \<and> pending_max c < unat (pending c) then None
       else do {
         msg \<leftarrow> rd_range query 0 sz;
         (err, c) \<leftarrow> send_query wr strerror err msg c;
         Some (c, err, query, qid)
       }
     }
     else if tail_lock c then None
     else do {
       q \<leftarrow> query_at c (tail c);
       if Q_CLEAR \<noteq> q_state q then Some (c, err_set err EAGAIN ''write failed, busy'', query, 0)
       else do {
         let qid = next_id c;
         let c = c\<lparr>next_id := next_id c + 1\<rparr>;
         let q = q\<lparr>q_id := qid, q_cb := cb, q_ctx := ctx, q_when := now\<rparr>;
         let c = set_query (tail c) (query_set_state q Q_SENT) c;
         let c = c\<lparr>tail := ring_next c (tail c)\<rparr>;
         query \<leftarrow> opo_msg_set_id query 0 qid;
         msg \<leftarrow> rd_range query 0 sz;
         (err, c) \<leftarrow> send_query wr strerror err msg c;
         Some (c, err, query, qid)
       }
     }
   }"

section \<open>Processing\<close>

text \<open>A callback is only recorded, so one that uses the client is not modelled.\<close>

definition call_back :: "'cb option \<Rightarrow> uint64 \<Rightarrow> mem option \<Rightarrow> 'x option \<Rightarrow> ('cb, 'x) client \<Rightarrow> ('cb, 'x) client" where
  "call_back cb mid resp ctx c =
     (case cb of None \<Rightarrow> c | Some cb \<Rightarrow> c\<lparr>calls := calls c @ [Response cb mid resp ctx]\<rparr>)"

definition finish_query :: "nat \<Rightarrow> ('cb, 'x) client_op" where
  "finish_query i c = do {
     q \<leftarrow> query_at c i;
     let c = call_back (q_cb q) (q_id q) (q_resp q) (q_ctx q) c;
     Some (set_query i (query_set_state (q\<lparr>q_id := 0, q_resp := None\<rparr>) Q_CLEAR) c)
   }"

text \<open>
  The loops of \<open>opo_client_process\<close>.  With a negative wait the first one goes on for ever when
  nothing is ready.
\<close>

partial_function (option) process_ready ::
    "('cb, 'x) client \<Rightarrow> int \<Rightarrow> double \<Rightarrow> int \<Rightarrow> (('cb, 'x) client \<times> int) option" where
  "process_ready c mx wait cnt =
     (if 0 \<ge> mx \<or> cnt < mx then do {
        (c, q) \<leftarrow> take_next_ready c wait;
        case q of
          Some q \<Rightarrow> do {
            c \<leftarrow> finish_query q c;
            process_ready c mx wait (cnt + 1)
          }
        | None \<Rightarrow> if not_negative wait then Some (c, cnt) else process_ready c mx wait cnt
      }
      else Some (c, cnt))"

partial_function (option) process_queued ::
    "('cb, 'x) client \<Rightarrow> int \<Rightarrow> int \<Rightarrow> (('cb, 'x) client \<times> int) option" where
  "process_queued c mx cnt =
     (if 0 \<ge> mx \<or> cnt < mx then do {
        (q, msg) \<leftarrow> queue_pop (async_queue c);
        let c = c\<lparr>async_queue := q\<rparr>;
        case msg of
          None \<Rightarrow> Some (c, cnt)
        | Some msg \<Rightarrow> do {
            mid \<leftarrow> opo_msg_id msg 0;
            let c = call_back (on_query c) mid (Some msg) (query_ctx c) c;
            let c = c\<lparr>pending := pending c - 1\<rparr>;
            process_queued c mx (cnt + 1)
          }
      }
      else Some (c, cnt))"

declare process_ready.simps [code] process_queued.simps [code]

definition opo_client_process :: "('cb, 'x) client \<Rightarrow> int \<Rightarrow> double \<Rightarrow> (('cb, 'x) client \<times> int) option" where
  "opo_client_process c mx wait =
     (if on_query c = None then process_ready c mx wait 0 else process_queued c mx 0)"

text \<open>
  The difference of two pointers is taken modulo a \<open>size_t\<close>; with \<open>pending_max\<close> added it is not
  negative for pointers into the ring.
\<close>

definition opo_client_pending_count :: "('cb, 'x) client \<Rightarrow> int" where
  "opo_client_pending_count c = (int (tail c) + int (pending_max c) - int (on_deck c)) mod int (pending_max c)"

definition opo_client_ready_count :: "('cb, 'x) client \<Rightarrow> int" where
  "opo_client_ready_count c = (int (on_deck c) + int (pending_max c) - int (head c)) mod int (pending_max c)"


section \<open>Connecting and closing\<close>

text \<open>
  What the system answers: whether the host resolves, the socket, the result, \<open>errno\<close> and clock
  of each call of \<open>connect\<close>, whether there is memory for the client and for the ring, the pipe,
  what the fields of the client hold before they are set, and the result of starting the thread.
\<close>

record net =
  resolved :: bool
  new_sock :: int
  sock_errno :: int
  attempts :: "(int \<times> int \<times> bool) list"
  got_client :: bool
  got_ring :: bool
  got_pipe :: "(int \<times> int) option"
  unset :: "int \<times> int"
  thread_stat :: int

record ('cb, 'x) options =
  opt_timeout :: double
  opt_pending_max :: int
  opt_status :: bool
  opt_query :: "'cb option"
  opt_ctx :: "'x option"

definition EISCONN :: int where "EISCONN = 106"

definition int_text :: "int \<Rightarrow> string" where
  "int_text i = (if i < 0 then ''-'' @ dec_text (nat (- i)) else dec_text (nat i))"

definition get_addr_info :: "net \<Rightarrow> (int \<Rightarrow> string) \<Rightarrow> opoErr \<Rightarrow> string \<Rightarrow> int \<Rightarrow> (opoErr \<times> bool) option" where
  "get_addr_info net strerror err host port =
     (if resolved net then Some (err, True)
      else do {
        (err, _) \<leftarrow> opo_err_no strerror (sock_errno net) err
          (Some (''Failed to resolve '' @ host @ '':'' @ int_text port @ ''.''));
        Some (err, False)
      })"

text \<open>\<open>Some None\<close> is connected, \<open>Some (Some errno)\<close> given up, \<open>None\<close> still trying.\<close>

fun connect_loop :: "(int \<times> int \<times> bool) list \<Rightarrow> int option option" where
  "connect_loop [] = None"
| "connect_loop ((rc, errno, late) # rest) =
     (if 0 > rc then
        if EISCONN = errno then Some None
        else if late then Some (Some errno)
        else connect_loop rest
      else Some None)"

definition new_query :: "('cb, 'x) query" where
  "new_query = \<lparr>q_id = 0, q_cb = None, q_ctx = None, q_when = 0, q_state = Q_CLEAR, q_resp = None\<rparr>"

text \<open>The double 2.0 is written as its bits.\<close>

definition client_init :: "net \<Rightarrow> ('cb, 'x) options option \<Rightarrow> ('cb, 'x) client" where
  "client_init net opts =
     (let mx = (case opts of None \<Rightarrow> 4096 | Some w \<Rightarrow> if opt_pending_max w < 1 then 1 else opt_pending_max w);
          (rfd, wfd) = (case got_pipe net of Some p \<Rightarrow> p | None \<Rightarrow> unset net)
      in \<lparr>active = True, sock = new_sock net,
          timeout = (case opts of None \<Rightarrow> 0x4000000000000000 | Some w \<Rightarrow> opt_timeout w),
          next_id = 1,
          has_status = (case opts of None \<Rightarrow> False | Some w \<Rightarrow> opt_status w),
          on_query = (case opts of None \<Rightarrow> None | Some w \<Rightarrow> opt_query w),
          query_ctx = (case opts of None \<Rightarrow> None | Some w \<Rightarrow> opt_ctx w),
          async_queue = queue_init 1024, pending = 0,
          ring = replicate (nat mx) new_query, pending_max = nat mx,
          head = 0, tail = 0, on_deck = 0, head_lock = False, tail_lock = False,
          waiting = 0, c_rsock = rfd, c_wsock = wfd, wake_bytes = 0, sent = [], calls = []\<rparr>)"

text \<open>A thread that does not start leaves a client that is not active, and an error.\<close>

definition client_start ::
    "net \<Rightarrow> (int \<Rightarrow> string) \<Rightarrow> opoErr \<Rightarrow> string \<Rightarrow> ('cb, 'x) client \<Rightarrow> (opoErr \<times> ('cb, 'x) client option) option" where
  "client_start net strerror err addr c = do {
     let stat = thread_stat net;
     let c = (if 0 \<noteq> stat then c\<lparr>active := False\<rparr> else c);
     let err = (if 0 \<noteq> stat then err_set err stat (''failed create receiving thread. '' @ strerror stat) else err);
     c \<leftarrow> (if 0 < sock c \<and> has_status c then status_callback True OPO_ERR_OK (''connected to '' @ addr) c
          else Some c);
     Some (err, Some c)
   }"

definition opo_client_connect ::
    "net \<Rightarrow> (int \<Rightarrow> string) \<Rightarrow> opoErr \<Rightarrow> string \<Rightarrow> int \<Rightarrow> ('cb, 'x) options option \<Rightarrow>
     (opoErr \<times> ('cb, 'x) client option) option" where
  "opo_client_connect net strerror err host port opts = do {
     (err, ok) \<leftarrow> get_addr_info net strerror err host port;
     let addr = host @ '':'' @ int_text port;
     if \<not> ok then Some (err, None)
     else if 0 > new_sock net then do {
       (err, _) \<leftarrow> opo_err_no strerror (sock_errno net) err (Some (''error creating socket to '' @ addr));
       Some (err, None)
     }
     else do {
       r \<leftarrow> connect_loop (attempts net);
       case r of
         Some errno \<Rightarrow> do {
           (err, _) \<leftarrow> opo_err_no strerror errno err (Some (''error connecting socket to '' @ addr));
           Some (err, None)
         }
       | None \<Rightarrow>
           if \<not> got_client net then
             Some (err_set err OPO_ERR_MEMORY ''failed to allocate memory for a opoClient.'', None)
           else if \<not> got_ring net then None
           else client_start net strerror err addr (client_init net opts)
     }
   }"

text \<open>The client as it is freed, with the descriptors that are closed.\<close>

definition opo_client_close :: "('cb, 'x) client \<Rightarrow> ('cb, 'x) client \<times> int list" where
  "opo_client_close c =
     (let c = c\<lparr>active := False\<rparr>;
          c' = notify_status False OPO_ERR_OK ''connection closed'' c
      in (c'\<lparr>ring := []\<rparr>,
          (if 0 < sock c then [sock c] else []) @
          (if 0 < c_wsock c then [c_wsock c] else []) @ (if 0 < c_rsock c then [c_rsock c] else [])))"

end
