(* ===== verification/Receive.thy ===== *)
theory Receive imports Client begin

text \<open>
  What the receiving thread makes of the bytes the server sends: the messages, one by one, however
  the bytes arrive.
\<close>

section \<open>Delivering\<close>

primrec deliver_all :: "allocator \<Rightarrow> mem list \<Rightarrow> ('cb, 'x) client_op" where
  "deliver_all alloc [] c = Some c"
| "deliver_all alloc (m # ms) c = Option.bind (deliver alloc m c) (deliver_all alloc ms)"

lemma deliver_all_Nil [simp]: "deliver_all alloc [] = Some"
  by auto

lemma deliver_all_append:
  "deliver_all alloc (xs @ ys) c = Option.bind (deliver_all alloc xs c) (deliver_all alloc ys)"
  by (induction xs arbitrary: c) (auto split: Option.bind_split)

text \<open>What a response leaves as it is\<close>

definition same_frame :: "('cb, 'x) client \<Rightarrow> ('cb, 'x) client \<Rightarrow> bool" where
  "same_frame c c' \<longleftrightarrow>
     c' = c\<lparr>ring := ring c', on_deck := on_deck c', wake_bytes := wake_bytes c', calls := calls c'\<rparr>"

lemma same_frame_trans: "same_frame c c1 \<Longrightarrow> same_frame c1 c2 \<Longrightarrow> same_frame c c2"
  by (cases c; cases c1; cases c2) (simp add: same_frame_def)

lemma same_frame_refl [simp]: "same_frame c c"
  by (simp add: same_frame_def)

lemma same_frameD:
  "same_frame c c' \<Longrightarrow> active c' = active c \<and> head c' = head c \<and> tail c' = tail c \<and>
   pending_max c' = pending_max c \<and> head_lock c' = head_lock c \<and> tail_lock c' = tail_lock c \<and>
   next_id c' = next_id c \<and> on_query c' = on_query c \<and> timeout c' = timeout c \<and> sent c' = sent c"
  by (cases c; cases c') (simp add: same_frame_def)

lemma lose_until_frame: "lose_until alloc mid q c = Some c' \<Longrightarrow> same_frame c c'"
proof (induction alloc mid q c rule: lose_until.induct)
  case (1 alloc mid q c)
  show ?case
  proof (cases "q = on_deck c")
    case True
    with 1(2) show ?thesis by (simp add: lose_until.simps)
  next
    case False
    with 1(2) have q: "\<not> length (ring c) \<le> q" by (subst (asm) lose_until.simps) (simp split: if_splits)
    with 1(2) False obtain c1 where c1: "lose_query alloc mid c = Some c1"
      "lose_until alloc mid q (step_on_deck c1) = Some c'"
      by (subst (asm) lose_until.simps) (auto simp: bind_eq_Some_conv)
    have "same_frame c (step_on_deck c1)"
      using c1(1) by (auto simp: lose_query_def set_query_def bind_eq_Some_conv step_on_deck_def
          same_frame_def split: option.splits)
    with 1(1) [OF False q c1] show ?thesis by (blast intro: same_frame_trans)
  qed
qed

lemma status_callback_frame: "status_callback b n t c = Some c' \<Longrightarrow> same_frame c c'"
  by (auto simp: status_callback_def call_status_def same_frame_def split: if_splits)

lemma store_response_frame: "store_response mid msg q c = Some c' \<Longrightarrow> same_frame c c'"
proof -
  assume "store_response mid msg q c = Some c'"
  then consider b n t where "status_callback b n t c = Some c'"
    | r where "c' = wake_ready (step_on_deck (set_query q r c))"
    by (auto simp: store_response_def bind_eq_Some_conv Let_def split: if_splits)
  then show ?thesis
    by cases (auto simp: same_frame_def step_on_deck_def set_query_def wake_ready_def dest: status_callback_frame)
qed

lemma process_msg_frame:
  assumes "process_msg alloc msg c = Some c'"
  shows "same_frame c c'"
proof -
  from assms consider b n t where "status_callback b n t c = Some c'"
    | mid q c1 where "lose_until alloc mid q c = Some c1" "store_response mid msg q c1 = Some c'"
    unfolding process_msg_def by (auto simp: bind_eq_Some_conv split: option.splits)
  then show ?thesis
    by cases (auto dest: status_callback_frame lose_until_frame store_response_frame intro: same_frame_trans)
qed

lemma deliver_active: "deliver alloc m c = Some c' \<Longrightarrow> active c' = active c"
  by (cases "on_query c") (auto simp: deliver_def bind_eq_Some_conv dest!: process_msg_frame same_frameD)

lemma deliver_all_active: "deliver_all alloc ms c = Some c' \<Longrightarrow> active c' = active c"
  by (induction ms arbitrary: c) (auto simp: bind_eq_Some_conv dest!: deliver_active)

section \<open>The size of a message from its first 13 bytes\<close>

lemma bsize_prefix:
  assumes "13 \<le> length b"
  shows "opo_msg_bsize (b @ t) 0 = opo_msg_bsize b 0"
proof -
  have r: "rd (b @ t) i = rd b i" if "i < 13" for i using that assms by (simp add: rd_append1)
  have r: "rd (b @ t) 8 = rd b 8" "rd (b @ t) 9 = rd b 9" "read_uint16 (b @ t) 9 = read_uint16 b 9"
    "read_uint32 (b @ t) 9 = read_uint32 b 9"
    by (simp_all add: read_uint16_def read_uint32_def r numeral_eq_Suc)
  have nine: "(0::nat) + 8 = 8" "(8::nat) + 1 = 9" by simp_all
  show ?thesis unfolding opo_msg_bsize_def opo_val_bsize_def option.case nine r ..
qed


section \<open>Framing\<close>

text \<open>The bytes received and not delivered\<close>

definition held :: "receiver \<Rightarrow> mem" where
  "held r = (case part r of None \<Rightarrow> buf r | Some (b, n) \<Rightarrow> b)"

text \<open>
  Between two rounds, when \<open>ms\<close> are the messages to come: less than 13 bytes are kept, or more of
  a message that is not complete.
\<close>

definition settled :: "receiver \<Rightarrow> mem list \<Rightarrow> bool" where
  "settled r ms \<longleftrightarrow>
     (case part r of
        None \<Rightarrow> length (buf r) < 13
      | Some (b, n) \<Rightarrow> buf r = [] \<and> (\<exists>m ms'. ms = m # ms' \<and> n = length m \<and> length b < n))"

lemma take_msgs_frames:
  assumes "\<forall>n. alloc n \<noteq> None" and "\<forall>m \<in> set ms. wire_msg m"
    and "part r = None" and "buf r @ incoming r = concat ms"
  shows "\<exists>k r'. k \<le> length ms \<and>
    (\<forall>c :: ('cb, 'x) client. take_msgs alloc c r = map_option (\<lambda>c'. (c', r')) (deliver_all alloc (take k ms) c)) \<and>
    settled r' (drop k ms) \<and> incoming r' = incoming r \<and> held r' @ incoming r = concat (drop k ms)"
  using assms(2-4)
proof (induction "length (buf r)" arbitrary: r ms rule: less_induct)
  case less
  show ?case
  proof (cases "13 \<le> length (buf r)")
    case False
    then show ?thesis using less.prems
      by (intro exI [of _ 0] exI [of _ r]) (simp add: settled_def held_def take_msgs.simps)
  next
    case True
    with less.prems(3) obtain m ms' where ms: "ms = m # ms'" by (cases ms) auto
    have "opo_msg_bsize (buf r) 0 = opo_msg_bsize (m @ concat ms') 0"
      using bsize_prefix [OF True, of "incoming r"] less.prems(3) ms by simp
    also have "\<dots> = Some (length m)"
      using less.prems(1) ms by (intro msg_items.size_item) (simp_all add: bytes_at_start)
    finally have sz: "opo_msg_bsize (buf r) 0 = Some (length m)" .
    obtain x where x: "alloc (length m) = Some x" using assms(1) by auto
    have "0 < length m" using less.prems(1) ms msg_items.item_not_Nil by simp
    with True have lt: "length (buf r) - length m < length (buf r)" by linarith
    show ?thesis
    proof (cases "length m \<le> length (buf r)")
      case False
      let ?r = "r\<lparr>buf := [], part := Some (buf r, length m)\<rparr>"
      have "settled ?r ms" using False ms by (simp add: settled_def)
      then show ?thesis using False True sz x less.prems
        by (intro exI [of _ 0] exI [of _ ?r]) (simp add: held_def take_msgs.simps [of alloc _ r])
    next
      case len: True
      let ?r = "r\<lparr>buf := drop (length m) (buf r)\<rparr>"
      have m: "take (length m) (buf r) = m" "drop (length m) (buf r) @ incoming r = concat ms'"
        using arg_cong [OF less.prems(3), of "take (length m)"] arg_cong [OF less.prems(3), of "drop (length m)"] ms len
        by simp_all
      have "\<exists>k r'. k \<le> length ms' \<and>
          (\<forall>c :: ('cb, 'x) client. take_msgs alloc c ?r = map_option (\<lambda>c'. (c', r')) (deliver_all alloc (take k ms') c)) \<and>
          settled r' (drop k ms') \<and> incoming r' = incoming ?r \<and> held r' @ incoming ?r = concat (drop k ms')"
        using lt less.prems ms m by (intro less.hyps) auto
      then obtain k r' where k: "k \<le> length ms'"
          "\<forall>c :: ('cb, 'x) client. take_msgs alloc c ?r = map_option (\<lambda>c'. (c', r')) (deliver_all alloc (take k ms') c)"
          "settled r' (drop k ms')" "incoming r' = incoming r" "held r' @ incoming r = concat (drop k ms')" by auto
      have "take_msgs alloc c r = map_option (\<lambda>c'. (c', r')) (deliver_all alloc (take (Suc k) ms) c)" for c :: "('cb, 'x) client"
        using True len sz x k(2) m(1) ms
        by (subst take_msgs.simps) (simp add: map_option_bind comp_def)
      with k ms show ?thesis by (intro exI [of _ "Suc k"] exI [of _ r']) simp
    qed
  qed
qed


lemma on_input_frames:
  assumes alloc: "\<forall>n. alloc n \<noteq> None" and ms: "\<forall>m \<in> set ms. wire_msg m" and n: "0 < n"
    and r: "settled r ms" "held r @ incoming r = concat ms" "incoming r \<noteq> []"
  shows "\<exists>k r'. k \<le> length ms \<and>
    (\<forall>c :: ('cb, 'x) client. on_input alloc strerror (Received n) c r =
       map_option (\<lambda>c'. (c', r')) (deliver_all alloc (take k ms) c)) \<and>
    settled r' (drop k ms) \<and> held r' @ incoming r' = concat (drop k ms) \<and>
    length (incoming r) \<le> length (incoming r') + n"
proof (cases "part r")
  case None
  define j where "j = min n (BUF_SIZE - length (buf r))"
  let ?r = "r\<lparr>incoming := drop j (incoming r), buf := buf r @ take j (incoming r)\<rparr>"
  have j: "0 < j" "j \<le> n" using None r(1) n by (simp_all add: j_def settled_def BUF_SIZE_def)
  have "buf ?r @ incoming ?r = concat ms" using None r(2) by (simp add: held_def)
  with None take_msgs_frames [OF alloc ms, of ?r] obtain k r' where k: "k \<le> length ms"
    "\<forall>c :: ('cb, 'x) client. take_msgs alloc c ?r = map_option (\<lambda>c'. (c', r')) (deliver_all alloc (take k ms) c)"
    "settled r' (drop k ms)" "incoming r' = drop j (incoming r)" "held r' @ drop j (incoming r) = concat (drop k ms)"
    by auto
  have "on_input alloc strerror (Received n) c r = take_msgs alloc c ?r" for c :: "('cb, 'x) client"
    using None r(3) j(1) by (simp add: on_input_def recv_def j_def [symmetric])
  with k j(2) show ?thesis by (intro exI [of _ k] exI [of _ r']) simp
next
  case (Some bn)
  then obtain b len where p: "part r = Some (b, len)" by (cases bn) auto
  with r(1) obtain m ms' where m: "buf r = []" "ms = m # ms'" "len = length m" "length b < len"
    by (auto simp: settled_def)
  define j where "j = min n (len - length b)"
  let ?b = "b @ take j (incoming r)" and ?r = "r\<lparr>incoming := drop j (incoming r)\<rparr>"
  have j: "0 < j" "j \<le> n" using m n by (simp_all add: j_def)
  have h: "?b @ drop j (incoming r) = concat ms" using r(2) p by (simp add: held_def)
  have lb: "length ?b \<le> length m" using m by (simp add: j_def)
  have recv: "recv n (len - length b) r = (take j (incoming r), ?r)" by (simp add: recv_def j_def Let_def)
  have on: "on_input alloc strerror (Received n) c r =
      (if length m = length ?b then map_option (\<lambda>c'. (c', ?r\<lparr>part := None\<rparr>)) (deliver alloc ?b c)
       else Some (c, ?r\<lparr>part := Some (?b, length m)\<rparr>))" for c :: "('cb, 'x) client"
    using p m recv by (simp add: on_input_def) (simp add: map_option_case Option.bind_def split: option.split)
  show ?thesis
  proof (cases "length m = length ?b")
    case True
    have "?b @ drop j (incoming r) = m @ concat ms'" using h unfolding m(2) concat.simps .
    then have "?b = m" "drop j (incoming r) = concat ms'"
      using append_eq_append_conv [OF disjI1 [OF True [symmetric]]] by blast+
    moreover have "length (incoming r) \<le> length (drop j (incoming r)) + n" using j by simp
    ultimately show ?thesis using True on m
      by (intro exI [of _ 1] exI [of _ "?r\<lparr>part := None\<rparr>"]) (simp add: settled_def held_def)
  next
    case False
    with on m lb h j show ?thesis
      by (intro exI [of _ 0] exI [of _ "?r\<lparr>part := Some (?b, length m)\<rparr>"]) (simp add: settled_def held_def)
  qed
qed

definition arrival :: "nat \<Rightarrow> round" where
  "arrival n = Poll_Event (Some (Received n)) False False False"

lemma recv_rounds_frames:
  assumes alloc: "\<forall>n. alloc n \<noteq> None"
  shows "\<forall>m \<in> set ms. wire_msg m \<Longrightarrow> \<forall>n \<in> set ns. 0 < n \<Longrightarrow> sum_list ns \<le> length (incoming r) \<Longrightarrow>
    settled r ms \<Longrightarrow> held r @ incoming r = concat ms \<Longrightarrow>
    \<exists>k r'. k \<le> length ms \<and>
      (\<forall>c :: ('cb, 'x) client. active c \<longrightarrow> recv_rounds alloc strerror errno (map arrival ns) c r =
         map_option (\<lambda>c'. (c', r')) (deliver_all alloc (take k ms) c)) \<and>
      settled r' (drop k ms) \<and> held r' @ incoming r' = concat (drop k ms)"
proof (induction ns arbitrary: r ms)
  case Nil
  then show ?case by (intro exI [of _ 0] exI [of _ r]) simp
next
  case (Cons n ns)
  then have "0 < n" "incoming r \<noteq> []" by auto
  from on_input_frames [OF alloc Cons.prems(1) this(1) Cons.prems(4,5) this(2), of strerror] obtain k r' where
    k: "k \<le> length ms" "settled r' (drop k ms)" "held r' @ incoming r' = concat (drop k ms)"
      "length (incoming r) \<le> length (incoming r') + n"
    and on: "\<And>c :: ('cb, 'x) client. on_input alloc strerror (Received n) c r =
       map_option (\<lambda>c'. (c', r')) (deliver_all alloc (take k ms) c)" by blast
  have "\<forall>m \<in> set (drop k ms). wire_msg m" using Cons.prems(1) by (auto dest: in_set_dropD)
  from Cons.IH [OF this _ _ k(2,3)] Cons.prems(2,3) k(4) obtain k2 r2 where
    k2: "k2 \<le> length (drop k ms)" "settled r2 (drop k2 (drop k ms))" "held r2 @ incoming r2 = concat (drop k2 (drop k ms))"
    and rs: "\<And>c :: ('cb, 'x) client. active c \<Longrightarrow> recv_rounds alloc strerror errno (map arrival ns) c r' =
         map_option (\<lambda>c'. (c', r2)) (deliver_all alloc (take k2 (drop k ms)) c)" by fastforce
  have "recv_rounds alloc strerror errno (map arrival (n # ns)) c r =
      map_option (\<lambda>c'. (c', r2)) (deliver_all alloc (take (k2 + k) ms) c)" if "active c" for c :: "('cb, 'x) client"
  proof (cases "deliver_all alloc (take k ms) c")
    case None
    with that on show ?thesis by (simp add: arrival_def recv_round_def take_add deliver_all_append add.commute [of k2])
  next
    case (Some c1)
    with that have "active c1" by (simp add: deliver_all_active)
    with that on Some rs [of c1] show ?thesis
      by (simp add: arrival_def recv_round_def on_hangup_def take_add deliver_all_append add.commute [of k2])
  qed
  with k k2 show ?case by (intro exI [of _ "k2 + k"] exI [of _ r2]) simp
qed


lemma settled_whole:
  assumes "settled r ms" and "held r = concat ms"
  shows "length (held r) < 13"
proof (cases "part r")
  case None
  with assms show ?thesis by (simp add: settled_def held_def)
next
  case (Some bn)
  with assms show ?thesis by (cases bn) (auto simp: settled_def held_def)
qed

section \<open>Asynchronous processing\<close>

lemma deliver_all_queue:
  "on_query c = Some cb \<Longrightarrow> deliver_all alloc ms c =
     map_option (\<lambda>q. c\<lparr>async_queue := q\<rparr>) (ring.push_all ms (async_queue c))"
proof (induction ms arbitrary: c)
  case (Cons m ms)
  then show ?case
    by (cases "queue_push (async_queue c) m") (simp_all add: deliver_def)
qed simp

text \<open>The call \<open>opo_client_process\<close> makes for a message\<close>

definition answer_of :: "('cb, 'x) client \<Rightarrow> mem \<Rightarrow> ('cb, 'x) event" where
  "answer_of c m = Response (the (on_query c)) (the (opo_msg_id m 0)) (Some m) (query_ctx c)"

text \<open>How many of \<open>n\<close> waiting messages are processed when \<open>cnt\<close> of at most \<open>mx\<close> have been\<close>

definition quota :: "int \<Rightarrow> int \<Rightarrow> nat \<Rightarrow> nat" where
  "quota mx cnt n = (if 0 \<ge> mx then n else min n (nat (mx - cnt)))"

lemma process_queued_calls:
  assumes "on_query c = Some cb" and "queue_inv (async_queue c)"
    and "\<forall>m \<in> set (queue_items (async_queue c)). opo_msg_id m 0 \<noteq> None"
  shows "\<exists>c'. process_queued c mx cnt = Some (c', cnt + int (quota mx cnt (length (queue_items (async_queue c))))) \<and>
    calls c' = calls c @ map (answer_of c) (take (quota mx cnt (length (queue_items (async_queue c)))) (queue_items (async_queue c))) \<and>
    queue_items (async_queue c') = drop (quota mx cnt (length (queue_items (async_queue c)))) (queue_items (async_queue c))"
  using assms
proof (induction "queue_items (async_queue c)" arbitrary: c cnt)
  case Nil
  from ring.pop_items [OF Nil.prems(2)] Nil(1) obtain q' where
    "queue_pop (async_queue c) = Some (q', None)" "queue_items q' = []" by auto
  then show ?case using Nil(1) [symmetric]
    by (subst process_queued.simps) (auto simp: quota_def)
next
  case (Cons m ms)
  show ?case
  proof (cases "0 \<ge> mx \<or> cnt < mx")
    case False
    then show ?thesis by (subst process_queued.simps) (simp add: quota_def)
  next
    case True
    from ring.pop_items [OF Cons.prems(2)] Cons(2) obtain q' where
      q': "queue_pop (async_queue c) = Some (q', Some m)" "queue_inv q'" "queue_items q' = ms"
      by (metis list.case(2) list.sel(3))
    from Cons.prems(3) Cons(2) obtain mid where mid: "opo_msg_id m 0 = Some mid"
      by (metis list.set_intros(1) not_None_eq)
    define c1 where "c1 = c\<lparr>async_queue := q', calls := calls c @ [Response cb mid (Some m) (query_ctx c)],
        pending := pending c - 1\<rparr>"
    have step: "process_queued c mx cnt = process_queued c1 mx (cnt + 1)"
      using True q'(1) mid Cons.prems(1)
      by (subst process_queued.simps) (simp add: call_back_def c1_def)
    have c1: "on_query c1 = Some cb" "async_queue c1 = q'" "answer_of c1 = answer_of c"
      "calls c1 = calls c @ [answer_of c m]"
      using Cons.prems(1) mid by (simp_all add: c1_def answer_of_def fun_eq_iff)
    have qt: "quota mx cnt (length (m # ms)) = Suc (quota mx (cnt + 1) (length ms))"
      using True by (auto simp: quota_def)
    have "\<forall>m \<in> set ms. opo_msg_id m 0 \<noteq> None" using Cons.prems(3) Cons(2) [symmetric] by simp
    with Cons.hyps(1) [of c1 "cnt + 1"] q'(2,3) c1 Cons(2) [symmetric] show ?thesis
      unfolding step qt [unfolded Cons(2)] by (auto simp: qt)
  qed
qed


lemma wire_msg_id: "wire_msg m \<Longrightarrow> opo_msg_id m 0 \<noteq> None"
proof -
  assume "wire_msg m"
  then obtain i w where m: "length i = 8" "m = i @ enc w" by (auto simp: wire_msg_def)
  then show ?thesis using u64.read_ex [of 0 m] by (auto simp: opo_msg_id_def)
qed

lemma recv_loop_ok:
  assumes "\<forall>m \<in> set ms. wire_msg m" and "\<forall>n. alloc n \<noteq> None"
    and "\<forall>n \<in> set ns. 0 < n" and "sum_list ns \<le> length (concat ms)"
  shows "\<exists>k r. k \<le> length ms \<and>
    (\<forall>c :: ('cb, 'x) client. active c \<longrightarrow> recv_loop alloc strerror errno (map arrival ns) (concat ms) c =
       map_option (\<lambda>c'. (c', r)) (deliver_all alloc (take k ms) c)) \<and>
    held r @ incoming r = concat (drop k ms) \<and>
    (length (held r) < 13 \<or> k < length ms \<and> length (held r) < length (ms ! k)) \<and>
    (incoming r = [] \<longrightarrow> length (held r) < 13)"
proof -
  let ?r = "\<lparr>buf = [], part = None, incoming = concat ms\<rparr>"
  have "settled ?r ms" "held ?r @ incoming ?r = concat ms" "sum_list ns \<le> length (incoming ?r)"
    using assms(4) by (simp_all add: settled_def held_def)
  from recv_rounds_frames [OF assms(2,1,3) this(3,1,2), of strerror errno] obtain k r where
    k: "k \<le> length ms" "settled r (drop k ms)" "held r @ incoming r = concat (drop k ms)"
      "\<forall>c :: ('cb, 'x) client. active c \<longrightarrow> recv_rounds alloc strerror errno (map arrival ns) c ?r =
         map_option (\<lambda>c'. (c', r)) (deliver_all alloc (take k ms) c)" by blast
  have "length (held r) < 13 \<or> k < length ms \<and> length (held r) < length (ms ! k)"
  proof (cases "part r")
    case (Some bn)
    with k(2) obtain m ms' where "drop k ms = m # ms'" "length (held r) < length m"
      by (cases bn) (auto simp: settled_def held_def)
    then show ?thesis by (metis Cons_nth_drop_Suc drop_all list.inject list.distinct(1) not_le_imp_less)
  qed (use k(2) in \<open>simp add: settled_def held_def\<close>)
  moreover have "incoming r = [] \<longrightarrow> length (held r) < 13" using k(2,3) settled_whole by auto
  ultimately show ?thesis using k by (auto simp: recv_loop_def)
qed

section \<open>Properties\<close>

text \<open>
  C3: However the bytes of a sequence of messages arrive, the receiving thread delivers the
  messages in order and unchanged, each as soon as it is complete and 13 bytes are there; what it
  holds back is less than 13 bytes or a part of the next message.
\<close>

theorem recv_loop_frames:
  fixes c :: "('cb, 'x) client"
  assumes "\<forall>m \<in> set ms. wire_msg m" and "\<forall>n. alloc n \<noteq> None"
    and "\<forall>n \<in> set ns. 0 < n" and "sum_list ns \<le> length (concat ms)" and "active c"
  shows "\<exists>k r. recv_loop alloc strerror errno (map arrival ns) (concat ms) c =
      map_option (\<lambda>c'. (c', r)) (deliver_all alloc (take k ms) c) \<and>
    held r @ incoming r = concat (drop k ms) \<and>
    (length (held r) < 13 \<or> k < length ms \<and> length (held r) < length (ms ! k)) \<and>
    (incoming r = [] \<longrightarrow> length (held r) < 13)"
  using recv_loop_ok [OF assms(1-4), of strerror errno, where ?'cb = 'cb and ?'x = 'x] assms(5) by blast

definition idle_client :: "(nat, nat) client" where
  "idle_client = client_init \<lparr>resolved = True, new_sock = 4, sock_errno = 0, attempts = [(0, 0, False)],
     got_client = True, got_ring = True, got_pipe = Some (5, 6), unset = (0, 0), thread_stat = 0\<rparr>
     (Some \<lparr>opt_timeout = 0, opt_pending_max = 4, opt_status = True, opt_query = Some 7, opt_ctx = None\<rparr>)"

lemma idle_client_simps:
  "active idle_client" "on_query idle_client = Some 7" "async_queue idle_client = queue_init 1024"
  "calls idle_client = []" "query_ctx idle_client = None"
  by (simp_all add: idle_client_def client_init_def)

definition two_msgs :: "mem list" where
  "two_msgs = [[0,0,0,0,0,0,0,1] @ enc (WStr1 [1,2,3,4,5,6,7,8]), [0,0,0,0,0,0,0,2] @ enc WNull]"

lemma two_msgs: "\<forall>m \<in> set two_msgs. wire_msg m"
proof -
  have "wire_msg ([0,0,0,0,0,0,0,1] @ enc (WStr1 [1,2,3,4,5,6,7,8]))"
    unfolding wire_msg_def by (intro exI [of _ "[0,0,0,0,0,0,0,1]"] exI [of _ "WStr1 [1,2,3,4,5,6,7,8]"]) simp
  moreover have "wire_msg ([0,0,0,0,0,0,0,2] @ enc WNull)"
    unfolding wire_msg_def by (intro exI [of _ "[0,0,0,0,0,0,0,2]"] exI [of _ WNull]) simp
  ultimately show ?thesis by (simp add: two_msgs_def)
qed

theorem recv_loop_frames_witness:
  "\<exists>k r. recv_loop (\<lambda>n. Some (replicate n 0)) (\<lambda>_. []) 0 (map arrival [10, 18]) (concat two_msgs) idle_client =
      map_option (\<lambda>c'. (c', r)) (deliver_all (\<lambda>n. Some (replicate n 0)) (take k two_msgs) idle_client) \<and>
    held r @ incoming r = concat (drop k two_msgs)"
proof -
  have "sum_list [10, 18] \<le> length (concat two_msgs)" by (simp add: two_msgs_def)
  then show ?thesis
    using recv_loop_frames [OF two_msgs, of "\<lambda>n. Some (replicate n 0)" "[10, 18]" idle_client "\<lambda>_. []" 0]
      idle_client_simps(1) by auto
qed

text \<open>
  C16: With a query callback set, \<open>opo_client_process\<close> calls it for the messages the receiving
  thread has taken from the socket, in the order the server sent them, with the id and the bytes of
  each; all of them but for what is held back when the socket is empty.
\<close>

theorem async_in_order:
  fixes c :: "('cb, 'x) client"
  assumes "\<forall>m \<in> set ms. wire_msg m" and "\<forall>n. alloc n \<noteq> None"
    and "\<forall>n \<in> set ns. 0 < n" and "sum_list ns \<le> length (concat ms)" and "active c"
    and "on_query c = Some cb" and "queue_inv (async_queue c)" and "queue_items (async_queue c) = []"
    and "length ms \<le> queue_capacity (async_queue c)"
  shows "\<exists>k c1 c2 r. recv_loop alloc strerror errno (map arrival ns) (concat ms) c = Some (c1, r) \<and>
    opo_client_process c1 0 wait = Some (c2, int k) \<and>
    calls c2 = calls c @ map (\<lambda>m. Response cb (the (opo_msg_id m 0)) (Some m) (query_ctx c)) (take k ms) \<and>
    (incoming r = [] \<longrightarrow> length (concat (drop k ms)) < 13)"
proof -
  from recv_loop_ok [OF assms(1-4), of strerror errno] assms(5) obtain k r where k: "k \<le> length ms"
    "recv_loop alloc strerror errno (map arrival ns) (concat ms) c =
       map_option (\<lambda>c'. (c', r)) (deliver_all alloc (take k ms) c)"
    "held r @ incoming r = concat (drop k ms)" "incoming r = [] \<longrightarrow> length (held r) < 13" by blast
  have "length (queue_items (async_queue c)) + length (take k ms) \<le> queue_capacity (async_queue c)"
    using assms(8,9) k(1) by simp
  from ring.push_all_items [OF assms(7) this] assms(8) obtain q where
    q: "ring.push_all (take k ms) (async_queue c) = Some q" "queue_inv q" "queue_items q = take k ms" by auto
  let ?c = "c\<lparr>async_queue := q\<rparr>"
  have "\<forall>m \<in> set (queue_items (async_queue ?c)). opo_msg_id m 0 \<noteq> None"
    using assms(1) q(3) by (auto dest: in_set_takeD wire_msg_id)
  from process_queued_calls [OF _ _ this, of cb 0 0] assms(6) q(2,3) k(1) obtain c2 where
    "process_queued ?c 0 0 = Some (c2, int k)"
    "calls c2 = calls c @ map (answer_of c) (take k ms)"
    by (auto simp: quota_def answer_of_def min_absorb2)
  moreover have "answer_of c = (\<lambda>m. Response cb (the (opo_msg_id m 0)) (Some m) (query_ctx c))"
    using assms(6) by (simp add: answer_of_def fun_eq_iff)
  ultimately have "opo_client_process ?c 0 wait = Some (c2, int k) \<and>
      calls c2 = calls c @ map (\<lambda>m. Response cb (the (opo_msg_id m 0)) (Some m) (query_ctx c)) (take k ms)"
    using assms(6) by (simp add: opo_client_process_def)
  moreover have "recv_loop alloc strerror errno (map arrival ns) (concat ms) c = Some (?c, r)"
    using k(2) q(1) deliver_all_queue [OF assms(6)] by simp
  moreover have "incoming r = [] \<longrightarrow> length (concat (drop k ms)) < 13"
    using k(3,4) by auto
  ultimately show ?thesis by blast
qed

theorem async_in_order_witness:
  "\<exists>k c1 c2 r. recv_loop (\<lambda>n. Some (replicate n 0)) (\<lambda>_. []) 0 (map arrival [10, 18]) (concat two_msgs) idle_client = Some (c1, r) \<and>
    opo_client_process c1 0 0 = Some (c2, int k) \<and>
    calls c2 = map (\<lambda>m. Response 7 (the (opo_msg_id m 0)) (Some m) None) (take k two_msgs)"
proof -
  have "sum_list [10, 18] \<le> length (concat two_msgs)" "length two_msgs \<le> queue_capacity (queue_init 1024 :: mem queue)"
    by (simp_all add: two_msgs_def)
  then show ?thesis
    using async_in_order [OF two_msgs, of "\<lambda>n. Some (replicate n 0)" "[10, 18]" idle_client 7 "\<lambda>_. []" 0 0]
    by (auto simp: idle_client_simps)
qed

text \<open>
  A message of less than 13 bytes is not delivered, and its query not answered, until more
  bytes arrive: \<open>null\<close>, \<open>true\<close>, \<open>false\<close> and small integers and strings as the last response.
\<close>

theorem short_message_waits:
  fixes c :: "('cb, 'x) client"
  assumes "length m < 13" and "m \<noteq> []" and "length m \<le> n" and "active c"
  shows "recv_loop alloc strerror errno [arrival n] m c = Some (c, \<lparr>buf = m, part = None, incoming = []\<rparr>)"
  using assms by (simp add: recv_loop_def arrival_def recv_round_def on_input_def recv_def on_hangup_def
      BUF_SIZE_def Let_def take_msgs.simps)

theorem short_message_waits_witness:
  "wire_msg ([0,0,0,0,0,0,0,1] @ enc (WBool True)) \<and>
   recv_loop (\<lambda>n. Some (replicate n 0)) (\<lambda>_. []) 0 [arrival 100] ([0,0,0,0,0,0,0,1] @ enc (WBool True)) idle_client =
     Some (idle_client, \<lparr>buf = [0,0,0,0,0,0,0,1] @ enc (WBool True), part = None, incoming = []\<rparr>)"
proof
  show "wire_msg ([0,0,0,0,0,0,0,1] @ enc (WBool True))"
    unfolding wire_msg_def by (intro exI [of _ "[0,0,0,0,0,0,0,1]"] exI [of _ "WBool True"]) simp
qed (rule short_message_waits; simp add: idle_client_simps)

end
