(* ===== verification/ClientSpec.thy ===== *)
theory ClientSpec imports Receive BuilderRun begin

text \<open>
  The ring of queries as a list: those answered or passed over, then those a response is awaited
  for, then the free ones; and what a query, a response and \<open>opo_client_process\<close> do to it.
\<close>

section \<open>The ring seen from its head\<close>

definition in_ring :: "('cb, 'x) client \<Rightarrow> ('cb, 'x) query list \<Rightarrow> ('cb, 'x) query list \<Rightarrow> bool" where
  "in_ring c ds ss \<longleftrightarrow>
     (let n = length (ring c) in
      0 < n \<and> head c < n \<and> on_deck c = (head c + length ds) mod n \<and>
      tail c = (head c + length ds + length ss) mod n \<and> pending_max c = n \<and>
      \<not> head_lock c \<and> \<not> tail_lock c \<and>
      (\<forall>q \<in> set ds. q_state q = Q_READY \<or> q_state q = Q_SENT \<and> q_cb q = None) \<and>
      (\<forall>q \<in> set ss. q_state q = Q_SENT) \<and>
      (\<exists>cs. rotate (head c) (ring c) = ds @ ss @ cs \<and> (\<forall>q \<in> set cs. q_state q = Q_CLEAR \<and> q_resp q = None)))"

lemma in_ringI:
  assumes "rotate (head c) (ring c) = ds @ ss @ cs" and "head c < length (ring c)"
    and "on_deck c = (head c + length ds) mod length (ring c)"
    and "tail c = (head c + length ds + length ss) mod length (ring c)" and "pending_max c = length (ring c)"
    and "\<not> head_lock c" "\<not> tail_lock c"
    and "\<And>q. q \<in> set ds \<Longrightarrow> q_state q = Q_READY \<or> q_state q = Q_SENT \<and> q_cb q = None"
    and "\<And>q. q \<in> set ss \<Longrightarrow> q_state q = Q_SENT"
    and "\<And>q. q \<in> set cs \<Longrightarrow> q_state q = Q_CLEAR \<and> q_resp q = None"
  shows "in_ring c ds ss"
  using assms by (auto simp: in_ring_def Let_def)

lemma in_ringE:
  assumes "in_ring c ds ss"
  obtains cs where "rotate (head c) (ring c) = ds @ ss @ cs" and "head c < length (ring c)"
    and "on_deck c = (head c + length ds) mod length (ring c)"
    and "tail c = (head c + length ds + length ss) mod length (ring c)" and "pending_max c = length (ring c)"
    and "\<not> head_lock c" "\<not> tail_lock c"
    and "\<And>q. q \<in> set ds \<Longrightarrow> q_state q = Q_READY \<or> q_state q = Q_SENT \<and> q_cb q = None"
    and "\<And>q. q \<in> set ss \<Longrightarrow> q_state q = Q_SENT"
    and "\<And>q. q \<in> set cs \<Longrightarrow> q_state q = Q_CLEAR \<and> q_resp q = None"
    and "length (ring c) = length ds + length ss + length cs"
proof -
  from assms obtain cs where cs: "rotate (head c) (ring c) = ds @ ss @ cs"
    "\<forall>q \<in> set cs. q_state q = Q_CLEAR \<and> q_resp q = None" by (auto simp: in_ring_def Let_def)
  from arg_cong [OF cs(1), of length] have "length (ring c) = length ds + length ss + length cs" by simp
  with cs assms show ?thesis by (intro that) (auto simp: in_ring_def Let_def)
qed

lemma mod_len_less: "i < length xs \<Longrightarrow> k mod length xs < length xs"
  by (cases xs) simp_all

lemma rotate_update:
  assumes "h < length xs" and "i < length xs"
  shows "rotate h (xs[(h + i) mod length xs := y]) = (rotate h xs)[i := y]"
proof (rule nth_equalityI)
  fix j assume "j < length (rotate h (xs[(h + i) mod length xs := y]))"
  then have j: "j < length xs" by simp
  then have "(h + i) mod length xs < length xs" by (rule mod_len_less)
  moreover have "(h + j) mod length xs = (h + i) mod length xs \<longleftrightarrow> j = i"
    using mod_add_inj [OF j assms(2)] by blast
  ultimately show "rotate h (xs[(h + i) mod length xs := y]) ! j = (rotate h xs)[i := y] ! j"
    using assms j by (auto simp: nth_rotate nth_list_update)
qed simp

lemma rotate_next: "rotate ((h + 1) mod length xs) xs = rotate1 (rotate h xs)"
  using rotate_conv_mod [of "h + 1" xs] by simp

lemma ring_next_mod: "i < length (ring c) \<Longrightarrow> ring_next c i = (i + 1) mod length (ring c)"
proof (cases "i + 1 = length (ring c)")
  case True
  then show ?thesis by (simp add: ring_next_def)
qed (simp add: ring_next_def)

lemma query_at_view:
  "rotate h (ring c) = L \<Longrightarrow> h < length (ring c) \<Longrightarrow> i < length (ring c) \<Longrightarrow>
   query_at c ((h + i) mod length (ring c)) = Some (L ! i)"
  using mod_len_less [of i "ring c" "h + i"] by (auto simp: query_at_def nth_rotate)

text \<open>A store into the query at a place of the list\<close>

lemma set_query_view:
  assumes "rotate h (ring c) = xs @ y # ys" and "h < length (ring c)"
  shows "rotate h (ring (set_query ((h + length xs) mod length (ring c)) z c)) = xs @ z # ys"
proof -
  have "length (ring c) = length xs + Suc (length ys)"
    using arg_cong [OF assms(1), of length] by simp
  with assms rotate_update [of h "ring c" "length xs" z] show ?thesis by (simp add: set_query_def)
qed

lemma in_ring_on_deck: "in_ring c ds ss \<Longrightarrow> on_deck c < length (ring c)"
  by (auto simp: in_ring_def Let_def)

text \<open>The query \<open>on_deck\<close> is the oldest one that awaits a response.\<close>

lemma on_deck_query: "in_ring c ds (x # ss) \<Longrightarrow> query_at c (on_deck c) = Some x"
proof (elim in_ringE)
  fix cs assume v: "rotate (head c) (ring c) = ds @ (x # ss) @ cs" "head c < length (ring c)"
    and n: "length (ring c) = length ds + length (x # ss) + length cs"
    and d: "on_deck c = (head c + length ds) mod length (ring c)"
  show ?thesis unfolding d using query_at_view [OF v, of "length ds"] n by simp
qed

lemma advance_ok:
  assumes r: "in_ring c ds (x # ss)" and y: "q_state y = Q_READY \<or> q_state y = Q_SENT \<and> q_cb y = None"
  shows "in_ring (step_on_deck (set_query (on_deck c) y c)) (ds @ [y]) ss"
proof -
  let ?n = "length (ring c)" and ?c = "set_query (on_deck c) y c"
  from r obtain cs where v: "rotate (head c) (ring c) = ds @ (x # ss) @ cs" "head c < ?n"
    and d: "on_deck c = (head c + length ds) mod ?n"
    and cs: "\<And>q. q \<in> set cs \<Longrightarrow> q_state q = Q_CLEAR \<and> q_resp q = None" by (rule in_ringE) blast
  show ?thesis
  proof (rule in_ringI [where cs = cs])
    have "rotate (head c) (ring ?c) = ds @ y # ss @ cs"
      unfolding d using set_query_view [of "head c" c ds x "ss @ cs"] v by simp
    then show "rotate (head (step_on_deck ?c)) (ring (step_on_deck ?c)) = (ds @ [y]) @ ss @ cs"
      by (simp add: step_on_deck_def set_query_def)
    have "ring_next ?c (on_deck c) = (on_deck c + 1) mod ?n"
      using ring_next_mod [of "on_deck c" ?c] in_ring_on_deck [OF r] by (simp add: set_query_def)
    then show "on_deck (step_on_deck ?c) =
        (head (step_on_deck ?c) + length (ds @ [y])) mod length (ring (step_on_deck ?c))"
      using d by (simp add: step_on_deck_def set_query_def mod_Suc_eq)
  next
    fix q assume "q \<in> set (ds @ [y])"
    with r y show "q_state q = Q_READY \<or> q_state q = Q_SENT \<and> q_cb q = None"
      by (auto simp: in_ring_def Let_def)
  qed (use r v cs in \<open>auto simp: step_on_deck_def set_query_def elim!: in_ringE\<close>)
qed

section \<open>The message for a lost query\<close>

definition text_bytes :: "string \<Rightarrow> byte list" where
  "text_bytes s = map of_char s"

definition lost_wire :: wire where
  "lost_wire = WObj [(WKey1 (text_bytes ''code''), WInt2 174), (WKey1 (text_bytes ''error''), WStr1 (text_bytes ''no response''))]"

lemma text_bytes_eval:
  "text_bytes ''code'' = [0x63, 0x6F, 0x64, 0x65]" "text_bytes ''error'' = [0x65, 0x72, 0x72, 0x6F, 0x72]"
  "text_bytes ''no response'' = [0x6E, 0x6F, 0x20, 0x72, 0x65, 0x73, 0x70, 0x6F, 0x6E, 0x73, 0x65]"
  by (simp_all add: text_bytes_def of_char_def)

lemma c_text_eval: "c_text s = text_bytes s @ [0]"
  by (simp add: c_text_def text_bytes_def)

lemma length_text_bytes [simp]: "length (text_bytes s) = length s"
  by (simp add: text_bytes_def)

lemma literal_key:
  "0 < length s \<Longrightarrow> length s < 256 \<Longrightarrow> key_arg (Some (c_text s)) (int (length s)) (Some (WKey1 (text_bytes s)))"
  by (auto simp: c_text_eval text_arg_def mk_key_def intro!: exI [of _ "text_bytes s"])

lemma lost_message_ok:
  assumes "alloc_ok alloc"
  shows "\<exists>rest. lost_message alloc mid = Some (Some (be_bytes 8 mid @ enc lost_wire @ rest))"
proof -
  let ?b = "\<lparr>bhead = None, bend = 0, bcur = 0, bown = False, btop = 0, bstack = []\<rparr>"
  let ?calls = "[(PushObject, None, 0), (PushInt (word_of_int OPO_ERR_LOST), Some (c_text ''code''), 4),
    (PushString (c_text ''no response'') (- 1), Some (c_text ''error''), 5)]"
  let ?as = "[(Begin (CObj []), None), (Add (WInt2 174), Some (WKey1 (text_bytes ''code''))),
    (Add (WStr1 (text_bytes ''no response'')), Some (WKey1 (text_bytes ''error'')))]"
  define fmt where "fmt = \<lparr>whole = (\<lambda>_. True), fmt_1f = (\<lambda>_. []), fmt_15g = (\<lambda>_. [])\<rparr>"
  have init: "length (replicate 1024 (0::byte)) = 1024 \<and> 8 \<le> (1024 :: nat)" by simp
  obtain b1 where b1: "opo_builder_init alloc OPO_ERR_INIT ?b (Some (replicate 1024 0)) 1024 = Some (b1, OPO_ERR_INIT, OPO_ERR_OK)"
    "builds b1 (Open [])" "bcur b1 = 8" "1024 \<le> bend b1"
    using init_ok [where buf = "Some (replicate 1024 0)" and n = 1024 and alloc = alloc and err = OPO_ERR_INIT and b = ?b] init by (fastforce split: if_splits)
  have "text_arg (c_text ''no response'') (- 1) (text_bytes ''no response'')"
    by (simp add: text_arg_def c_text_eval) (simp add: text_bytes_eval)
  then have str: "\<exists>bs. text_arg (c_text ''no response'') (- 1) bs \<and> WStr1 (text_bytes ''no response'') = str_wire bs"
    by (intro exI [of _ "text_bytes ''no response''"]) (simp add: str_wire_def)
  have calls: "list_all2 (call_means fmt) ?calls ?as"
    using literal_key [of "''code''"] literal_key [of "''error''"] str
    by (simp add: int_wire_def opo_err_codes)
  have t: "run_acts (Open []) ?as = (Open [(None, CObj [(WKey1 (text_bytes ''code''), WInt2 174),
      (WKey1 (text_bytes ''error''), WStr1 (text_bytes ''no response''))])], [OPO_ERR_OK, OPO_ERR_OK, OPO_ERR_OK])"
    by simp
  have room: "has_room False alloc b1 (acts_room ?as)"
    using b1(3,4) by (simp add: has_room_def call_room_def text_bytes_eval)
  have "deepest (Open []) ?as \<le> OPO_MSG_MAX_DEPTH" by (simp add: OPO_MSG_MAX_DEPTH_def)
  from run_calls_fit [OF calls b1(2) room this, of OPO_ERR_INIT] t obtain b2 err' where
    b2: "run_calls fmt alloc OPO_ERR_INIT b1 ?calls = Some (b2, err', [OPO_ERR_OK, OPO_ERR_OK, OPO_ERR_OK])"
    "builds b2 (Open [(None, CObj [(WKey1 (text_bytes ''code''), WInt2 174),
      (WKey1 (text_bytes ''error''), WStr1 (text_bytes ''no response''))])])" by auto
  from finish_ok [OF b2(2)] obtain b3 where
    b3: "opo_builder_finish b2 = Some (b3, 0)" "builds b3 (Closed lost_wire)"
    by (auto simp: close_all_def lost_wire_def)
  from b3(2) obtain m where m: "bhead b3 = Some m" "take (bcur b3) m = replicate 8 0 @ enc lost_wire" "btop b3 = 0"
    by (auto simp: builds_def holds_def)
  let ?m = "be_bytes 8 mid @ enc lost_wire @ drop (bcur b3) m"
  have mm: "m = (replicate 8 0 @ enc lost_wire) @ drop (bcur b3) m"
    using append_take_drop_id [of "bcur b3" m] m(2) by simp
  have "put m 0 (be_bytes 8 mid) = Some (?m, 8)" by (subst mm) (simp add: put_def)
  then have set: "opo_msg_set_id m 0 mid = Some ?m" by (simp add: opo_msg_set_id_fill fill_uint64_put)
  let ?b4 = "b3\<lparr>bhead := Some ?m\<rparr>"
  have "finish_loop 0 ?b4 = Some ?b4" by simp
  then have f4: "opo_builder_finish ?b4 = Some (?b4, 0)" using m(3) by (simp add: opo_builder_finish_def)
  have wf: "wf_wire lost_wire" by (simp add: lost_wire_def text_bytes_eval)
  obtain fresh where fresh: "alloc (8 + length (enc lost_wire)) = Some fresh" "length fresh = 8 + length (enc lost_wire)"
    using assms by (auto simp: alloc_ok_def)
  have sz: "opo_msg_bsize ?m 0 = Some (8 + length (enc lost_wire))"
    using bytes_at_start [of "be_bytes 8 mid @ enc lost_wire"]
    by (intro msg_bsize_enc [OF wf, of "be_bytes 8 mid"]) (simp_all del: bytes_at_append)
  have rng: "rd_range ?m 0 (8 + length (enc lost_wire)) = Some (be_bytes 8 mid @ enc lost_wire)"
    by (simp add: rd_range_def)
  have cp: "put fresh 0 (be_bytes 8 mid @ enc lost_wire) = Some (be_bytes 8 mid @ enc lost_wire, 8 + length (enc lost_wire))"
    using fresh(2) by (simp add: put_def)
  have "\<exists>b5 rest. opo_builder_take alloc ?b4 = Some (b5, Some (be_bytes 8 mid @ enc lost_wire @ rest))"
    using f4 sz rng cp fresh(1) by (cases "bown b3") (auto simp: opo_builder_take_def)
  with b1(1) b2(1) b3(1) m(1) set show ?thesis
    by (fastforce simp: lost_message_def bind_eq_Some_conv)
qed

section \<open>Losing queries\<close>

definition lost :: "mem option \<Rightarrow> ('cb, 'x) query \<Rightarrow> ('cb, 'x) query" where
  "lost msg q = (if q_cb q = None then q else q\<lparr>q_resp := msg, q_state := Q_READY\<rparr>)"

lemma lose_step:
  assumes r: "in_ring c ds (x # ss)" and m: "lost_message alloc mid = Some msg"
  shows "\<exists>c1. lose_query alloc mid c = Some c1 \<and> in_ring (step_on_deck c1) (ds @ [lost msg x]) ss \<and>
    length (ring c1) = length (ring c) \<and> on_deck c1 = on_deck c \<and> calls c1 = calls c \<and> has_status c1 = has_status c"
proof -
  let ?c = "set_query (on_deck c) (lost msg x) c"
  have "lose_query alloc mid c = Some ?c"
  proof (cases "q_cb x")
    case None
    have "set_query (on_deck c) x c = c"
      using on_deck_query [OF r] by (auto simp: set_query_def query_at_def list_update_same_conv split: if_splits)
    with None on_deck_query [OF r] show ?thesis by (simp add: lose_query_def lost_def)
  next
    case (Some cb)
    with on_deck_query [OF r] m show ?thesis by (simp add: lose_query_def lost_def query_set_state_def)
  qed
  moreover have "q_state (lost msg x) = Q_READY \<or> q_state (lost msg x) = Q_SENT \<and> q_cb (lost msg x) = None"
    using r by (auto simp: in_ring_def Let_def lost_def)
  ultimately show ?thesis using advance_ok [OF r] by (simp add: set_query_def)
qed

lemma place_on_deck:
  assumes "in_ring c ds ss" and "i < length (ring c)"
  shows "(head c + (length ds + i)) mod length (ring c) = (on_deck c + i) mod length (ring c)"
  using assms(1) by (elim in_ringE) (simp add: mod_add_left_eq add.assoc)

lemma lose_until_ok:
  assumes m: "lost_message alloc mid = Some msg"
  shows "in_ring c ds (xs @ s # ss) \<Longrightarrow> q = (on_deck c + length xs) mod length (ring c) \<Longrightarrow>
    \<exists>c'. lose_until alloc mid q c = Some c' \<and> in_ring c' (ds @ map (lost msg) xs) (s # ss) \<and>
      on_deck c' = q \<and> calls c' = calls c \<and> has_status c' = has_status c"
proof (induction xs arbitrary: c ds)
  case Nil
  then show ?case using in_ring_on_deck [OF Nil(1)] by (intro exI [of _ c]) (simp add: lose_until.simps)
next
  case (Cons x xs)
  let ?n = "length (ring c)"
  from Cons.prems(1) have n: "length (x # xs) < ?n" by (elim in_ringE) simp
  have od: "on_deck c < ?n" using in_ring_on_deck [OF Cons.prems(1)] .
  have "0 < ?n" using n by linarith
  have "q \<noteq> on_deck c"
  proof
    assume "q = on_deck c"
    then have "(on_deck c + length (x # xs)) mod ?n = (on_deck c + 0) mod ?n" using Cons.prems(2) od by simp
    from mod_add_inj [OF n \<open>0 < ?n\<close> this] show False by simp
  qed
  have "q < ?n" using Cons.prems(2) mod_len_less [OF od] by simp
  have "in_ring c ds (x # (xs @ s # ss))" using Cons.prems(1) by simp
  from lose_step [OF this m] obtain c1 where c1: "lose_query alloc mid c = Some c1"
    "in_ring (step_on_deck c1) (ds @ [lost msg x]) (xs @ s # ss)" "length (ring c1) = ?n"
    "on_deck c1 = on_deck c" "calls c1 = calls c" "has_status c1 = has_status c" by blast
  have "on_deck (step_on_deck c1) = (on_deck c + 1) mod ?n" "length (ring (step_on_deck c1)) = ?n"
    using c1(3,4) od ring_next_mod [of "on_deck c" c1] by (simp_all add: step_on_deck_def)
  then have "q = (on_deck (step_on_deck c1) + length xs) mod length (ring (step_on_deck c1))"
    using Cons.prems(2) by (simp add: mod_add_left_eq)
  from Cons.IH [OF c1(2) this] obtain c' where "lose_until alloc mid q (step_on_deck c1) = Some c'"
    "in_ring c' (ds @ map (lost msg) (x # xs)) (s # ss)" "on_deck c' = q"
    "calls c' = calls (step_on_deck c1)" "has_status c' = has_status (step_on_deck c1)" by auto
  moreover have "lose_until alloc mid q c = lose_until alloc mid q (step_on_deck c1)"
    using \<open>q \<noteq> on_deck c\<close> \<open>q < ?n\<close> c1(1) by (subst lose_until.simps) simp
  ultimately show ?case using c1(5,6) by (auto simp: step_on_deck_def)
qed

section \<open>Finding a query\<close>

lemma pending_loop_finds:
  "k < length (ring c) \<Longrightarrow> q < length (ring c) \<Longrightarrow> (looped \<longrightarrow> q + k < length (ring c)) \<Longrightarrow>
   \<forall>j < k. q_id (ring c ! ((q + j) mod length (ring c))) \<noteq> mid \<Longrightarrow>
   \<forall>j \<le> k. 0 < j \<longrightarrow> (q + j) mod length (ring c) \<noteq> tail c \<Longrightarrow>
   q_id (ring c ! ((q + k) mod length (ring c))) = mid \<Longrightarrow>
   pending_loop c mid q looped = Some (Some ((q + k) mod length (ring c)))"
proof (induction k arbitrary: q looped)
  case 0
  then show ?case by (subst pending_loop.simps) (simp add: query_at_def)
next
  case (Suc k)
  let ?n = "length (ring c)"
  let ?q = "(q + 1) mod ?n"
  have q: "?q < ?n" using Suc.prems(2) by (rule mod_len_less)
  have e: "(?q + j) mod ?n = (q + Suc j) mod ?n" for j by (simp add: mod_add_left_eq)
  have "pending_loop c mid ?q lp = Some (Some ((?q + k) mod ?n))" if "lp \<longrightarrow> ?q + k < ?n" for lp
  proof (rule Suc.IH [OF _ q that])
    show "\<forall>j < k. q_id (ring c ! ((?q + j) mod ?n)) \<noteq> mid" using Suc.prems(4) unfolding e by auto
    show "\<forall>j \<le> k. 0 < j \<longrightarrow> (?q + j) mod ?n \<noteq> tail c" using Suc.prems(5) unfolding e by auto
    show "q_id (ring c ! ((?q + k) mod ?n)) = mid" using Suc.prems(6) unfolding e .
  qed (use Suc.prems(1) in simp)
  then have ih: "pending_loop c mid ?q lp = Some (Some ((q + Suc k) mod ?n))" if "lp \<longrightarrow> ?q + k < ?n" for lp
    using that unfolding e by blast
  have id: "q_id (ring c ! q) \<noteq> mid" using spec [OF Suc.prems(4), of 0] Suc.prems(2) by simp
  have t: "?q \<noteq> tail c" using spec [OF Suc.prems(5), of 1] by simp
  show ?case
  proof (cases "q + 1 = ?n")
    case True
    then have "\<not> looped" using Suc.prems(3) by auto
    with True id t ih [of True] Suc.prems(1,2) show ?thesis
      by (subst pending_loop.simps) (simp add: query_at_def)
  next
    case False
    with Suc.prems(2) have "?q = q + 1" by simp
    with False id t ih [of looped] Suc.prems(2,3) show ?thesis
      by (subst pending_loop.simps) (simp add: query_at_def)
  qed
qed


lemma awaited_at:
  assumes r: "in_ring c ds ss" and j: "j < length ss"
  shows "ring c ! ((on_deck c + j) mod length (ring c)) = ss ! j"
proof -
  from r obtain cs where v: "rotate (head c) (ring c) = ds @ ss @ cs"
    and n: "length (ring c) = length ds + length ss + length cs" by (rule in_ringE)
  have "ring c ! ((head c + (length ds + j)) mod length (ring c)) = rotate (head c) (ring c) ! (length ds + j)"
    using n j by (subst nth_rotate) simp_all
  also have "\<dots> = ss ! j" unfolding v using j by (simp add: nth_append)
  finally show ?thesis using place_on_deck [OF r, of j] n j by simp
qed

lemma before_tail:
  assumes r: "in_ring c ds ss" and j: "0 < j" "j < length ss"
  shows "(on_deck c + j) mod length (ring c) \<noteq> tail c"
proof
  let ?n = "length (ring c)"
  assume e: "(on_deck c + j) mod ?n = tail c"
  from r have n: "length ds + length ss \<le> ?n" and t: "tail c = (head c + length ds + length ss) mod ?n"
    and d: "on_deck c = (head c + length ds) mod ?n" by (elim in_ringE; simp)+
  from e have "(head c + length ds + j) mod ?n = (head c + length ds + length ss) mod ?n"
    unfolding t d by (simp add: mod_add_left_eq)
  then have m: "(head c + length ds + j) mod ?n = (head c + length ds + length ss mod ?n) mod ?n"
    by (simp add: mod_add_right_eq)
  have "j < ?n" "0 < ?n" using j n by linarith+
  from mod_add_inj [OF this(1) _ m] this(2) have "j = length ss mod ?n" by simp
  with j n show False by (cases "length ss = ?n") auto
qed

lemma pending_find_ok:
  assumes r: "in_ring c ds (xs @ s # ss)" and s: "mid = q_id s" "mid \<notin> q_id ` set xs"
  shows "pending_find c mid = Some (Some ((on_deck c + length xs) mod length (ring c)))"
  unfolding pending_find_def
proof (rule pending_loop_finds)
  let ?n = "length (ring c)"
  show "length xs < ?n" using r by (elim in_ringE) simp
  show "on_deck c < ?n" by (rule in_ring_on_deck [OF r])
  show "\<forall>j < length xs. q_id (ring c ! ((on_deck c + j) mod ?n)) \<noteq> mid"
    using s awaited_at [OF r] by (auto simp: nth_append) (metis imageI nth_mem)
  show "\<forall>j \<le> length xs. 0 < j \<longrightarrow> (on_deck c + j) mod ?n \<noteq> tail c"
    using before_tail [OF r] by auto
  show "q_id (ring c ! ((on_deck c + length xs) mod ?n)) = mid"
    using s awaited_at [OF r, of "length xs"] by simp
qed simp

definition answered :: "mem \<Rightarrow> ('cb, 'x) query \<Rightarrow> ('cb, 'x) query" where
  "answered m q = q\<lparr>q_resp := Some m, q_state := Q_READY\<rparr>"

lemma wake_ready_ring [simp]:
  "in_ring (wake_ready c) ds ss \<longleftrightarrow> in_ring c ds ss" "calls (wake_ready c) = calls c"
  by (simp_all add: in_ring_def wake_ready_def)

lemma store_response_ok:
  assumes r: "in_ring c ds (s # ss)"
  shows "\<exists>c'. store_response mid m (on_deck c) c = Some c' \<and> in_ring c' (ds @ [answered m s]) ss \<and>
    calls c' = calls c"
proof -
  have "q_state s = Q_SENT" using r by (simp add: in_ring_def Let_def)
  with on_deck_query [OF r] have
    "store_response mid m (on_deck c) c = Some (wake_ready (step_on_deck (set_query (on_deck c) (answered m s) c)))"
    by (simp add: store_response_def answered_def query_set_state_def)
  with advance_ok [OF r, of "answered m s"] show ?thesis
    by (simp add: answered_def step_on_deck_def set_query_def)
qed

lemma process_msg_ok:
  assumes r: "in_ring c ds (xs @ s # ss)" and m: "opo_msg_id m 0 = Some (q_id s)"
    and s: "q_id s \<notin> q_id ` set xs" and lm: "lost_message alloc (q_id s) = Some msg"
  shows "\<exists>c'. process_msg alloc m c = Some c' \<and>
    in_ring c' (ds @ map (lost msg) xs @ [answered m s]) ss \<and> calls c' = calls c"
proof -
  let ?q = "(on_deck c + length xs) mod length (ring c)"
  obtain d where d: "query_at c (on_deck c) = Some d" "xs = [] \<longrightarrow> d = s"
    using r on_deck_query by (cases xs) fastforce+
  have f: "(if q_id s \<noteq> q_id d then pending_find c (q_id s) else Some (Some (on_deck c))) = Some (Some ?q)"
  proof (cases xs)
    case Nil
    with d in_ring_on_deck [OF r] show ?thesis by simp
  next
    case (Cons x ys)
    with r on_deck_query have "query_at c (on_deck c) = Some x" by fastforce
    with d(1) s Cons have "q_id s \<noteq> q_id d" by auto
    with pending_find_ok [OF r refl s] show ?thesis by simp
  qed
  from lose_until_ok [OF lm r refl] obtain c1 where c1: "lose_until alloc (q_id s) ?q c = Some c1"
    "in_ring c1 (ds @ map (lost msg) xs) (s # ss)" "on_deck c1 = ?q" "calls c1 = calls c" by blast
  from store_response_ok [OF c1(2), of "q_id s" m] c1(3,4) obtain c' where
    "store_response (q_id s) m ?q c1 = Some c'" "in_ring c' ((ds @ map (lost msg) xs) @ [answered m s]) ss"
    "calls c' = calls c" by auto
  with m d(1) f c1(1) show ?thesis by (simp add: process_msg_def)
qed


section \<open>Taking and finishing queries\<close>

text \<open>What processing leaves as it is\<close>

definition same_setup :: "('cb, 'x) client \<Rightarrow> ('cb, 'x) client \<Rightarrow> bool" where
  "same_setup c c' \<longleftrightarrow> pending_max c' = pending_max c \<and> on_query c' = on_query c \<and> next_id c' = next_id c"

lemma same_setup_refl [simp]: "same_setup c c"
  by (simp add: same_setup_def)

lemma same_setup_trans: "same_setup c c1 \<Longrightarrow> same_setup c1 c2 \<Longrightarrow> same_setup c c2"
  by (simp add: same_setup_def)

definition answer :: "('cb, 'x) query \<Rightarrow> ('cb, 'x) event list" where
  "answer q = (case q_cb q of None \<Rightarrow> [] | Some cb \<Rightarrow> [Response cb (q_id q) (q_resp q) (q_ctx q)])"

lemma take_finish_ok:
  assumes r: "in_ring c (d # ds) ss" and d: "q_state d = Q_READY"
  shows "\<exists>i c1 c2. take_next_ready c wait = Some (c1, Some i) \<and> finish_query i c1 = Some c2 \<and>
    in_ring c2 ds ss \<and> calls c2 = calls c @ answer d \<and> same_setup c c2"
proof -
  let ?n = "length (ring c)"
  from r obtain cs where v: "rotate (head c) (ring c) = (d # ds) @ ss @ cs" "head c < ?n"
    and n: "?n = length (d # ds) + length ss + length cs"
    and pos: "on_deck c = (head c + length (d # ds)) mod ?n" "tail c = (head c + length (d # ds) + length ss) mod ?n"
    and hl: "\<not> head_lock c" and cs: "\<And>q. q \<in> set cs \<Longrightarrow> q_state q = Q_CLEAR \<and> q_resp q = None"
    by (rule in_ringE) blast
  let ?e = "query_set_state (d\<lparr>q_id := 0, q_resp := None\<rparr>) Q_CLEAR"
  define c1 where "c1 = set_query (head c) (query_set_state d Q_TAKEN) (c\<lparr>head := ring_next c (head c)\<rparr>)"
  define c2 where "c2 = set_query (head c) ?e (call_back (q_cb d) (q_id d) (q_resp d) (q_ctx d) c1)"
  have "0 < ?n" using v(2) by linarith
  then have at: "query_at c (head c) = Some d" using query_at_view [OF v, of 0] v(2) by simp
  then have t: "take_next_ready c wait = Some (c1, Some (head c))"
    using hl d by (simp add: take_next_ready_def c1_def Let_def)
  have f: "finish_query (head c) c1 = Some c2"
    using v(2) by (simp add: finish_query_def c1_def c2_def query_at_def set_query_def query_set_state_def Let_def)
  have ring2: "ring c2 = (ring c)[head c := ?e]" "head c2 = (head c + 1) mod ?n" "on_deck c2 = on_deck c"
    "tail c2 = tail c" "pending_max c2 = pending_max c" "head_lock c2 = head_lock c" "tail_lock c2 = tail_lock c"
    using ring_next_mod [OF v(2)]
    by (simp_all add: c2_def c1_def set_query_def call_back_def split: option.split)
  have "in_ring c2 ds ss"
  proof (rule in_ringI [where cs = "cs @ [?e]"])
    have "rotate (head c) (ring c2) = ?e # ds @ ss @ cs"
      using set_query_view [of "head c" c "[]" d "ds @ ss @ cs" ?e] v by (simp add: set_query_def ring2)
    then show "rotate (head c2) (ring c2) = ds @ ss @ cs @ [?e]"
      using rotate_next [of "head c" "ring c2"] ring2(1,2) by simp
    show "head c2 < length (ring c2)" using ring2(1,2) v(2) by (simp add: mod_len_less)
    show "on_deck c2 = (head c2 + length ds) mod length (ring c2)"
      "tail c2 = (head c2 + length ds + length ss) mod length (ring c2)"
      using ring2(1-4) pos mod_add_left_eq [of "head c + 1" ?n "length ds"]
        mod_add_left_eq [of "head c + 1" ?n "length ds + length ss"] by (simp_all add: add.assoc)
  next
    fix q assume "q \<in> set (cs @ [?e])"
    then show "q_state q = Q_CLEAR \<and> q_resp q = None" using cs by (auto simp: query_set_state_def)
  qed (use r ring2 in \<open>auto simp: in_ring_def Let_def\<close>)
  moreover have "calls c2 = calls c @ answer d"
    by (simp add: c2_def c1_def set_query_def call_back_def answer_def split: option.split)
  moreover have "same_setup c c2"
    by (simp add: c2_def c1_def set_query_def call_back_def same_setup_def split: option.split)
  ultimately show ?thesis using t f by blast
qed

text \<open>Nothing is taken when the oldest query is not ready.\<close>

lemma take_none:
  assumes r: "in_ring c ds ss" and d: "ds = [] \<or> q_state (hd ds) \<noteq> Q_READY"
  shows "\<exists>c1. take_next_ready c wait = Some (c1, None) \<and> in_ring c1 ds ss \<and> calls c1 = calls c \<and> same_setup c c1"
proof -
  from r obtain cs where v: "rotate (head c) (ring c) = ds @ ss @ cs" "head c < length (ring c)"
    and hl: "\<not> head_lock c" and n: "length (ring c) = length ds + length ss + length cs"
    and q: "\<And>q. q \<in> set ss \<Longrightarrow> q_state q = Q_SENT" "\<And>q. q \<in> set cs \<Longrightarrow> q_state q = Q_CLEAR \<and> q_resp q = None"
    by (rule in_ringE) blast
  have "0 < length (ring c)" using v(2) by linarith
  moreover from this have "ds @ ss @ cs \<noteq> []" using n by auto
  ultimately have at: "query_at c (head c) = Some (hd (ds @ ss @ cs))"
    using query_at_view [OF v, of 0] v(2) by (simp add: hd_conv_nth)
  have "q_state (hd (ds @ ss @ cs)) \<noteq> Q_READY"
  proof (cases ds)
    case Nil
    have "ss @ cs \<noteq> []" using n v(2) Nil by auto
    then have "hd (ss @ cs) \<in> set (ss @ cs)" by (rule hd_in_set)
    with q Nil show ?thesis by auto
  qed (use d in simp)
  moreover have "in_ring (wait_for_ready c) ds ss" "calls (wait_for_ready c) = calls c" "same_setup c (wait_for_ready c)"
    using r by (simp_all add: in_ring_def wait_for_ready_def same_setup_def Let_def)
  ultimately show ?thesis using at hl r by (auto simp: take_next_ready_def)
qed

text \<open>How many of the answered queries one call processes\<close>

definition ready_quota :: "int \<Rightarrow> int \<Rightarrow> ('cb, 'x) query list \<Rightarrow> nat" where
  "ready_quota mx cnt ds = quota mx cnt (length (takeWhile (\<lambda>q. q_state q = Q_READY) ds))"

lemma process_ready_ok:
  assumes "not_negative wait"
  shows "in_ring c ds ss \<Longrightarrow>
    \<exists>c'. process_ready c mx wait cnt = Some (c', cnt + int (ready_quota mx cnt ds)) \<and>
      in_ring c' (drop (ready_quota mx cnt ds) ds) ss \<and>
      calls c' = calls c @ concat (map answer (take (ready_quota mx cnt ds) ds)) \<and> same_setup c c'"
proof (induction ds arbitrary: c cnt)
  case Nil
  show ?case
  proof (cases "0 \<ge> mx \<or> cnt < mx")
    case True
    from take_none [OF Nil, of wait] obtain c1 where
      "take_next_ready c wait = Some (c1, None)" "in_ring c1 [] ss" "calls c1 = calls c" "same_setup c c1" by auto
    with True assms show ?thesis by (subst process_ready.simps) (simp add: ready_quota_def quota_def)
  next
    case False
    with Nil show ?thesis by (subst process_ready.simps) (simp add: ready_quota_def quota_def)
  qed
next
  case (Cons d ds)
  show ?case
  proof (cases "0 \<ge> mx \<or> cnt < mx")
    case False
    with Cons.prems show ?thesis by (subst process_ready.simps) (simp add: ready_quota_def quota_def)
  next
    case go: True
    show ?thesis
    proof (cases "q_state d = Q_READY")
      case False
      from take_none [OF Cons.prems, of wait] False obtain c1 where
        "take_next_ready c wait = Some (c1, None)" "in_ring c1 (d # ds) ss" "calls c1 = calls c" "same_setup c c1" by auto
      with go assms False show ?thesis by (subst process_ready.simps) (simp add: ready_quota_def quota_def)
    next
      case True
      from take_finish_ok [OF Cons.prems this, of wait] obtain i c1 c2 where
        s: "take_next_ready c wait = Some (c1, Some i)" "finish_query i c1 = Some c2"
        "in_ring c2 ds ss" "calls c2 = calls c @ answer d" "same_setup c c2" by blast
      have q: "ready_quota mx cnt (d # ds) = Suc (ready_quota mx (cnt + 1) ds)"
        using True go by (auto simp: ready_quota_def quota_def)
      have "process_ready c mx wait cnt = process_ready c2 mx wait (cnt + 1)"
        using go s(1,2) by (subst process_ready.simps) simp
      with Cons.IH [OF s(3), of "cnt + 1"] s(4) show ?thesis
        unfolding q by (auto intro: same_setup_trans [OF s(5)])
    qed
  qed
qed


section \<open>Sending a query\<close>

lemma set_id_bytes: "length i = 8 \<Longrightarrow> opo_msg_set_id (i @ v) 0 mid = Some (be_bytes 8 mid @ v)"
  by (simp add: opo_msg_set_id_fill fill_uint64_put put_def)

definition sent_query :: "uint64 \<Rightarrow> 'cb option \<Rightarrow> 'x option \<Rightarrow> double \<Rightarrow> ('cb, 'x) query" where
  "sent_query mid cb ctx now = \<lparr>q_id = mid, q_cb = cb, q_ctx = ctx, q_when = now, q_state = Q_SENT, q_resp = None\<rparr>"

lemma tail_query:
  assumes r: "in_ring c ds ss" and f: "length ds + length ss < length (ring c)"
  shows "\<exists>q. query_at c (tail c) = Some q \<and> q_state q = Q_CLEAR \<and> q_resp q = None \<and>
    (\<forall>s. q_state s = Q_SENT \<longrightarrow>
      in_ring ((set_query (tail c) s c)\<lparr>tail := ring_next c (tail c)\<rparr>) ds (ss @ [s]))"
proof -
  let ?n = "length (ring c)"
  from r obtain cs where v: "rotate (head c) (ring c) = ds @ ss @ cs" "head c < ?n"
    and t: "tail c = (head c + length ds + length ss) mod ?n" "on_deck c = (head c + length ds) mod ?n"
    and n: "?n = length ds + length ss + length cs"
    and cs: "\<And>q. q \<in> set cs \<Longrightarrow> q_state q = Q_CLEAR \<and> q_resp q = None" by (rule in_ringE) blast
  with f obtain q cs' where q: "cs = q # cs'" by (cases cs) auto
  let ?c = "\<lambda>s. (set_query (tail c) s c)\<lparr>tail := ring_next c (tail c)\<rparr>"
  have tl: "tail c = (head c + length (ds @ ss)) mod ?n" using t by (simp add: add.assoc)
  have "query_at c (tail c) = Some q"
    unfolding tl using query_at_view [OF v, of "length (ds @ ss)"] n q by simp
  moreover have "in_ring (?c s) ds (ss @ [s])" if s: "q_state s = Q_SENT" for s
  proof (rule in_ringI [where cs = cs'])
    have "rotate (head c) (ring (set_query (tail c) s c)) = (ds @ ss) @ s # cs'"
      unfolding tl by (rule set_query_view) (use v q in simp_all)
    then show "rotate (head (?c s)) (ring (?c s)) = ds @ (ss @ [s]) @ cs'" by (simp add: set_query_def)
    have "tail c < ?n" unfolding tl using v(2) by (rule mod_len_less)
    from ring_next_mod [OF this] have "ring_next c (tail c) = Suc (head c + length ds + length ss) mod ?n"
      unfolding t(1) by (simp add: mod_Suc_eq)
    then show "tail (?c s) = (head (?c s) + length ds + length (ss @ [s])) mod length (ring (?c s))"
      by (simp add: set_query_def)
  next
    fix x assume "x \<in> set (ss @ [s])"
    with r s show "q_state x = Q_SENT" by (auto simp: in_ring_def Let_def)
  next
    fix x assume "x \<in> set cs'"
    with cs q show "q_state x = Q_CLEAR \<and> q_resp x = None" by simp
  qed (use r t(2) in \<open>auto simp: set_query_def in_ring_def Let_def\<close>)
  moreover have "q_state q = Q_CLEAR \<and> q_resp q = None" using cs q by simp
  ultimately show ?thesis by blast
qed

lemma query_full:
  assumes r: "in_ring c ds ss" and f: "length ds + length ss = length (ring c)"
  shows "\<exists>q. query_at c (tail c) = Some q \<and> q_state q \<noteq> Q_CLEAR"
proof -
  let ?n = "length (ring c)"
  from r obtain cs where v: "rotate (head c) (ring c) = ds @ ss @ cs" "head c < ?n"
    and t: "tail c = (head c + length ds + length ss) mod ?n"
    and n: "?n = length ds + length ss + length cs"
    and q: "\<And>q. q \<in> set ds \<Longrightarrow> q_state q = Q_READY \<or> q_state q = Q_SENT \<and> q_cb q = None"
      "\<And>q. q \<in> set ss \<Longrightarrow> q_state q = Q_SENT" by (rule in_ringE) blast
  have "0 < ?n" using v(2) by linarith
  have "tail c = (head c + ?n) mod ?n" unfolding t f [symmetric] by (simp only: add.assoc)
  then have tl: "tail c = head c" using v(2) by simp
  have "cs = []" using n f by simp
  then have L: "rotate (head c) (ring c) = ds @ ss" using v(1) by (simp only: append_Nil2)
  have "query_at c ((head c + 0) mod ?n) = Some ((ds @ ss) ! 0)"
    by (rule query_at_view [OF L v(2) \<open>0 < ?n\<close>])
  then have at: "query_at c (tail c) = Some ((ds @ ss) ! 0)" unfolding tl using v(2) by (simp only: add_0_right mod_less)
  have "(ds @ ss) ! 0 \<in> set (ds @ ss)" using f \<open>0 < ?n\<close> by (intro nth_mem) simp
  then consider "(ds @ ss) ! 0 \<in> set ds" | "(ds @ ss) ! 0 \<in> set ss" unfolding set_append by blast
  then have "q_state ((ds @ ss) ! 0) \<noteq> Q_CLEAR" using q by cases force+
  with at show ?thesis by blast
qed

lemma query_ok:
  assumes r: "in_ring c ds ss" and q: "on_query c = None" and i: "length i = 8" and w: "wf_wire w"
    and f: "length ds + length ss < length (ring c)"
    and wr: "fst (wr (be_bytes 8 (next_id c) @ enc w)) = int (8 + length (enc w))"
  shows "\<exists>c'. opo_client_query wr strerror now err c (i @ enc w) cb ctx =
      Some (c', err, be_bytes 8 (next_id c) @ enc w, next_id c) \<and>
    in_ring c' ds (ss @ [sent_query (next_id c) cb ctx now]) \<and>
    sent c' = sent c @ be_bytes 8 (next_id c) @ enc w \<and> next_id c' = next_id c + 1 \<and> calls c' = calls c \<and>
    on_query c' = None \<and> pending_max c' = pending_max c"
proof -
  let ?m = "be_bytes 8 (next_id c) @ enc w"
  obtain e where e: "wr ?m = (int (8 + length (enc w)), e)" using wr by (cases "wr ?m") simp
  from tail_query [OF r f] obtain o1 where o1: "query_at c (tail c) = Some o1" "q_state o1 = Q_CLEAR" "q_resp o1 = None"
    and st: "\<And>s. q_state s = Q_SENT \<Longrightarrow> in_ring ((set_query (tail c) s c)\<lparr>tail := ring_next c (tail c)\<rparr>) ds (ss @ [s])"
    by blast
  have sz: "opo_msg_bsize (i @ enc w) 0 = Some (8 + length (enc w))"
    by (rule msg_bsize_enc [OF w i bytes_at_whole])
  let ?s = "sent_query (next_id c) cb ctx now"
  let ?c = "(set_query (tail c) ?s c)\<lparr>tail := ring_next c (tail c)\<rparr>"
  let ?c' = "?c\<lparr>next_id := next_id c + 1, sent := sent c @ ?m\<rparr>"
  have "query_set_state (o1\<lparr>q_id := next_id c, q_cb := cb, q_ctx := ctx, q_when := now\<rparr>) Q_SENT = ?s"
    using o1(3) by (simp add: sent_query_def query_set_state_def)
  moreover have "\<not> tail_lock c" using r by (simp add: in_ring_def Let_def)
  ultimately have "opo_client_query wr strerror now err c (i @ enc w) cb ctx = Some (?c', err, ?m, next_id c)"
    using q sz o1(1,2) set_id_bytes [OF i] e
    by (simp add: opo_client_query_def query_at_def set_query_def ring_next_def rd_range_def send_query_def Let_def)
  moreover have "in_ring ?c' ds (ss @ [?s])"
    using st [of ?s] by (simp add: sent_query_def in_ring_def)
  ultimately show ?thesis using q by (simp add: set_query_def)
qed


section \<open>A response nobody waits for\<close>

lemma pending_loop_misses:
  "0 < k \<Longrightarrow> k \<le> length (ring c) \<Longrightarrow> q < length (ring c) \<Longrightarrow> (looped \<longrightarrow> q + k \<le> length (ring c)) \<Longrightarrow>
   \<forall>j < k. q_id (ring c ! ((q + j) mod length (ring c))) \<noteq> mid \<Longrightarrow>
   \<forall>j < k. 0 < j \<longrightarrow> (q + j) mod length (ring c) \<noteq> tail c \<Longrightarrow>
   (q + k) mod length (ring c) = tail c \<Longrightarrow> pending_loop c mid q looped = Some None"
proof (induction k arbitrary: q looped)
  case (Suc k)
  let ?n = "length (ring c)"
  let ?q = "(q + 1) mod ?n"
  have q: "?q < ?n" using Suc.prems(3) by (rule mod_len_less)
  have e: "(?q + j) mod ?n = (q + Suc j) mod ?n" for j by (simp add: mod_add_left_eq)
  have id: "q_id (ring c ! q) \<noteq> mid" using spec [OF Suc.prems(5), of 0] Suc.prems(3) by simp
  have ih: "pending_loop c mid ?q lp = Some None" if "lp \<longrightarrow> ?q + k \<le> ?n" "0 < k" for lp
  proof (rule Suc.IH [OF that(2) _ q that(1)])
    show "\<forall>j < k. q_id (ring c ! ((?q + j) mod ?n)) \<noteq> mid" using Suc.prems(5) unfolding e by auto
    show "\<forall>j < k. 0 < j \<longrightarrow> (?q + j) mod ?n \<noteq> tail c" using Suc.prems(6) unfolding e by auto
    show "(?q + k) mod ?n = tail c" using Suc.prems(7) unfolding e .
  qed (use Suc.prems(2) in simp)
  have t: "?q = tail c \<longleftrightarrow> k = 0"
  proof (cases k)
    case 0
    with Suc.prems(7) show ?thesis by simp
  next
    case (Suc k')
    with spec [OF Suc.prems(6), of 1] show ?thesis by simp
  qed
  show ?case
  proof (cases "q + 1 = ?n")
    case True
    then have z: "?q = 0" by simp
    show ?thesis
    proof (cases "k = 0 \<or> looped")
      case False
      with z t ih [of True] Suc.prems(2) True id show ?thesis
        by (subst pending_loop.simps) (auto simp: query_at_def)
    qed (use z t True id in \<open>subst pending_loop.simps, auto simp: query_at_def\<close>)
  next
    case False
    with Suc.prems(3) have "?q = q + 1" by simp
    with False id t ih [of looped] Suc.prems(3,4) show ?thesis
      by (subst pending_loop.simps) (auto simp: query_at_def)
  qed
qed simp

lemma process_msg_unknown:
  assumes r: "in_ring c ds ss" and ss: "ss \<noteq> []" and m: "opo_msg_id m 0 = Some mid"
    and mid: "mid \<notin> q_id ` set ss"
  shows "process_msg alloc m c =
    status_callback True OPO_ERR_NOT_FOUND (''Pending query '' @ dec_text (unat mid) @ '' not found.'') c"
proof -
  let ?n = "length (ring c)"
  from ss obtain s ss' where s: "ss = s # ss'" by (cases ss) auto
  have at: "query_at c (on_deck c) = Some s" using r s on_deck_query by blast
  have "pending_find c mid = Some None"
    unfolding pending_find_def
  proof (rule pending_loop_misses)
    show "length ss \<le> ?n" "(on_deck c + length ss) mod ?n = tail c"
      using r by (elim in_ringE; simp add: mod_add_left_eq)+
    show "\<forall>j < length ss. q_id (ring c ! ((on_deck c + j) mod ?n)) \<noteq> mid"
      using mid awaited_at [OF r] by auto
    show "\<forall>j < length ss. 0 < j \<longrightarrow> (on_deck c + j) mod ?n \<noteq> tail c"
      using before_tail [OF r] by auto
  qed (use ss in_ring_on_deck [OF r] in simp_all)
  then show ?thesis using m at mid s by (simp add: process_msg_def)
qed

section \<open>Counting\<close>

lemma counts_ok:
  assumes "in_ring c ds ss"
  shows "opo_client_pending_count c = (if length ss = length (ring c) then 0 else int (length ss))"
    and "opo_client_ready_count c = (if length ds = length (ring c) then 0 else int (length ds))"
proof -
  let ?n = "int (length (ring c))"
  from assms have n: "length ds + length ss \<le> length (ring c)" and pm: "pending_max c = length (ring c)"
    and t: "int (tail c) = int (head c + length ds + length ss) mod ?n"
    and d: "int (on_deck c) = int (head c + length ds) mod ?n"
    by (elim in_ringE; simp add: zmod_int)+
  have diff: "(a mod N + N - b mod N) mod N = (a - b) mod N" "(a mod N + N - b) mod N = (a - b) mod N" for a b N :: int
  proof -
    have "a mod N + N - b mod N = (a mod N - b mod N) + N" "a mod N + N - b = (a mod N - b) + N" by simp_all
    then show "(a mod N + N - b mod N) mod N = (a - b) mod N" "(a mod N + N - b) mod N = (a - b) mod N"
      by (simp_all only: mod_add_self2 mod_diff_left_eq mod_diff_right_eq)
  qed
  have "(int (tail c) + ?n - int (on_deck c)) mod ?n = (int (head c + length ds + length ss) - int (head c + length ds)) mod ?n"
    unfolding t d by (rule diff)
  then show "opo_client_pending_count c = (if length ss = length (ring c) then 0 else int (length ss))"
    using n pm by (simp add: opo_client_pending_count_def)
  have "(int (on_deck c) + ?n - int (head c)) mod ?n = (int (head c + length ds) - int (head c)) mod ?n"
    unfolding d by (rule diff)
  then show "opo_client_ready_count c = (if length ds = length (ring c) then 0 else int (length ds))"
    using n pm by (simp add: opo_client_ready_count_def)
qed

section \<open>A new client\<close>

lemma in_ring_init: "in_ring (client_init net opts) [] []"
proof -
  let ?c = "client_init net opts"
  have "\<exists>n. 0 < n \<and> ring ?c = replicate n new_query \<and> pending_max ?c = n"
    by (auto simp: client_init_def Let_def split: prod.split option.split)
  then obtain n where n: "0 < n" "ring ?c = replicate n new_query" "pending_max ?c = n" by blast
  have "head ?c = 0 \<and> on_deck ?c = 0 \<and> tail ?c = 0 \<and> \<not> head_lock ?c \<and> \<not> tail_lock ?c"
    by (simp add: client_init_def Let_def split: prod.split)
  with n show ?thesis
    by (intro in_ringI [where cs = "replicate n new_query"]) (auto simp: new_query_def)
qed

end
