(* ===== verification/Duplicate.thy ===== *)
theory Duplicate imports ClientSpec begin

text \<open>
  What a response does to the ring of queries that was answered before: the search and the loop of
  \<open>process_msg\<close> over queries in any state, and the way of a duplicate response that arrives while no
  response is awaited.
\<close>

section \<open>Losing queries, whatever their state\<close>

lemma rotate_view: "rotate h r = xs @ ys \<Longrightarrow> rotate ((h + length xs) mod length r) r = ys @ xs"
  by (metis rotate_append rotate_conv_mod rotate_rotate add.commute length_rotate)

lemma rotate_1_view: "rotate h r = x # xs \<Longrightarrow> rotate ((h + 1) mod length r) r = xs @ [x]"
  using rotate_view [of h r "[x]" xs] by simp

lemma rotate1_last: "rotate1 xs = ys @ [y] \<Longrightarrow> xs = y # ys"
  by (cases xs) simp_all

text \<open>
  \<open>lose_until\<close> goes from \<open>on_deck\<close> to the query at \<open>q\<close>, and what it passes over is lost in whatever
  state it is.
\<close>

lemma lose_run:
  assumes lm: "lost_message alloc mid = Some msg"
  shows "rotate (on_deck c) (ring c) = xs @ ys \<Longrightarrow> on_deck c < length (ring c) \<Longrightarrow> ys \<noteq> [] \<Longrightarrow>
    q = (on_deck c + length xs) mod length (ring c) \<Longrightarrow>
    \<exists>r. lose_until alloc mid q c = Some (c\<lparr>ring := r, on_deck := q\<rparr>) \<and> length r = length (ring c) \<and>
      rotate (on_deck c) r = map (lost msg) xs @ ys"
proof (induction xs arbitrary: c ys)
  case Nil
  then show ?case by (intro exI [of _ "ring c"]) (simp add: lose_until.simps)
next
  case (Cons x xs)
  let ?n = "length (ring c)" and ?d = "on_deck c"
  let ?c1 = "set_query ?d (lost msg x) c" and ?d1 = "(on_deck c + 1) mod length (ring c)"
  have n: "?n = Suc (length xs + length ys)" using arg_cong [OF Cons.prems(1), of length] by simp
  have at: "query_at c ?d = Some x"
    using query_at_view [OF Cons.prems(1,2), of 0] Cons.prems(2) n by simp
  have view: "rotate ?d (ring ?c1) = lost msg x # xs @ ys"
    using set_query_view [of ?d c "[]" x "xs @ ys" "lost msg x"] Cons.prems(1,2) by simp
  have "lose_query alloc mid c = Some ?c1"
    using at lm by (auto simp: lose_query_def lost_def query_set_state_def set_query_def query_at_def list_update_same_conv
        split: option.split if_splits)
  moreover have "q \<noteq> ?d"
  proof
    assume "q = ?d"
    then have "(?d + Suc (length xs)) mod ?n = (?d + 0) mod ?n" using Cons.prems(2,4) by simp
    from mod_add_inj [OF _ _ this] n Cons.prems(3) show False by simp
  qed
  moreover have q: "q < ?n" using Cons.prems(4) mod_len_less [OF Cons.prems(2)] by simp
  moreover have st: "step_on_deck ?c1 = ?c1\<lparr>on_deck := ?d1\<rparr>"
    using ring_next_mod [of ?d ?c1] Cons.prems(2) by (simp add: step_on_deck_def set_query_def)
  ultimately have "lose_until alloc mid q c = lose_until alloc mid q (?c1\<lparr>on_deck := ?d1\<rparr>)"
    by (subst lose_until.simps) simp
  moreover have "\<exists>r. lose_until alloc mid q (?c1\<lparr>on_deck := ?d1\<rparr>) =
      Some (?c1\<lparr>on_deck := ?d1\<rparr>\<lparr>ring := r, on_deck := q\<rparr>) \<and> length r = length (ring (?c1\<lparr>on_deck := ?d1\<rparr>)) \<and>
      rotate (on_deck (?c1\<lparr>on_deck := ?d1\<rparr>)) r = map (lost msg) xs @ (ys @ [lost msg x])"
    using rotate_1_view [OF view] Cons.prems(2-4) mod_len_less [OF Cons.prems(2)]
    by (intro Cons.IH) (simp_all add: set_query_def mod_add_left_eq)
  then obtain r where r: "lose_until alloc mid q (?c1\<lparr>on_deck := ?d1\<rparr>) = Some (?c1\<lparr>on_deck := ?d1, ring := r, on_deck := q\<rparr>)"
    "length r = ?n" "rotate ?d1 r = (map (lost msg) xs @ ys) @ [lost msg x]" by (auto simp: set_query_def)
  have "rotate1 (rotate ?d r) = rotate ?d1 r" using rotate_next [of ?d r] r(2) by simp
  then have "rotate ?d r = lost msg x # map (lost msg) xs @ ys" using r(3) rotate1_last by metis
  ultimately show ?case using r(1,2) by (intro exI [of _ r]) (simp add: set_query_def)
qed

text \<open>The search for a query from \<open>on_deck\<close> on, with the ring seen from there.\<close>

lemma pending_find_view:
  assumes v: "rotate (on_deck c) (ring c) = xs @ s # ys" and d: "on_deck c < length (ring c)"
    and s: "q_id s \<notin> q_id ` set xs"
    and t: "tail c = (on_deck c + k) mod length (ring c)" "k = 0 \<or> length xs < k" "k < length (ring c)"
  shows "pending_find c (q_id s) = Some (Some ((on_deck c + length xs) mod length (ring c)))"
  unfolding pending_find_def
proof (rule pending_loop_finds)
  let ?n = "length (ring c)"
  have n: "?n = length xs + Suc (length ys)" using arg_cong [OF v, of length] by simp
  then show "length xs < ?n" by simp
  have at: "ring c ! ((on_deck c + j) mod ?n) = (xs @ s # ys) ! j" if "j < ?n" for j
    using query_at_view [OF v d that] mod_len_less [OF d] by (simp add: query_at_def)
  show "\<forall>j < length xs. q_id (ring c ! ((on_deck c + j) mod ?n)) \<noteq> q_id s"
  proof (intro allI impI)
    fix j assume j: "j < length xs"
    then have "xs ! j \<in> set xs" by simp
    then have "q_id (xs ! j) \<noteq> q_id s" using s by (metis image_eqI)
    then show "q_id (ring c ! ((on_deck c + j) mod ?n)) \<noteq> q_id s" using at [of j] n j by (simp add: nth_append)
  qed
  show "q_id (ring c ! ((on_deck c + length xs) mod ?n)) = q_id s" using at n by simp
  show "\<forall>j \<le> length xs. 0 < j \<longrightarrow> (on_deck c + j) mod ?n \<noteq> tail c"
  proof (intro allI impI)
    fix j assume j: "j \<le> length xs" "0 < j"
    show "(on_deck c + j) mod ?n \<noteq> tail c"
    proof
      assume "(on_deck c + j) mod ?n = tail c"
      then have "(on_deck c + j) mod ?n = (on_deck c + k) mod ?n" by (simp add: t(1))
      from mod_add_inj [OF _ t(3) this] j n have "j = k" by simp
      with j t(2) show False by simp
    qed
  qed
qed (use d in simp_all)

lemma found_view:
  assumes v: "rotate (on_deck c) (ring c) = xs @ s # ys" and d: "on_deck c < length (ring c)"
    and s: "q_id s \<notin> q_id ` set xs"
    and t: "tail c = (on_deck c + k) mod length (ring c)" "k = 0 \<or> length xs < k" "k < length (ring c)"
    and lm: "lost_message alloc (q_id s) = Some msg" and m: "opo_msg_id m 0 = Some (q_id s)"
  shows "\<exists>r. process_msg alloc m c =
      store_response (q_id s) m ((on_deck c + length xs) mod length (ring c))
        (c\<lparr>ring := r, on_deck := (on_deck c + length xs) mod length (ring c)\<rparr>) \<and>
    length r = length (ring c) \<and> rotate (on_deck c) r = map (lost msg) xs @ s # ys"
proof -
  let ?q = "(on_deck c + length xs) mod length (ring c)"
  have "0 < length (ring c)" using d by linarith
  from query_at_view [OF v d this] d have at: "query_at c (on_deck c) = Some (hd (xs @ [s]))"
    by (cases xs) simp_all
  have "(if q_id s \<noteq> q_id (hd (xs @ [s])) then pending_find c (q_id s) else Some (Some (on_deck c))) = Some (Some ?q)"
    using pending_find_view [OF assms(1-6)] s d by (cases xs) auto
  with at m lose_run [OF lm v d _ refl] show ?thesis by (auto simp: process_msg_def)
qed

section \<open>A duplicate response\<close>

text \<open>
  With no response awaited, a duplicate response is searched for through the whole ring: \<open>on_deck\<close>
  goes back to its query, over the free places and the answered queries before it, which are lost.
\<close>

lemma duplicate_ok:
  assumes r: "in_ring c (as @ d # bs) []" and v: "rotate (head c) (ring c) = (as @ d # bs) @ cs" and cs: "cs \<noteq> []"
    and free: "\<And>x. x \<in> set cs \<Longrightarrow> q_cb x = None \<and> q_id x \<noteq> q_id d" and d: "q_state d = Q_READY"
    and ids: "q_id d \<notin> q_id ` set as" and st: "has_status c"
    and lm: "lost_message alloc (q_id d) = Some msg" and m: "opo_msg_id m 0 = Some (q_id d)"
  shows "\<exists>r l. process_msg alloc m c = Some (c\<lparr>ring := r, on_deck := (head c + length as) mod length (ring c), calls := l\<rparr>) \<and>
    length r = length (ring c) \<and> rotate (head c) r = map (lost msg) as @ d # bs @ cs"
proof -
  let ?n = "length (ring c)" and ?ds = "as @ d # bs"
  have n: "?n = length ?ds + length cs" using arg_cong [OF v, of length] by simp
  have od: "on_deck c = (head c + length ?ds) mod ?n" "tail c = on_deck c" "on_deck c < ?n" "head c < ?n"
    using r in_ring_on_deck [OF r] by (auto elim!: in_ringE)
  have "rotate (on_deck c) (ring c) = cs @ ?ds" unfolding od(1) by (rule rotate_view [OF v])
  then have view: "rotate (on_deck c) (ring c) = (cs @ as) @ d # bs" by simp
  have "q_id d \<notin> q_id ` set (cs @ as)"
  proof
    assume "q_id d \<in> q_id ` set (cs @ as)"
    then show False unfolding set_append image_Un
    proof
      assume "q_id d \<in> q_id ` set cs"
      then show False by (rule imageE) (metis free)
    qed (use ids in simp)
  qed
  from found_view [OF view od(3) this, of 0, OF _ _ _ lm m] od n obtain r' where
    r': "process_msg alloc m c = store_response (q_id d) m ((on_deck c + length (cs @ as)) mod ?n)
        (c\<lparr>ring := r', on_deck := (on_deck c + length (cs @ as)) mod ?n\<rparr>)" "length r' = ?n"
      "rotate (on_deck c) r' = map (lost msg) (cs @ as) @ d # bs" by (auto simp del: length_append)
  have "map (lost msg) cs = cs" using free by (intro map_idI) (simp add: lost_def)
  then have w: "rotate (on_deck c) r' = cs @ (map (lost msg) as @ d # bs)" using r'(3) by simp
  have "(on_deck c + length cs) mod ?n = (head c + ?n) mod ?n"
    unfolding od(1) mod_add_left_eq by (simp add: n add.assoc)
  then have "(on_deck c + length cs) mod ?n = head c" using od(4) by simp
  from rotate_view [OF w, unfolded r'(2) this] have hv: "rotate (head c) r' = map (lost msg) as @ d # bs @ cs" by simp
  have q: "(on_deck c + length (cs @ as)) mod ?n = (head c + length as) mod ?n"
    using \<open>(on_deck c + length cs) mod ?n = head c\<close>
    by (metis add.assoc length_append mod_add_left_eq)
  let ?c = "c\<lparr>ring := r', on_deck := (head c + length as) mod ?n\<rparr>"
  have "query_at ?c ((head c + length (map (lost msg) as)) mod length (ring ?c)) = Some d"
    using query_at_view [of "head c" ?c "map (lost msg) as @ d # bs @ cs" "length as"] hv od(4) r'(2) n by (simp add: nth_append)
  then have "query_at ?c ((head c + length as) mod ?n) = Some d" using r'(2) by simp
  then have "\<exists>l. store_response (q_id d) m ((head c + length as) mod ?n) ?c = Some (?c\<lparr>calls := l\<rparr>)"
    using d st by (intro exI) (simp add: store_response_def status_callback_def call_status_def)
  with r' q hv show ?thesis by auto
qed

text \<open>The query that takes the first free place, from a client whose \<open>on_deck\<close> went back.\<close>

lemma query_free_place:
  assumes v: "rotate (head c) (ring c) = ds @ x # cs" and h: "head c < length (ring c)"
    and t: "tail c = (head c + length ds) mod length (ring c)" and q: "on_query c = None" "\<not> tail_lock c"
    and x: "q_state x = Q_CLEAR" "q_resp x = None" and i: "length i = 8" "wf_wire w"
    and wr: "fst (wr (be_bytes 8 (next_id c) @ enc w)) = int (8 + length (enc w))"
  shows "\<exists>r. opo_client_query wr strerror now err c (i @ enc w) cb ctx =
      Some (c\<lparr>ring := r, tail := (tail c + 1) mod length (ring c), next_id := next_id c + 1,
          sent := sent c @ be_bytes 8 (next_id c) @ enc w\<rparr>,
        err, be_bytes 8 (next_id c) @ enc w, next_id c) \<and> length r = length (ring c) \<and>
    rotate (head c) r = ds @ sent_query (next_id c) cb ctx now # cs"
proof -
  let ?n = "length (ring c)" and ?m = "be_bytes 8 (next_id c) @ enc w" and ?s = "sent_query (next_id c) cb ctx now"
  obtain e where e: "wr ?m = (int (8 + length (enc w)), e)" using wr by (cases "wr ?m") simp
  have n: "length ds < ?n" using arg_cong [OF v, of length] by simp
  have at: "query_at c (tail c) = Some x" unfolding t using query_at_view [OF v h n] by simp
  have tn: "tail c < ?n" unfolding t using h by (rule mod_len_less)
  have sz: "opo_msg_bsize (i @ enc w) 0 = Some (8 + length (enc w))" by (rule msg_bsize_enc [OF i(2,1) bytes_at_whole])
  have "query_set_state (x\<lparr>q_id := next_id c, q_cb := cb, q_ctx := ctx, q_when := now\<rparr>) Q_SENT = ?s"
    using x(2) by (simp add: sent_query_def query_set_state_def)
  moreover have "ring_next c' (tail c) = (tail c + 1) mod ?n" if "length (ring c') = ?n" for c' :: "('a, 'b) client"
    using ring_next_mod [of "tail c" c'] tn that by simp
  ultimately have "opo_client_query wr strerror now err c (i @ enc w) cb ctx =
      Some (c\<lparr>ring := (ring c)[tail c := ?s], tail := (tail c + 1) mod ?n, next_id := next_id c + 1,
        sent := sent c @ ?m\<rparr>, err, ?m, next_id c)"
    using q sz at x(1) set_id_bytes [OF i(1)] e
    by (simp add: opo_client_query_def query_at_def set_query_def rd_range_def send_query_def Let_def)
  moreover have "rotate (head c) ((ring c)[tail c := ?s]) = ds @ ?s # cs"
    using set_query_view [OF v h, of ?s] by (simp add: t set_query_def)
  ultimately show ?thesis by (intro exI [of _ "(ring c)[tail c := ?s]"]) simp
qed

text \<open>The response to it, when \<open>on_deck\<close> is at an answered query: those from there on are lost.\<close>

lemma answered_over:
  assumes v: "rotate (head c) (ring c) = as @ bs @ s # cs" and h: "head c < length (ring c)"
    and od: "on_deck c = (head c + length as) mod length (ring c)"
    and t: "tail c = (head c + length (as @ bs) + 1) mod length (ring c)"
    and c: "pending_max c = length (ring c)" "\<not> head_lock c" "\<not> tail_lock c"
    and past: "\<And>q. q \<in> set (as @ bs) \<Longrightarrow> q_state q = Q_READY \<or> q_state q = Q_SENT \<and> q_cb q = None"
    and cs: "\<And>q. q \<in> set cs \<Longrightarrow> q_state q = Q_CLEAR \<and> q_resp q = None"
    and s: "q_state s = Q_SENT" "q_id s \<notin> q_id ` set bs"
    and lm: "lost_message alloc (q_id s) = Some msg" and m: "opo_msg_id m 0 = Some (q_id s)"
  shows "\<exists>c'. process_msg alloc m c = Some c' \<and> in_ring c' (as @ map (lost msg) bs @ [answered m s]) []"
proof -
  let ?n = "length (ring c)" and ?bs = "map (lost msg) bs"
  have n: "?n = length as + length bs + Suc (length cs)" using arg_cong [OF v, of length] by simp
  have d: "on_deck c < ?n" unfolding od using h by (rule mod_len_less)
  have view: "rotate (on_deck c) (ring c) = bs @ s # (cs @ as)" unfolding od using rotate_view [OF v] by simp
  define k where "k = (if cs @ as = [] then 0 else length bs + 1)"
  have t1: "tail c = (on_deck c + (length bs + 1)) mod ?n" unfolding t od mod_add_left_eq by (simp add: add.assoc)
  have "tail c = (on_deck c + k) mod ?n"
  proof (cases "cs @ as = []")
    case True
    with n have "length bs + 1 = ?n" by simp
    with t1 True show ?thesis by (simp only: k_def mod_add_self2 add_0_right simp_thms if_True)
  qed (use t1 in \<open>auto simp: k_def\<close>)
  moreover have "k = 0 \<or> length bs < k" "k < ?n" using n by (auto simp: k_def)
  ultimately have tk: "tail c = (on_deck c + k) mod ?n" "k = 0 \<or> length bs < k" "k < ?n" by blast+
  from found_view [OF view d s(2) tk lm m] obtain r where
    r: "process_msg alloc m c = store_response (q_id s) m ((on_deck c + length bs) mod ?n)
        (c\<lparr>ring := r, on_deck := (on_deck c + length bs) mod ?n\<rparr>)" "length r = ?n"
      "rotate (on_deck c) r = ?bs @ s # (cs @ as)" by auto
  let ?q = "(on_deck c + length bs) mod ?n"
  let ?c1 = "c\<lparr>ring := r, on_deck := ?q\<rparr>" and ?r = "r[?q := answered m s]"
  let ?c2 = "c\<lparr>ring := ?r, on_deck := (?q + 1) mod ?n\<rparr>"
  have q: "?q < ?n" using d by (rule mod_len_less)
  have "query_at (c\<lparr>ring := r\<rparr>) ((on_deck c + length bs) mod length (ring (c\<lparr>ring := r\<rparr>))) = Some ((?bs @ s # (cs @ as)) ! length bs)"
    using r(2,3) d n by (intro query_at_view) simp_all
  then have at: "query_at ?c1 ?q = Some s" using r(2) by (simp add: query_at_def nth_append split: if_splits)
  have "ring_next c' ?q = (?q + 1) mod ?n" if "length (ring c') = ?n" for c' :: "('a, 'b) client"
    using ring_next_mod [of ?q c'] q that by simp
  then have "store_response (q_id s) m ?q ?c1 = Some (wake_ready ?c2)"
    using at s(1) r(2) by (simp add: store_response_def set_query_def query_set_state_def step_on_deck_def answered_def)
  moreover have "in_ring ?c2 (as @ ?bs @ [answered m s]) []"
  proof (rule in_ringI [where cs = cs])
    have "rotate (on_deck c) ?r = (?bs @ answered m s # cs) @ as"
      using set_query_view [of "on_deck c" "c\<lparr>ring := r\<rparr>" ?bs s "cs @ as" "answered m s"] r(2,3) d
      by (simp add: set_query_def)
    from rotate_view [OF this] have "rotate ((on_deck c + length (?bs @ answered m s # cs)) mod ?n) ?r =
        as @ ?bs @ answered m s # cs" using r(2) by simp
    moreover have "(on_deck c + length (?bs @ answered m s # cs)) mod ?n = (head c + ?n) mod ?n"
      unfolding od mod_add_left_eq by (simp add: n ac_simps)
    ultimately show "rotate (head ?c2) (ring ?c2) = (as @ ?bs @ [answered m s]) @ [] @ cs" using h by simp
    have "on_deck ?c2 = (head c + (length as + length bs + 1)) mod ?n"
      unfolding od by (simp add: mod_add_left_eq add.assoc mod_Suc_eq)
    then show "on_deck ?c2 = (head ?c2 + length (as @ ?bs @ [answered m s])) mod length (ring ?c2)"
      using r(2) by (simp add: add.assoc)
    show "tail ?c2 = (head ?c2 + length (as @ ?bs @ [answered m s]) + length ([] :: ('a, 'b) query list)) mod length (ring ?c2)"
      using t r(2) by (simp add: add.assoc)
  next
    fix x assume "x \<in> set (as @ ?bs @ [answered m s])"
    then consider "x \<in> set as" | y where "y \<in> set bs" "x = lost msg y" | "x = answered m s" by auto
    then show "q_state x = Q_READY \<or> q_state x = Q_SENT \<and> q_cb x = None"
      using past by cases (auto simp: lost_def answered_def)
  qed (use r(2) h c cs in auto)
  ultimately show ?thesis using r(1) by auto
qed

lemma lost_past:
  "q_state q = Q_READY \<or> q_state q = Q_SENT \<and> q_cb q = None \<Longrightarrow>
   q_state (lost msg q) = Q_READY \<or> q_state (lost msg q) = Q_SENT \<and> q_cb (lost msg q) = None"
  by (auto simp: lost_def)

lemma lost_list_past:
  assumes "\<And>q. q \<in> set (as @ bs) \<Longrightarrow> q_state q = Q_READY \<or> q_state q = Q_SENT \<and> q_cb q = None"
    and "q \<in> set (map (lost msg) as @ bs)"
  shows "q_state q = Q_READY \<or> q_state q = Q_SENT \<and> q_cb q = None"
proof -
  from assms(2) consider y where "y \<in> set as" "q = lost msg y" | "q \<in> set bs" unfolding set_append set_map by blast
  then show ?thesis
  proof cases
    case 1
    with assms(1) [of y] show ?thesis by (simp add: lost_past)
  next
    case 2
    show ?thesis by (rule assms(1)) (use 2 in auto)
  qed
qed

lemma duplicate_then_query:
  assumes r: "in_ring c (as @ d # bs) []" and v: "rotate (head c) (ring c) = (as @ d # bs) @ cs" and cs: "cs \<noteq> []"
    and free: "\<And>x. x \<in> set cs \<Longrightarrow> q_cb x = None \<and> q_id x \<noteq> q_id d" and d: "q_state d = Q_READY"
    and ids: "q_id d \<notin> q_id ` set as" "next_id c \<notin> q_id ` set (d # bs)"
    and c: "has_status c" "on_query c = None" and alloc: "alloc_ok alloc"
    and m: "opo_msg_id m 0 = Some (q_id d)" "opo_msg_id m2 0 = Some (next_id c)" and i: "length i = 8" "wf_wire w"
    and wr: "\<And>m. fst (wr m) = int (length m)"
  shows "\<exists>c1 c2 c3 rest1 rest2. process_msg alloc m c = Some c1 \<and>
    on_deck c1 = (head c + length as) mod length (ring c) \<and>
    rotate (head c) (ring c1) = map (lost (Some (be_bytes 8 (q_id d) @ enc lost_wire @ rest1))) as @ d # bs @ cs \<and>
    opo_client_query wr strerror now err c1 (i @ enc w) cb ctx =
      Some (c2, err, be_bytes 8 (next_id c) @ enc w, next_id c) \<and>
    process_msg alloc m2 c2 = Some c3 \<and>
    in_ring c3 (map (lost (Some (be_bytes 8 (q_id d) @ enc lost_wire @ rest1))) as @
      map (lost (Some (be_bytes 8 (next_id c) @ enc lost_wire @ rest2))) (d # bs) @
      [answered m2 (sent_query (next_id c) cb ctx now)]) []"
proof -
  from cs obtain x cs' where x: "cs = x # cs'" by (cases cs) auto
  from r obtain cs0 where r0: "rotate (head c) (ring c) = (as @ d # bs) @ [] @ cs0" "head c < length (ring c)"
    "tail c = (head c + length (as @ d # bs) + length ([] :: ('a, 'b) query list)) mod length (ring c)"
    "pending_max c = length (ring c)" "\<not> head_lock c" "\<not> tail_lock c"
    "\<And>q. q \<in> set (as @ d # bs) \<Longrightarrow> q_state q = Q_READY \<or> q_state q = Q_SENT \<and> q_cb q = None"
    "\<And>q. q \<in> set cs0 \<Longrightarrow> q_state q = Q_CLEAR \<and> q_resp q = None" by (rule in_ringE) blast
  have clear: "q_state q = Q_CLEAR \<and> q_resp q = None" if "q \<in> set cs" for q
    using r0(1) r0(8) [of q] v that by simp
  from lost_message_ok [OF alloc, of "q_id d"] obtain rest1 where
    l1: "lost_message alloc (q_id d) = Some (Some (be_bytes 8 (q_id d) @ enc lost_wire @ rest1))" (is "_ = Some ?l1") ..
  from lost_message_ok [OF alloc, of "next_id c"] obtain rest2 where
    l2: "lost_message alloc (next_id c) = Some (Some (be_bytes 8 (next_id c) @ enc lost_wire @ rest2))" (is "_ = Some ?l2") ..
  from duplicate_ok [OF r v cs free d ids(1) c(1) l1 m(1)] obtain q l where
    q: "process_msg alloc m c = Some (c\<lparr>ring := q, on_deck := (head c + length as) mod length (ring c), calls := l\<rparr>)"
      "length q = length (ring c)" "rotate (head c) q = map (lost ?l1) as @ d # bs @ cs" by blast
  define c1 where "c1 = c\<lparr>ring := q, on_deck := (head c + length as) mod length (ring c), calls := l\<rparr>"
  have f1: "ring c1 = q" "head c1 = head c" "on_deck c1 = (head c + length as) mod length q" "tail c1 = tail c"
    "next_id c1 = next_id c" "on_query c1 = None" "pending_max c1 = length q" "\<not> head_lock c1" "\<not> tail_lock c1"
    using c(2) q(2) r0(4-6) by (simp_all add: c1_def)
  have v1: "rotate (head c1) (ring c1) = (map (lost ?l1) as @ d # bs) @ x # cs'" using q(3) x by (simp add: f1)
  have h1: "head c1 < length (ring c1)" using q(2) r0(2) by (simp add: f1)
  have t1: "tail c1 = (head c1 + length (map (lost ?l1) as @ d # bs)) mod length (ring c1)"
    using r0(3) q(2) by (simp add: f1)
  have x1: "q_state x = Q_CLEAR" "q_resp x = None" using clear [of x] x by simp_all
  have "fst (wr (be_bytes 8 (next_id c1) @ enc w)) = int (8 + length (enc w))" by (simp add: wr)
  from query_free_place [where wr = wr and strerror = strerror and now = now and err = err and cb = cb and ctx = ctx,
      OF v1 h1 t1 f1(6,9) x1 i this] obtain q2 where
    q2: "opo_client_query wr strerror now err c1 (i @ enc w) cb ctx =
      Some (c1\<lparr>ring := q2, tail := (tail c1 + 1) mod length (ring c1), next_id := next_id c1 + 1,
        sent := sent c1 @ be_bytes 8 (next_id c1) @ enc w\<rparr>, err, be_bytes 8 (next_id c1) @ enc w, next_id c1)"
      "length q2 = length (ring c1)"
      "rotate (head c1) q2 = (map (lost ?l1) as @ d # bs) @ sent_query (next_id c1) cb ctx now # cs'" by blast
  define c2 where "c2 = c1\<lparr>ring := q2, tail := (tail c1 + 1) mod length (ring c1), next_id := next_id c1 + 1,
        sent := sent c1 @ be_bytes 8 (next_id c1) @ enc w\<rparr>"
  have f2: "ring c2 = q2" "head c2 = head c1" "on_deck c2 = on_deck c1" "tail c2 = (tail c1 + 1) mod length q2"
    "pending_max c2 = length q2" "\<not> head_lock c2" "\<not> tail_lock c2"
    using f1(7-9) q2(2) by (simp_all add: c2_def f1(1))
  have "\<exists>c3. process_msg alloc m2 c2 = Some c3 \<and> in_ring c3 (map (lost ?l1) as @ map (lost ?l2) (d # bs) @
      [answered m2 (sent_query (next_id c) cb ctx now)]) []"
  proof (rule answered_over [where cs = cs'])
    show "rotate (head c2) (ring c2) = map (lost ?l1) as @ (d # bs) @ sent_query (next_id c) cb ctx now # cs'"
      using q2(3) by (simp add: f2 f1)
    show "tail c2 = (head c2 + length (map (lost ?l1) as @ d # bs) + 1) mod length (ring c2)"
      using t1 q2(2) by (simp add: f2 mod_Suc_eq)
    show "on_deck c2 = (head c2 + length (map (lost ?l1) as)) mod length (ring c2)"
      using q2(2) by (simp add: f2 f1)
    show "q_id (sent_query (next_id c) cb ctx now) \<notin> q_id ` set (d # bs)"
      using ids(2) by (simp add: sent_query_def)
  next
    fix q assume "q \<in> set (map (lost ?l1) as @ d # bs)"
    with r0(7) show "q_state q = Q_READY \<or> q_state q = Q_SENT \<and> q_cb q = None" by (rule lost_list_past)
  next
    fix q assume "q \<in> set cs'"
    then show "q_state q = Q_CLEAR \<and> q_resp q = None" using clear x by simp
  next
    show "head c2 < length (ring c2)" using h1 q2(2) by (simp add: f2)
  qed (use f2 l2 m in \<open>simp_all add: sent_query_def\<close>)
  moreover have "opo_client_query wr strerror now err c1 (i @ enc w) cb ctx =
      Some (c2, err, be_bytes 8 (next_id c) @ enc w, next_id c)" using q2(1) by (simp only: c2_def f1(5))
  moreover have "process_msg alloc m c = Some c1" using q(1) by (simp only: c1_def)
  moreover have "on_deck c1 = (head c + length as) mod length (ring c)" using q(2) by (simp add: f1)
  moreover have "rotate (head c) (ring c1) = map (lost ?l1) as @ d # bs @ cs" using q(3) by (simp add: f1)
  ultimately show ?thesis by blast
qed

end
