(* ===== verification/ClientRing.thy ===== *)
theory ClientRing imports Duplicate begin

text \<open>
  The properties of the ring of queries: what a query, a response, a duplicate response and
  \<open>opo_client_process\<close> do to it, and what the counts and the client of a new connection are.
\<close>

section \<open>The client a connection starts with\<close>

lemma connect_started:
  assumes "opo_client_connect net strerror err host port opts = Some (err', Some c)"
  obtains e addr where "client_start net strerror e addr (client_init net opts) = Some (err', Some c)"
  using assms unfolding opo_client_connect_def Let_def
  by (auto simp: bind_eq_Some_conv split: if_splits option.splits)

lemma client_start_in_ring:
  assumes "client_start net strerror err addr c = Some (err', Some c')"
  shows "in_ring c' ds ss = in_ring c ds ss \<and> pending_max c' = pending_max c \<and> async_queue c' = async_queue c \<and>
    next_id c' = next_id c \<and> sent c' = sent c \<and> active c' = (thread_stat net = 0 \<and> active c)"
  using assms unfolding client_start_def Let_def
  by (auto simp: bind_eq_Some_conv status_callback_def call_status_def in_ring_def split: if_splits)

section \<open>A small client\<close>

definition small_client :: "(uint64, nat) client" where
  "small_client = client_init \<lparr>resolved = True, new_sock = 4, sock_errno = 0, attempts = [(0, 0, False)],
     got_client = True, got_ring = True, got_pipe = Some (5, 6), unset = (0, 0), thread_stat = 0\<rparr>
     (Some \<lparr>opt_timeout = 0, opt_pending_max = 4, opt_status = True, opt_query = None, opt_ctx = None\<rparr>)"

lemma small_client_simps [simp]:
  "ring small_client = [new_query, new_query, new_query, new_query]" "head small_client = 0"
  "tail small_client = 0" "on_deck small_client = 0" "pending_max small_client = 4"
  "on_query small_client = None" "next_id small_client = 1" "has_status small_client"
  "\<not> head_lock small_client" "\<not> tail_lock small_client" "calls small_client = []" "sent small_client = []"
  by (simp_all add: small_client_def client_init_def numeral_eq_Suc)

lemma small_client_ring: "in_ring small_client [] []"
  unfolding small_client_def by (rule in_ring_init)

definition asked :: "uint64 \<Rightarrow> (uint64, nat) query" where
  "asked i = sent_query i (Some i) None 0"

definition two_asked :: "(uint64, nat) client" where
  "two_asked = small_client\<lparr>ring := [asked 1, asked 2, new_query, new_query], tail := 2, next_id := 3\<rparr>"

lemma two_asked_ring: "in_ring two_asked [] [asked 1, asked 2]"
  by (rule in_ringI [where cs = "[new_query, new_query]"])
    (auto simp: two_asked_def asked_def sent_query_def new_query_def)

definition reply :: "uint64 \<Rightarrow> mem" where
  "reply i = be_bytes 8 i @ enc WNull"

lemma reply_id [simp]: "opo_msg_id (reply i) 0 = Some i"
  using u64.read_at [OF bytes_at_start [of "be_bytes 8 i" "enc WNull"]] by (simp add: opo_msg_id_def reply_def)

definition two_ready :: "(uint64, nat) client" where
  "two_ready = small_client\<lparr>ring := [answered (reply 1) (asked 1), answered (reply 2) (asked 2), new_query, new_query],
     on_deck := 2, tail := 2, next_id := 3\<rparr>"

lemma two_ready_ring: "in_ring two_ready [answered (reply 1) (asked 1), answered (reply 2) (asked 2)] []"
  by (rule in_ringI [where cs = "[new_query, new_query]"])
    (auto simp: two_ready_def answered_def asked_def sent_query_def new_query_def)

section \<open>Properties\<close>

text \<open>
  C14: \<open>opo_client_query\<close> gives the query the next id, stores the id in the message, writes the
  message and puts the query behind those that await a response; it gives up with \<open>EAGAIN\<close>
  and changes nothing when the ring is full.
\<close>

theorem query_refines:
  assumes "in_ring c ds ss" and "on_query c = None" and "length i = 8" and "wf_wire w"
    and "\<And>m. fst (wr m) = int (length m)"
  shows "if length ds + length ss < length (ring c) then
      \<exists>c'. opo_client_query wr strerror now err c (i @ enc w) cb ctx =
          Some (c', err, be_bytes 8 (next_id c) @ enc w, next_id c) \<and>
        in_ring c' ds (ss @ [sent_query (next_id c) cb ctx now]) \<and>
        sent c' = sent c @ be_bytes 8 (next_id c) @ enc w \<and> next_id c' = next_id c + 1 \<and> calls c' = calls c
    else opo_client_query wr strerror now err c (i @ enc w) cb ctx =
      Some (c, err_set err EAGAIN ''write failed, busy'', i @ enc w, 0)"
proof (cases "length ds + length ss < length (ring c)")
  case True
  have "fst (wr (be_bytes 8 (next_id c) @ enc w)) = int (8 + length (enc w))" by (simp add: assms(5))
  from query_ok [where wr = wr and strerror = strerror and now = now and err = err and cb = cb and ctx = ctx, OF assms(1-4) True this] True show ?thesis by auto
next
  case False
  with assms(1) have "length ds + length ss = length (ring c)" by (elim in_ringE) simp
  from query_full [OF assms(1) this] obtain q where "query_at c (tail c) = Some q" "q_state q \<noteq> Q_CLEAR" by blast
  moreover have "\<not> tail_lock c" using assms(1) by (simp add: in_ring_def Let_def)
  ultimately show ?thesis
    using False assms(2) msg_bsize_enc [OF assms(4,3) bytes_at_whole] by (simp add: opo_client_query_def)
qed

theorem query_refines_witness:
  "\<exists>c'. opo_client_query (\<lambda>m. (int (length m), 0)) (\<lambda>_. []) 0 OPO_ERR_INIT small_client
      (replicate 8 0 @ enc WNull) (Some 7) None = Some (c', OPO_ERR_INIT, be_bytes 8 (1 :: uint64) @ enc WNull, 1) \<and>
    in_ring c' [] [sent_query 1 (Some 7) None 0]"
  using query_refines [OF small_client_ring, of "replicate 8 0" WNull "\<lambda>m. (int (length m), 0)" "\<lambda>_. []" 0
      OPO_ERR_INIT "Some 7" None] by auto

text \<open>
  C6: A response goes to the awaited query with its id; awaited queries before it are passed over:
  those with a callback get a message with the code \<open>OPO_ERR_LOST\<close> under the id of the new response,
  those without stay unanswered.
\<close>

theorem response_refines:
  assumes "in_ring c ds (xs @ s # ss)" and "opo_msg_id m 0 = Some (q_id s)"
    and "q_id s \<notin> q_id ` set xs" and "alloc_ok alloc"
  shows "\<exists>c' rest. process_msg alloc m c = Some c' \<and>
    in_ring c' (ds @ map (lost (Some (be_bytes 8 (q_id s) @ enc lost_wire @ rest))) xs @ [answered m s]) ss \<and>
    calls c' = calls c"
proof -
  from lost_message_ok [OF assms(4)] obtain rest where
    "lost_message alloc (q_id s) = Some (Some (be_bytes 8 (q_id s) @ enc lost_wire @ rest))" by blast
  from process_msg_ok [OF assms(1-3) this] show ?thesis by blast
qed

theorem response_refines_witness:
  "\<exists>c' rest. process_msg (\<lambda>n. Some (replicate n 0)) (reply 2) two_asked = Some c' \<and>
    in_ring c' [lost (Some (be_bytes 8 (2 :: uint64) @ enc lost_wire @ rest)) (asked 1), answered (reply 2) (asked 2)] []"
proof -
  have "in_ring two_asked [] ([asked 1] @ asked 2 # [])" using two_asked_ring by simp
  from response_refines [OF this, of "reply 2" "\<lambda>n. Some (replicate n 0)"] alloc_ok_zero show ?thesis
    by (auto simp: asked_def sent_query_def)
qed

text \<open>
  C13: \<open>opo_client_process\<close> calls the callbacks of the answered queries, oldest first, each with the
  id, the response and the context of its query, up to \<open>mx\<close> of them or to the first one without a
  response, frees their places in the ring and returns their number.
\<close>

theorem process_refines:
  assumes "in_ring c ds ss" and "on_query c = None" and "not_negative wait"
  shows "\<exists>c'. opo_client_process c mx wait = Some (c', int (ready_quota mx 0 ds)) \<and>
    in_ring c' (drop (ready_quota mx 0 ds) ds) ss \<and>
    calls c' = calls c @ concat (map answer (take (ready_quota mx 0 ds) ds))"
  using process_ready_ok [OF assms(3,1), of mx 0] assms(2) by (auto simp: opo_client_process_def)

theorem process_refines_witness:
  "\<exists>c'. opo_client_process two_ready 0 0 = Some (c', 2) \<and> in_ring c' [] [] \<and>
    calls c' = [Response 1 1 (Some (reply 1)) None, Response 2 2 (Some (reply 2)) None]"
proof -
  have "on_query two_ready = None" "calls two_ready = []" "not_negative 0"
    by (simp_all add: two_ready_def not_negative_def)
  moreover have "take 2 [a, b] = [a, b]" for a b :: "(uint64, nat) query" by simp
  ultimately show ?thesis
    using process_refines [OF two_ready_ring, of 0 0]
    by (simp add: ready_quota_def quota_def answered_def asked_def sent_query_def answer_def)
qed

text \<open>
  C38: A duplicate of the response to an answered query \<open>d\<close>, while no response is awaited and the free
  places have not been used before, moves \<open>on_deck\<close> back to \<open>d\<close> and replaces the answers before
  it, not processed yet, by the message for lost ones; the response to the next query then replaces
  those of \<open>d\<close> and of the queries behind it.  So no answer of the ring gets to its callback.
\<close>

theorem duplicate_response_overwrites:
  assumes "in_ring c (as @ d # bs) []" and "rotate (head c) (ring c) = (as @ d # bs) @ cs" and "cs \<noteq> []"
    and "\<And>x. x \<in> set cs \<Longrightarrow> q_cb x = None \<and> q_id x \<noteq> q_id d" and "q_state d = Q_READY"
    and "q_id d \<notin> q_id ` set as" and "next_id c \<notin> q_id ` set (d # bs)"
    and "has_status c" and "on_query c = None" and "alloc_ok alloc"
    and "opo_msg_id m 0 = Some (q_id d)" and "opo_msg_id m' 0 = Some (next_id c)"
    and "length i = 8" and "wf_wire w" and "\<And>m. fst (wr m) = int (length m)"
  shows "\<exists>c1 c2 c3 rest1 rest2. process_msg alloc m c = Some c1 \<and>
    on_deck c1 = (head c + length as) mod length (ring c) \<and>
    rotate (head c) (ring c1) = map (lost (Some (be_bytes 8 (q_id d) @ enc lost_wire @ rest1))) as @ d # bs @ cs \<and>
    opo_client_query wr strerror now err c1 (i @ enc w) cb ctx =
      Some (c2, err, be_bytes 8 (next_id c) @ enc w, next_id c) \<and>
    process_msg alloc m' c2 = Some c3 \<and>
    in_ring c3 (map (lost (Some (be_bytes 8 (q_id d) @ enc lost_wire @ rest1))) as @
      map (lost (Some (be_bytes 8 (next_id c) @ enc lost_wire @ rest2))) (d # bs) @
      [answered m' (sent_query (next_id c) cb ctx now)]) []"
  by (rule duplicate_then_query [OF assms(1-5) assms(6,7) assms(8,9) assms(10) assms(11,12) assms(13,14) assms(15)])

theorem duplicate_response_overwrites_witness:
  "\<exists>c1 c2 c3 rest1 rest2. process_msg (\<lambda>n. Some (replicate n 0)) (reply 2) two_ready = Some c1 \<and>
    opo_client_query (\<lambda>m. (int (length m), 0)) (\<lambda>_. []) 0 OPO_ERR_INIT c1 (replicate 8 0 @ enc WNull) (Some 3) None =
      Some (c2, OPO_ERR_INIT, be_bytes 8 (3 :: uint64) @ enc WNull, 3) \<and>
    process_msg (\<lambda>n. Some (replicate n 0)) (reply 3) c2 = Some c3 \<and>
    in_ring c3 [lost (Some (be_bytes 8 (2 :: uint64) @ enc lost_wire @ rest1)) (answered (reply 1) (asked 1)),
      lost (Some (be_bytes 8 (3 :: uint64) @ enc lost_wire @ rest2)) (answered (reply 2) (asked 2)),
      answered (reply 3) (asked 3)] []"
proof -
  let ?a = "answered (reply 1) (asked 1)" and ?d = "answered (reply 2) (asked 2)"
  have r: "in_ring two_ready ([?a] @ ?d # []) []" using two_ready_ring by simp
  have v: "rotate (head two_ready) (ring two_ready) = ([?a] @ ?d # []) @ [new_query, new_query]"
    by (simp add: two_ready_def)
  have i: "q_id ?a = 1" "q_id ?d = 2" "q_state ?d = Q_READY" "q_cb (new_query :: (uint64, nat) query) = None"
    "q_id (new_query :: (uint64, nat) query) = 0" "next_id two_ready = 3" "has_status two_ready" "on_query two_ready = None"
    "sent_query 3 (Some 3) None 0 = asked 3"
    by (simp_all add: answered_def asked_def sent_query_def new_query_def two_ready_def)
  show ?thesis
    using duplicate_response_overwrites [OF r v, where alloc = "\<lambda>n. Some (replicate n 0)" and m = "reply 2" and m' = "reply 3"
        and i = "replicate 8 0" and w = WNull and wr = "\<lambda>m. (int (length m), 0)" and strerror = "\<lambda>_. []" and now = 0
        and err = OPO_ERR_INIT and cb = "Some 3" and ctx = None] alloc_ok_zero
    by (simp add: i del: rotate_Suc) blast
qed

text \<open>
  C39: While some response is awaited, one with an id no awaited query has leaves the ring as it is
  and calls the status callback with \<open>OPO_ERR_NOT_FOUND\<close>, which must be set: without one the code
  calls NULL.
\<close>

theorem unknown_response:
  assumes "in_ring c ds ss" and "ss \<noteq> []" and "opo_msg_id m 0 = Some mid" and "mid \<notin> q_id ` set ss"
  shows "process_msg alloc m c =
    (if has_status c then Some (c\<lparr>calls := calls c @ [Status True OPO_ERR_NOT_FOUND
       (c_string (fst (vsnprintf (replicate 256 (CHR 0x00))
          (''Pending query '' @ dec_text (unat mid) @ '' not found.''))))]\<rparr>)
     else None)"
  unfolding process_msg_unknown [OF assms] by (simp add: status_callback_def call_status_def)

theorem unknown_response_witness:
  "\<exists>t. process_msg (\<lambda>n. Some (replicate n 0)) (reply 9) two_asked =
    Some (two_asked\<lparr>calls := [Status True OPO_ERR_NOT_FOUND t]\<rparr>)"
  using unknown_response [OF two_asked_ring, of "reply 9" 9 "\<lambda>n. Some (replicate n 0)"]
  by (auto simp: asked_def sent_query_def two_asked_def)

text \<open>
  C40: In the mode without a query callback \<open>opo_client_pending_count\<close> is the number of queries that
  await a response.  \<open>opo_client_ready_count\<close> is that of the queries not processed yet that were
  answered or passed over, so it counts those without a response too.  Both are 0 when it is the
  whole ring.
\<close>

theorem client_counts:
  assumes "in_ring c ds ss" and "on_query c = None"
  shows "opo_client_pending_count c = (if length ss = length (ring c) then 0 else int (length ss)) \<and>
    opo_client_ready_count c = (if length ds = length (ring c) then 0
      else int (length (filter (\<lambda>q. q_state q = Q_READY) ds)) +
        int (length (filter (\<lambda>q. q_state q = Q_SENT \<and> q_cb q = None) ds)))"
proof -
  have "filter (\<lambda>q. q_state q = Q_SENT \<and> q_cb q = None) ds = filter (\<lambda>q. q_state q \<noteq> Q_READY) ds"
    using assms(1) by (intro filter_cong) (auto simp: in_ring_def Let_def)
  then have "int (length (filter (\<lambda>q. q_state q = Q_READY) ds)) +
      int (length (filter (\<lambda>q. q_state q = Q_SENT \<and> q_cb q = None) ds)) = int (length ds)"
    using sum_length_filter_compl [of "\<lambda>q. q_state q = Q_READY" ds] by simp
  then show ?thesis using counts_ok [OF assms(1)] by simp
qed

theorem client_counts_witness:
  "opo_client_pending_count two_asked = 2 \<and> opo_client_ready_count two_asked = 0"
  using client_counts [OF two_asked_ring] by (simp add: two_asked_def)

text \<open>
  C20: A client that \<open>opo_client_connect\<close> returns has an empty ring of \<open>pending_max\<close> places, at least
  one, an empty queue and the first id, and is active if the receiving thread was started.
\<close>

theorem connect_ready:
  assumes "opo_client_connect net strerror err host port opts = Some (err', Some c)"
  shows "in_ring c [] [] \<and> pending_max c = nat (case opts of None \<Rightarrow> 4096 | Some w \<Rightarrow> max 1 (opt_pending_max w)) \<and>
    queue_items (async_queue c) = [] \<and> next_id c = 1 \<and> sent c = [] \<and> (active c \<longleftrightarrow> thread_stat net = 0)"
proof -
  let ?c = "client_init net opts"
  have i: "pending_max ?c = nat (case opts of None \<Rightarrow> 4096 | Some w \<Rightarrow> max 1 (opt_pending_max w))"
      "async_queue ?c = queue_init 1024" "next_id ?c = 1" "sent ?c = []" "active ?c"
    by (auto simp: client_init_def Let_def max_def split: prod.split option.split)
  from connect_started [OF assms] obtain e addr where
    "client_start net strerror e addr ?c = Some (err', Some c)" .
  from client_start_in_ring [OF this] show ?thesis using i in_ring_init [of net opts] by simp
qed

theorem connect_ready_witness:
  "\<exists>c. opo_client_connect \<lparr>resolved = True, new_sock = 4, sock_errno = 0, attempts = [(- 1, 111, False), (0, 0, False)],
      got_client = True, got_ring = True, got_pipe = Some (5, 6), unset = (0, 0), thread_stat = 0\<rparr>
     (\<lambda>_. []) OPO_ERR_INIT ''opo'' 80 (None :: (nat, nat) options option) = Some (OPO_ERR_INIT, Some c) \<and>
   in_ring c [] [] \<and> pending_max c = 4096"
proof -
  let ?net = "\<lparr>resolved = True, new_sock = 4, sock_errno = 0, attempts = [(- 1, 111, False), (0, 0, False)],
      got_client = True, got_ring = True, got_pipe = Some (5, 6), unset = (0, 0), thread_stat = 0\<rparr>"
  have "opo_client_connect ?net (\<lambda>_. []) OPO_ERR_INIT ''opo'' 80 (None :: (nat, nat) options option) =
      Some (OPO_ERR_INIT, Some (client_init ?net None))"
    by (simp add: opo_client_connect_def get_addr_info_def EISCONN_def client_start_def) (simp add: client_init_def)
  with connect_ready [OF this] show ?thesis by auto
qed

end
