(* ===== verification/ClientSession.thy ===== *)
theory ClientSession imports ClientRing begin

text \<open>
  A whole session of the client in the mode with a ring: queries, responses and calls of
  \<open>opo_client_process\<close> in any order, with a server that answers in the order of the queries.
\<close>

section \<open>What happens in a session\<close>





section \<open>What it should do\<close>
















section \<open>Properties\<close>



end
