(* ===== verification/Spec2Isabelle.thy ===== *)
theory Spec2Isabelle imports Members Iterate BuilderRun QueueRace OpoReadSpec ClientSession begin

text \<open>
  A verification library for OpO in C, the client library of the OpO database: its binary format of
  values, the functions that read, build and convert such values, and the client that exchanges
  them with a server.

  \<^bold>\<open>The program.\<close>  A value is a tag byte and a payload, numbers most significant byte first; an object or
  an array starts with the four byte length of its members.  A message is an id of eight bytes and a
  value.  \<^verbatim>\<open>src/opo/val.c\<close> reads values in place, \<^verbatim>\<open>builder.c\<close> builds a message by calls, and \<^verbatim>\<open>opo.c\<close>
  converts between values and the JSON values of the library OjC.  \<^verbatim>\<open>client.c\<close> sends a message for each
  query and has a thread that receives the responses; without a query callback these go through a
  ring of queries, with one through the message queue of \<^verbatim>\<open>queue.c\<close>, and \<open>opo_client_process\<close> calls the
  client back.  All report errors through the struct of \<^verbatim>\<open>err.c\<close>.

  \<^bold>\<open>Conventions.\<close>  Memory is a list of bytes and a pointer an offset into it; an access outside, and any
  other undefined behaviour (a NULL pointer called, a signed overflow), is \<open>None\<close>.  A loop that
  corrupt input can keep from ending takes fuel and returns an \<open>outcome\<close>: \<open>Return\<close>, \<open>Fault\<close> for
  undefined behaviour, or \<open>Out_Of_Fuel\<close>.  Fuel is one unit a round; the theorems give an amount that
  is enough, the number of bytes of the value or the size of the JSON tree.  Machine integers are words.
  Code outside the repository is an argument: the allocator (\<open>alloc_ok\<close>: never NULL, the size asked
  for), \<open>strtod\<close> and the texts of a double, \<open>strerror\<close>, the socket calls, and OjC, a record of its
  functions with what the code relies on stated as \<open>json_at\<close> (reading) and \<open>ojc_store\<close> (creating).

  \<^bold>\<open>The theories.\<close>
  \<^item> \<open>Prelude\<close>, \<open>LibC\<close>, \<open>CTime\<close>: checked reads and writes, bounded loops, items laid end to end (a
    locale for the walk from one to the next), and the C library: strings, \<open>strtol\<close>, \<open>gmtime_r\<close>, \<open>timegm\<close>.
  \<^item> \<open>Err\<close> (\<^verbatim>\<open>err.h\<close>, \<^verbatim>\<open>err.c\<close>): the codes, \<open>opo_err_set\<close>, \<open>opo_err_no\<close>, \<open>opo_err_clear\<close>, \<open>opo_err_str\<close>; what is
    stored, and the two lengths that overrun the message array.
  \<^item> \<open>Wire\<close>: the tags of \<^verbatim>\<open>internal.h\<close>, the abstract values \<open>wire\<close> and their encoding \<open>enc\<close>, the
    reference of everything below.
  \<^item> \<open>Bytes\<close>, \<open>Fill\<close>, \<open>Uuid\<close>: the big-endian codec as one locale interpreted in three widths, strings,
    keys, integers and UUID text as \<^verbatim>\<open>builder.c\<close> stores them; round trips.
  \<^item> \<open>Val\<close>, \<open>Members\<close>, \<open>Iterate\<close> (\<^verbatim>\<open>val.c\<close>): sizes, types and scalars; members, paths and counts; the
    iteration with callbacks.  The lemmas show each function right on every encoded value, and what
    corrupt bytes do.  \<open>Iterate.heard\<close> is what the code makes of the callbacks: those of UUIDs and times
    cannot stop it.
  \<^item> \<open>Builder\<close> (\<^verbatim>\<open>builder.h\<close>, \<^verbatim>\<open>builder.c\<close>): the buffer with its stack of open containers, one definition per
    function.  \<open>BuilderSpec\<close>: the tree a builder holds (\<open>builds\<close>, \<open>laid_out\<close>), the room it has (\<open>has_room\<close>),
    and a locale for what the push operations of a single item share.  \<open>BuilderRun\<close>: sequences of calls,
    their refinement of the tree operations, and where the builder leaves its buffer.
  \<^item> \<open>Queue\<close> (\<^verbatim>\<open>queue.h\<close>, \<^verbatim>\<open>queue.c\<close>): the ring as one thread runs it, refining a bounded list.  \<open>QueueRace\<close>: the
    steps of one pusher and any number of poppers interleaved as a step relation, with its
    invariant; the notification behind a push is one step.
  \<^item> \<open>OpoCodec\<close>, \<open>OpoWrite\<close>, \<open>OpoRead\<close>, \<open>OpoReadSpec\<close> (\<^verbatim>\<open>opo.h\<close>, \<^verbatim>\<open>opo.c\<close>): its own codec, UUID and time
    detection; JSON to message in two passes, size and fill; message to JSON with the stack of open
    containers; both against the tree \<open>json\<close>.  The decoder closes one container for each item, so it
    is right on values with \<open>closes\<close>, and \<open>to_ojc_wrong_parent\<close> shows a value where it is not.
  \<^item> \<open>Client\<close> (\<^verbatim>\<open>client.h\<close>, \<^verbatim>\<open>client.c\<close>): every function, from \<open>opo_client_connect\<close> to the counts, with the
    receiving thread as rounds over what the socket gives.  \<open>Receive\<close>: framing and order of messages.
    \<open>ClientSpec\<close>: the ring as the lists of answered and awaited queries (\<open>in_ring\<close>).  \<open>Duplicate\<close>:
    responses to queries answered before.  \<open>ClientRing\<close>: the operations on these lists.  \<open>ClientSession\<close>:
    whole sessions from the connection on.

  \<^bold>\<open>Bounds.\<close>  Offsets of the builder are below \<open>2 ^ 31\<close>, since the code keeps one in an \<open>int\<close>; at most
  \<open>OPO_MSG_MAX_DEPTH\<close> containers are open at a time; path components are shorter than \<open>2 ^ 31\<close>; arrays
  that are counted have less than \<open>2 ^ 31\<close> elements; times the decoder prints are before 2262.

  \<^bold>\<open>Not modelled.\<close>  \<^verbatim>\<open>dtime.c\<close> and \<^verbatim>\<open>dtime.h\<close> (the clock and sleeping; a wait ends when it is used up), the
  declarations of \<^verbatim>\<open>opo.h\<close>, tests and documentation.  The functions of the client run one after
  another: the receiving thread and other callers are not interleaved inside one call, callbacks
  are recorded and not run, so one that uses the client is outside the model.  Only the queue is
  modelled with its races.  Of the decoder, messages that are corrupt, too deep or without \<open>closes\<close>
  have a model but no general theorem.
\<close>

end
